(* ===== verification/Prelude.thy ===== *)
theory Prelude
  imports Main "HOL-Library.Word"
begin

text \<open>
  Shared vocabulary of the development: the machine integer types of
  \<^verbatim>\<open>inc/types.h\<close> with its rounding macros, the error numbers of
  \<^verbatim>\<open>inc/error.h\<close>, the outcome type that makes a kernel panic a value, linked
  lists threaded through an array by a link field (the page and the environment free
  lists both have this shape), and the generic lemmas on words the components share.
\<close>

unbundle bit_operations_syntax

section \<open>Fact collections\<close>

named_theorems jos_const \<open>defining equations of the constants of the headers\<close>
named_theorems kstate_frame \<open>which fields of the kernel state an operation leaves alone\<close>

section \<open>Machine integers\<close>

type_synonym u8 = "8 word"
type_synonym u16 = "16 word"
type_synonym u32 = "32 word"
type_synonym u64 = "64 word"

definition ROUNDDOWN :: "u32 \<Rightarrow> u32 \<Rightarrow> u32" where
  "ROUNDDOWN a n = a - a mod n"

definition ROUNDUP :: "u32 \<Rightarrow> u32 \<Rightarrow> u32" where
  "ROUNDUP a n = ROUNDDOWN (a + n - 1) n"

definition MIN_u32 :: "u32 \<Rightarrow> u32 \<Rightarrow> u32" where
  "MIN_u32 a b = (if a \<le> b then a else b)"

section \<open>Outcomes\<close>

text \<open>
  \<open>panic\<close> stops the kernel (or the environment) for good, so an operation that may
  panic has the outcome type \<open>'a exec\<close>: \<open>Inl (Panic msg)\<close>, or \<open>Inr\<close> of the value and
  the new state.
\<close>

datatype panic = Panic string

type_synonym 'a exec = "panic + 'a"

definition bindE :: "'a exec \<Rightarrow> ('a \<Rightarrow> 'b exec) \<Rightarrow> 'b exec" where
  "bindE m f = (case m of Inl p \<Rightarrow> Inl p | Inr x \<Rightarrow> f x)"

section \<open>Error numbers\<close>

definition E_UNSPECIFIED :: int where E_UNSPECIFIED_def [jos_const]: "E_UNSPECIFIED = 1"
definition E_BAD_ENV :: int where E_BAD_ENV_def [jos_const]: "E_BAD_ENV = 2"
definition E_INVAL :: int where E_INVAL_def [jos_const]: "E_INVAL = 3"
definition E_NO_MEM :: int where E_NO_MEM_def [jos_const]: "E_NO_MEM = 4"
definition E_NO_FREE_ENV :: int where E_NO_FREE_ENV_def [jos_const]: "E_NO_FREE_ENV = 5"
definition E_FAULT :: int where E_FAULT_def [jos_const]: "E_FAULT = 6"
definition E_IPC_NOT_RECV :: int where E_IPC_NOT_RECV_def [jos_const]: "E_IPC_NOT_RECV = 7"
definition E_EOF :: int where E_EOF_def [jos_const]: "E_EOF = 8"
definition E_NO_DISK :: int where E_NO_DISK_def [jos_const]: "E_NO_DISK = 9"
definition E_MAX_OPEN :: int where E_MAX_OPEN_def [jos_const]: "E_MAX_OPEN = 10"
definition E_NOT_FOUND :: int where E_NOT_FOUND_def [jos_const]: "E_NOT_FOUND = 11"
definition E_BAD_PATH :: int where E_BAD_PATH_def [jos_const]: "E_BAD_PATH = 12"
definition E_FILE_EXISTS :: int where E_FILE_EXISTS_def [jos_const]: "E_FILE_EXISTS = 13"
definition E_NOT_EXEC :: int where E_NOT_EXEC_def [jos_const]: "E_NOT_EXEC = 14"
definition E_NOT_SUPP :: int where E_NOT_SUPP_def [jos_const]: "E_NOT_SUPP = 15"
definition E_TX_POOL_FULL :: int where E_TX_POOL_FULL_def [jos_const]: "E_TX_POOL_FULL = 16"
definition E_RX_POOL_EMPTY :: int where E_RX_POOL_EMPTY_def [jos_const]: "E_RX_POOL_EMPTY = 17"
definition MAXERROR :: int where MAXERROR_def [jos_const]: "MAXERROR = 18"

section \<open>Lists threaded through an array\<close>

text \<open>
  \<open>chain link h xs\<close>: starting at the head \<open>h\<close> and following the link field, one
  visits exactly the indices \<open>xs\<close> and then meets the null pointer.
\<close>

primrec chain :: "('a \<Rightarrow> 'a option) \<Rightarrow> 'a option \<Rightarrow> 'a list \<Rightarrow> bool" where
  "chain link h [] \<longleftrightarrow> h = None"
| "chain link h (x # xs) \<longleftrightarrow> h = Some x \<and> chain link (link x) xs"

lemma bindE_simps [simp]:
  "bindE (Inl p) f = Inl p"
  "bindE (Inr x) f = f x"
  by (simp_all add: bindE_def)

lemma bindE_eq_Inr:
  "bindE m f = Inr y \<longleftrightarrow> (\<exists>x. m = Inr x \<and> f x = Inr y)"
  by (cases m) auto

lemma chain_None [simp]: "chain link None xs \<longleftrightarrow> xs = []"
  by (cases xs) auto

lemma chain_Some [simp]:
  "chain link (Some x) xs \<longleftrightarrow> (\<exists>ys. xs = x # ys \<and> chain link (link x) ys)"
  by (cases xs) auto

lemma chain_fun_upd:
  "x \<notin> set xs \<Longrightarrow> chain (link(x := v)) h xs = chain link h xs"
  by (induction xs arbitrary: h) auto

lemma chain_cong:
  "(\<And>x. x \<in> set xs \<Longrightarrow> link x = link' x) \<Longrightarrow> chain link h xs = chain link' h xs"
  by (induction xs arbitrary: h) auto

lemma chain_unique: "chain link h xs \<Longrightarrow> chain link h ys \<Longrightarrow> xs = ys"
  by (induction xs arbitrary: h ys) auto

lemma chain_suffix:
  "chain link h (xs @ x # ys) \<Longrightarrow> chain link (link x) ys"
  by (induction xs arbitrary: h) auto

lemma chain_distinct: "chain link h xs \<Longrightarrow> distinct xs"
proof (induction xs arbitrary: h)
  case Nil
  then show ?case by simp
next
  case (Cons x xs)
  then have d: "distinct xs" and c: "chain link (link x) xs" by auto
  have "x \<notin> set xs"
  proof
    assume "x \<in> set xs"
    then obtain as bs where xs: "xs = as @ x # bs" by (meson split_list)
    with c have "chain link (link x) bs" by (auto intro: chain_suffix)
    with c have "xs = bs" by (rule chain_unique)
    with xs show False by simp
  qed
  with d show ?case by simp
qed

section \<open>Words\<close>

lemma unat_u32_less: "unat (w :: u32) < 4294967296"
  using unsigned_less [of w, where 'a = nat] by simp

lemma ROUNDDOWN_le: "ROUNDDOWN a n \<le> a"
proof -
  have "unat (a mod n) \<le> unat a" by (simp add: unat_mod)
  then have "a mod n \<le> a" by (simp add: word_le_nat_alt)
  then show ?thesis unfolding ROUNDDOWN_def by (metis word_le_nat_alt unat_sub diff_le_self)
qed

lemma unat_ROUNDDOWN: "unat (ROUNDDOWN a n) = unat a - unat a mod unat n"
proof -
  have "unat (a mod n) \<le> unat a" by (simp add: unat_mod)
  then have "a mod n \<le> a" by (simp add: word_le_nat_alt)
  then show ?thesis unfolding ROUNDDOWN_def by (simp add: unat_sub unat_mod)
qed

lemma ROUNDDOWN_aligned: "unat (ROUNDDOWN a n) mod unat n = 0"
  by (simp add: unat_ROUNDDOWN minus_mod_eq_mult_div)

lemma ROUNDDOWN_idem: "ROUNDDOWN (ROUNDDOWN a n) n = ROUNDDOWN a n"
proof -
  have "unat (ROUNDDOWN (ROUNDDOWN a n) n) = unat (ROUNDDOWN a n)"
    by (simp add: unat_ROUNDDOWN [of "ROUNDDOWN a n"] ROUNDDOWN_aligned)
  then show ?thesis by (simp add: word_unat_eq_iff)
qed

lemma unat_ROUNDUP:
  assumes "0 < n" and "unat a + unat n \<le> 4294967296"
  shows "unat (ROUNDUP a n) = unat a + unat n - 1 - (unat a + unat n - 1) mod unat n"
proof -
  have n: "0 < unat n" using assms(1) by (simp add: word_less_nat_alt)
  have "n \<noteq> 0" using assms(1) by auto
  then have n1: "unat (n - 1) = unat n - 1" by (rule unat_minus_one)
  have "unat a + unat (n - 1) < 2 ^ LENGTH(32)" using assms(2) n n1 by simp
  then have "unat (a + (n - 1)) = unat a + unat (n - 1)" by (simp only: unat_add_lem)
  with n n1 have "unat (a + n - 1) = unat a + unat n - 1" by (simp add: algebra_simps)
  then show ?thesis by (simp add: ROUNDUP_def unat_ROUNDDOWN)
qed

lemma ROUNDUP_aligned:
  "unat (ROUNDUP a n) mod unat n = 0"
  by (simp add: ROUNDUP_def ROUNDDOWN_aligned)

lemma ROUNDUP_ge:
  assumes "0 < n" and "unat a + unat n \<le> 4294967296"
  shows "a \<le> ROUNDUP a n"
proof -
  have "(unat a + unat n - 1) mod unat n < unat n"
    using assms(1) by (simp add: word_less_nat_alt)
  then show ?thesis by (simp add: word_le_nat_alt unat_ROUNDUP [OF assms])
qed

end
