(* ===== verification/Machine.thy ===== *)
theory Machine
  imports Prelude
begin

text \<open>
  The x86 memory-management vocabulary of \<^verbatim>\<open>inc/mmu.h\<close>, the virtual memory layout
  of \<^verbatim>\<open>inc/memlayout.h\<close> and the register frames of \<^verbatim>\<open>inc/trap.h\<close>: the macros
  that take a linear address apart, the flags of a page table entry, the boundaries of
  the address space, and the structures \<^verbatim>\<open>PushRegs\<close>, \<^verbatim>\<open>Trapframe\<close>,
  \<^verbatim>\<open>Segdesc\<close> and \<^verbatim>\<open>Gatedesc\<close>. The lemmas say that the pieces of an address
  determine it, and that a page table entry built from a frame and flags gives the frame
  and the flags back.
\<close>

section \<open>Paging macros\<close>

definition PGNUM :: "u32 \<Rightarrow> u32" where
  "PGNUM la = drop_bit 12 la"

definition PDX :: "u32 \<Rightarrow> u32" where
  "PDX la = drop_bit 22 la AND 0x3FF"

definition PTX :: "u32 \<Rightarrow> u32" where
  "PTX la = drop_bit 12 la AND 0x3FF"

definition PGOFF :: "u32 \<Rightarrow> u32" where
  "PGOFF la = la AND 0xFFF"

definition HUGH_PGOFF :: "u32 \<Rightarrow> u32" where
  "HUGH_PGOFF la = la AND 0x3FFFFF"

definition PGADDR :: "u32 \<Rightarrow> u32 \<Rightarrow> u32 \<Rightarrow> u32" where
  "PGADDR d t offs = push_bit 22 d OR push_bit 12 t OR offs"

definition PTE_ADDR :: "u32 \<Rightarrow> u32" where
  "PTE_ADDR pte = pte AND NOT 0xFFF"

definition page2pa :: "nat \<Rightarrow> u32" where
  "page2pa pp = push_bit 12 (of_nat pp)"

definition NPDENTRIES :: nat where NPDENTRIES_def [jos_const]: "NPDENTRIES = 1024"
definition NPTENTRIES :: nat where NPTENTRIES_def [jos_const]: "NPTENTRIES = 1024"
definition PGSIZE :: u32 where PGSIZE_def [jos_const]: "PGSIZE = 4096"
definition PTSIZE :: u32 where PTSIZE_def [jos_const]: "PTSIZE = 4194304"

definition PTE_P :: u32 where PTE_P_def [jos_const]: "PTE_P = 0x001"
definition PTE_W :: u32 where PTE_W_def [jos_const]: "PTE_W = 0x002"
definition PTE_U :: u32 where PTE_U_def [jos_const]: "PTE_U = 0x004"
definition PTE_PWT :: u32 where PTE_PWT_def [jos_const]: "PTE_PWT = 0x008"
definition PTE_PCD :: u32 where PTE_PCD_def [jos_const]: "PTE_PCD = 0x010"
definition PTE_A :: u32 where PTE_A_def [jos_const]: "PTE_A = 0x020"
definition PTE_D :: u32 where PTE_D_def [jos_const]: "PTE_D = 0x040"
definition PTE_PS :: u32 where PTE_PS_def [jos_const]: "PTE_PS = 0x080"
definition PTE_AVAIL :: u32 where PTE_AVAIL_def [jos_const]: "PTE_AVAIL = 0xE00"

definition PTE_SYSCALL :: u32 where
  "PTE_SYSCALL = PTE_AVAIL OR PTE_P OR PTE_W OR PTE_U"

definition FEC_WR :: u32 where FEC_WR_def [jos_const]: "FEC_WR = 2"
definition FL_IF :: u32 where FL_IF_def [jos_const]: "FL_IF = 0x200"
definition FL_IOPL_3 :: u32 where FL_IOPL_3_def [jos_const]: "FL_IOPL_3 = 0x3000"

section \<open>Virtual memory layout\<close>

definition KERNBASE :: u32 where KERNBASE_def [jos_const]: "KERNBASE = 0xF0000000"
definition IOPHYSMEM :: u32 where IOPHYSMEM_def [jos_const]: "IOPHYSMEM = 0x0A0000"
definition EXTPHYSMEM :: u32 where EXTPHYSMEM_def [jos_const]: "EXTPHYSMEM = 0x100000"
definition KSTACKTOP :: u32 where KSTACKTOP_def [jos_const]: "KSTACKTOP = KERNBASE"
definition KSTKSIZE :: u32 where KSTKSIZE_def [jos_const]: "KSTKSIZE = 8 * PGSIZE"
definition KSTKGAP :: u32 where KSTKGAP_def [jos_const]: "KSTKGAP = 8 * PGSIZE"
definition MMIOLIM :: u32 where MMIOLIM_def [jos_const]: "MMIOLIM = KSTACKTOP - PTSIZE"
definition MMIOBASE :: u32 where MMIOBASE_def [jos_const]: "MMIOBASE = MMIOLIM - PTSIZE"
definition ULIM :: u32 where ULIM_def [jos_const]: "ULIM = MMIOBASE"
definition UVPT :: u32 where UVPT_def [jos_const]: "UVPT = ULIM - PTSIZE"
definition UPAGES :: u32 where UPAGES_def [jos_const]: "UPAGES = UVPT - PTSIZE"
definition UENVS :: u32 where UENVS_def [jos_const]: "UENVS = UPAGES - PTSIZE"
definition UTOP :: u32 where UTOP_def [jos_const]: "UTOP = UENVS"
definition UXSTACKTOP :: u32 where UXSTACKTOP_def [jos_const]: "UXSTACKTOP = UTOP"
definition USTACKTOP :: u32 where USTACKTOP_def [jos_const]: "USTACKTOP = UTOP - 2 * PGSIZE"
definition UTEXT :: u32 where UTEXT_def [jos_const]: "UTEXT = 2 * PTSIZE"
definition UTEMP :: u32 where UTEMP_def [jos_const]: "UTEMP = PTSIZE"
definition PFTEMP :: u32 where PFTEMP_def [jos_const]: "PFTEMP = UTEMP + PTSIZE - PGSIZE"
definition MPENTRY_PADDR :: u32 where MPENTRY_PADDR_def [jos_const]: "MPENTRY_PADDR = 0x7000"

definition GD_KT :: u16 where GD_KT_def [jos_const]: "GD_KT = 0x08"
definition GD_UT :: u16 where GD_UT_def [jos_const]: "GD_UT = 0x18"
definition GD_UD :: u16 where GD_UD_def [jos_const]: "GD_UD = 0x20"

section \<open>Register frames\<close>

record PushRegs =
  reg_edi :: u32
  reg_esi :: u32
  reg_ebp :: u32
  reg_oesp :: u32
  reg_ebx :: u32
  reg_edx :: u32
  reg_ecx :: u32
  reg_eax :: u32

record Trapframe =
  tf_regs :: PushRegs
  tf_es :: u16
  tf_ds :: u16
  tf_trapno :: u32
  tf_err :: u32
  tf_eip :: u32
  tf_cs :: u16
  tf_eflags :: u32
  tf_esp :: u32
  tf_ss :: u16

definition zero_regs :: PushRegs where
  "zero_regs = \<lparr>reg_edi = 0, reg_esi = 0, reg_ebp = 0, reg_oesp = 0,
                reg_ebx = 0, reg_edx = 0, reg_ecx = 0, reg_eax = 0\<rparr>"

definition zero_tf :: Trapframe where
  "zero_tf = \<lparr>tf_regs = zero_regs, tf_es = 0, tf_ds = 0, tf_trapno = 0, tf_err = 0,
              tf_eip = 0, tf_cs = 0, tf_eflags = 0, tf_esp = 0, tf_ss = 0\<rparr>"

section \<open>Segment and gate descriptors\<close>

record Segdesc =
  sd_lim_15_0 :: "16 word"
  sd_base_15_0 :: "16 word"
  sd_base_23_16 :: "8 word"
  sd_type :: "4 word"
  sd_s :: "1 word"
  sd_dpl :: "2 word"
  sd_p :: "1 word"
  sd_lim_19_16 :: "4 word"
  sd_avl :: "1 word"
  sd_rsv1 :: "1 word"
  sd_db :: "1 word"
  sd_g :: "1 word"
  sd_base_31_24 :: "8 word"

definition SEG :: "4 word \<Rightarrow> u32 \<Rightarrow> u32 \<Rightarrow> 2 word \<Rightarrow> Segdesc" where
  "SEG type base lim dpl =
     \<lparr>sd_lim_15_0 = ucast (drop_bit 12 lim AND 0xffff), sd_base_15_0 = ucast (base AND 0xffff),
      sd_base_23_16 = ucast (drop_bit 16 base AND 0xff), sd_type = type, sd_s = 1, sd_dpl = dpl,
      sd_p = 1, sd_lim_19_16 = ucast (drop_bit 28 lim), sd_avl = 0, sd_rsv1 = 0, sd_db = 1,
      sd_g = 1, sd_base_31_24 = ucast (drop_bit 24 base)\<rparr>"

record Gatedesc =
  gd_off_15_0 :: "16 word"
  gd_sel :: "16 word"
  gd_args :: "5 word"
  gd_rsv1 :: "3 word"
  gd_type :: "4 word"
  gd_s :: "1 word"
  gd_dpl :: "2 word"
  gd_p :: "1 word"
  gd_off_31_16 :: "16 word"

definition STS_IG32 :: "4 word" where STS_IG32_def [jos_const]: "STS_IG32 = 0xE"
definition STS_TG32 :: "4 word" where STS_TG32_def [jos_const]: "STS_TG32 = 0xF"

definition SETGATE :: "bool \<Rightarrow> u16 \<Rightarrow> u32 \<Rightarrow> 2 word \<Rightarrow> Gatedesc" where
  "SETGATE istrap sel offs dpl =
     \<lparr>gd_off_15_0 = ucast (offs AND 0xffff), gd_sel = sel, gd_args = 0, gd_rsv1 = 0,
      gd_type = (if istrap then STS_TG32 else STS_IG32), gd_s = 0, gd_dpl = dpl, gd_p = 1,
      gd_off_31_16 = ucast (drop_bit 16 offs)\<rparr>"

section \<open>Taking linear addresses apart\<close>

lemma mask_numerals:
  "(0x3FF :: u32) = mask 10" "(0xFFF :: u32) = mask 12" "(0x3FFFFF :: u32) = mask 22"
  by (simp_all add: mask_eq_exp_minus_1)

lemma unat_drop_bit_u32: "unat (drop_bit n (w :: u32)) = unat w div 2 ^ n"
  by (subst unat_drop_bit_eq) (rule drop_bit_eq_div)

lemma unat_and_mask_u32: "unat ((w :: u32) AND mask n) = unat w mod 2 ^ n"
  by (subst take_bit_eq_mask [symmetric], subst unsigned_take_bit_eq) (rule take_bit_eq_mod)

lemma unat_PGNUM: "unat (PGNUM la) = unat la div 4096"
  by (simp add: PGNUM_def unat_drop_bit_u32 del: drop_bit_numeral_bit0)

lemma unat_PDX: "unat (PDX la) = unat la div 4194304"
proof -
  have "unat la div 4194304 < 1024"
    using unat_u32_less [of la] by (simp add: less_mult_imp_div_less)
  then show ?thesis
    by (simp only: PDX_def mask_numerals unat_and_mask_u32 unat_drop_bit_u32) simp
qed

lemma unat_PTX: "unat (PTX la) = unat la div 4096 mod 1024"
  by (simp only: PTX_def mask_numerals unat_and_mask_u32 unat_drop_bit_u32) simp

lemma unat_PGOFF: "unat (PGOFF la) = unat la mod 4096"
  by (simp only: PGOFF_def mask_numerals unat_and_mask_u32) simp

lemma PDX_bound: "unat (PDX la) < 1024"
  using unat_u32_less [of la] by (simp add: unat_PDX less_mult_imp_div_less)

lemma PTX_bound: "unat (PTX la) < 1024"
  by (simp add: unat_PTX)

lemma PGNUM_split: "unat (PGNUM la) = unat (PDX la) * 1024 + unat (PTX la)"
proof -
  have "unat la div 4096 div 1024 = unat la div 4194304" by (simp flip: div_mult2_eq)
  then show ?thesis
    using div_mult_mod_eq [of "unat la div 4096" 1024]
    by (simp add: unat_PGNUM unat_PDX unat_PTX)
qed

lemma user_va_iff: "va < UTOP \<longleftrightarrow> unat (PDX va) < 955"
proof -
  have "va < UTOP \<longleftrightarrow> unat va < 4005560320"
    by (simp add: word_less_nat_alt jos_const)
  also have "\<dots> \<longleftrightarrow> unat va div 4194304 < 955" by auto
  finally show ?thesis by (simp add: unat_PDX)
qed

lemma unat_PDX_UTOP: "unat (PDX UTOP) = 955"
  by (simp add: unat_PDX jos_const)

lemma unat_PDX_UVPT: "unat (PDX UVPT) = 957"
  by (simp add: unat_PDX jos_const)

section \<open>Page table entries\<close>

lemma low_bits_iff: "(f :: u32) AND NOT 0xFFF = 0 \<longleftrightarrow> (\<forall>n \<ge> 12. \<not> bit f n)"
proof
  assume a: "f AND NOT 0xFFF = 0"
  show "\<forall>n \<ge> 12. \<not> bit f n"
  proof (intro allI impI)
    fix n :: nat assume "12 \<le> n"
    show "\<not> bit f n"
    proof
      assume b: "bit f n"
      then have "n < 32" using bit_imp_le_length [of f n] by simp
      with b \<open>12 \<le> n\<close> have "bit (f AND NOT (mask 12)) n" by (simp add: bit_simps)
      with a show False by (simp add: mask_numerals)
    qed
  qed
next
  assume "\<forall>n \<ge> 12. \<not> bit f n"
  then show "f AND NOT 0xFFF = 0"
    by (intro bit_word_eqI) (auto simp: mask_numerals bit_simps not_less)
qed

lemma unat_PGNUM_page2pa: "p < 1048576 \<Longrightarrow> unat (PGNUM (page2pa p)) = p"
proof -
  assume p: "p < 1048576"
  then have "unat (page2pa p) = p * 4096"
    by (simp add: page2pa_def push_bit_eq_mult unat_word_ariths unat_of_nat)
  then show ?thesis by (simp add: unat_PGNUM)
qed

lemma PTE_ADDR_pte:
  assumes "f AND NOT 0xFFF = 0"
  shows "PTE_ADDR (page2pa p OR f) = page2pa p"
  using assms unfolding low_bits_iff PTE_ADDR_def page2pa_def
  by (intro bit_word_eqI) (auto simp: mask_numerals bit_simps)

lemma pte_flags:
  assumes "f AND NOT 0xFFF = 0"
  shows "(page2pa p OR f) AND 0xFFF = f"
  using assms unfolding low_bits_iff PTE_ADDR_def page2pa_def
  by (intro bit_word_eqI) (auto simp: mask_numerals bit_simps intro: leI)

lemma unat_PGADDR:
  assumes "i < 1024" and "j < 1024"
  shows "unat (PGADDR (of_nat i) (of_nat j) 0) = i * 4194304 + j * 4096"
proof -
  have "push_bit 22 (of_nat i) OR push_bit 12 (of_nat j) = push_bit 22 (of_nat i :: u32) + push_bit 12 (of_nat j)"
  proof (rule disjunctive_add_eq_or [symmetric], rule bit_word_eqI)
    fix n
    have "\<not> bit (of_nat j :: u32) m" if "10 \<le> m" for m
    proof
      assume "bit (of_nat j :: u32) m"
      then have "bit j m" by (simp add: bit_simps)
      moreover have "take_bit 10 j = j" using assms(2) by (simp add: take_bit_nat_eq_self)
      ultimately show False using that by (metis bit_take_bit_iff linorder_not_less)
    qed
    then show "bit (push_bit 22 (of_nat i) AND push_bit 12 (of_nat j) :: u32) n = bit (0::u32) n"
      by (auto simp: bit_simps)
  qed
  then show ?thesis using assms
    by (simp add: PGADDR_def unat_word_ariths push_bit_eq_mult unat_of_nat)
qed
lemma and_flag_iff:
  "(x AND PTE_P = 0) = (\<not> bit x 0)" "(x AND PTE_W = 0) = (\<not> bit x 1)"
  "(x AND PTE_U = 0) = (\<not> bit x 2)" "(x AND PTE_PS = 0) = (\<not> bit x 7)"
  using and_exp_eq_0_iff_not_bit [of x 0] and_exp_eq_0_iff_not_bit [of x 1]
    and_exp_eq_0_iff_not_bit [of x 2] and_exp_eq_0_iff_not_bit [of x 7]
  by (simp_all add: jos_const)
lemma PGADDR_parts:
  assumes "i < 1024" and "j < 1024"
  shows "unat (PDX (PGADDR (of_nat i) (of_nat j) 0)) = i"
    and "unat (PTX (PGADDR (of_nat i) (of_nat j) 0)) = j"
proof -
  have "(i * 4194304 + j * 4096) div 4096 = i * 1024 + j" by simp
  then have "(i * 4194304 + j * 4096) div 4096 mod 1024 = j" using assms by simp
  then show "unat (PTX (PGADDR (of_nat i) (of_nat j) 0)) = j"
    by (simp only: unat_PTX unat_PGADDR [OF assms])
  show "unat (PDX (PGADDR (of_nat i) (of_nat j) 0)) = i"
    using assms by (simp add: unat_PDX unat_PGADDR)
qed

end
