(* ===== verification/KState.thy ===== *)
theory KState
  imports Machine
begin

text \<open>
  The state of the JOS kernel as the CPU that holds the big kernel lock sees it: the
  \<^verbatim>\<open>struct PageInfo\<close> array and its free list (\<^verbatim>\<open>kern/pmap.c\<close>), physical memory,
  the \<^verbatim>\<open>struct Env\<close> table and its free list (\<^verbatim>\<open>kern/env.c\<close>), \<^verbatim>\<open>curenv\<close>,
  the page directory in \<^verbatim>\<open>cr3\<close> and the TLB entries flushed so far.

  A pointer into \<^verbatim>\<open>pages[]\<close> or \<^verbatim>\<open>envs[]\<close> is the index of the element, \<^verbatim>\<open>NULL\<close>
  is \<^term>\<open>None\<close>. A physical page is 1024 32-bit words; \<open>pmem s f i\<close> is word \<open>i\<close> of frame
  \<open>f\<close>. A page directory is named by its frame number and a \<^verbatim>\<open>pte_t *\<close> by a frame and a
  word index: the kernel reaches frame \<open>f\<close> at the address \<open>KERNBASE + f * PGSIZE\<close>, and
  \<open>PADDR_page2kva\<close> (theory \<open>PageAlloc\<close>) shows that the two ways of naming it agree.
\<close>

record PageInfo =
  pp_link :: "nat option"
  pp_ref :: u16

datatype env_status = ENV_FREE | ENV_DYING | ENV_RUNNABLE | ENV_RUNNING | ENV_NOT_RUNNABLE

datatype EnvType =
  ENV_TYPE_USER | ENV_TYPE_FS | ENV_TYPE_NS | ENV_TYPE_OUT_NS | ENV_TYPE_IN_NS

datatype cpu_state = CPU_UNUSED | CPU_STARTED | CPU_HALTED

record Env =
  env_tf :: Trapframe
  env_link :: "nat option"
  env_id :: u32
  env_parent_id :: u32
  env_type :: EnvType
  env_status :: env_status
  env_runs :: u32
  env_cpunum :: nat
  env_pgdir :: "nat option"
  env_pgfault_upcall :: u32
  env_ipc_recving :: bool
  env_ipc_dstva :: u32
  env_ipc_value :: u32
  env_ipc_from :: u32
  env_ipc_perm :: u32
  env_priority :: u8

record kstate =
  npages :: nat
  npages_basemem :: nat
  pages :: "nat \<Rightarrow> PageInfo"
  page_free_list :: "nat option"
  nextfree :: u32
  pse_support :: u8
  kern_pgdir :: nat
  pmem :: "nat \<Rightarrow> nat \<Rightarrow> u32"
  mmio_base :: u32
  user_mem_check_addr :: u32
  envs :: "nat \<Rightarrow> Env"
  env_free_list :: "nat option"
  curenv :: "nat option"
  cpunum :: nat
  cpu_status :: cpu_state
  kernel_locked :: bool
  cr3 :: nat
  tlb_flushed :: "u32 list"
  ticks :: u32

section \<open>Elementary writes\<close>

definition set_pp_link :: "nat \<Rightarrow> nat option \<Rightarrow> kstate \<Rightarrow> kstate" where
  "set_pp_link p l s = s\<lparr>pages := (pages s)(p := (pages s p)\<lparr>pp_link := l\<rparr>)\<rparr>"

definition set_pp_ref :: "nat \<Rightarrow> u16 \<Rightarrow> kstate \<Rightarrow> kstate" where
  "set_pp_ref p r s = s\<lparr>pages := (pages s)(p := (pages s p)\<lparr>pp_ref := r\<rparr>)\<rparr>"

definition set_word :: "nat \<Rightarrow> nat \<Rightarrow> u32 \<Rightarrow> kstate \<Rightarrow> kstate" where
  "set_word f i v s = s\<lparr>pmem := (pmem s)(f := (pmem s f)(i := v))\<rparr>"

definition set_page :: "nat \<Rightarrow> (nat \<Rightarrow> u32) \<Rightarrow> kstate \<Rightarrow> kstate" where
  "set_page f c s = s\<lparr>pmem := (pmem s)(f := c)\<rparr>"

definition upd_env :: "nat \<Rightarrow> (Env \<Rightarrow> Env) \<Rightarrow> kstate \<Rightarrow> kstate" where
  "upd_env e g s = s\<lparr>envs := (envs s)(e := g (envs s e))\<rparr>"

lemmas kwrite_defs = set_pp_link_def set_pp_ref_def set_word_def set_page_def upd_env_def

lemma set_pp_link_simps [simp]:
  "npages (set_pp_link p l s) = npages s"
  "pages (set_pp_link p l s) = (pages s)(p := (pages s p)\<lparr>pp_link := l\<rparr>)"
  "page_free_list (set_pp_link p l s) = page_free_list s"
  "pse_support (set_pp_link p l s) = pse_support s"
  "kern_pgdir (set_pp_link p l s) = kern_pgdir s"
  "pmem (set_pp_link p l s) = pmem s"
  "envs (set_pp_link p l s) = envs s"
  "env_free_list (set_pp_link p l s) = env_free_list s"
  "curenv (set_pp_link p l s) = curenv s"
  "tlb_flushed (set_pp_link p l s) = tlb_flushed s"
  "cr3 (set_pp_link p l s) = cr3 s"
  "cpu_status (set_pp_link p l s) = cpu_status s"
  "kernel_locked (set_pp_link p l s) = kernel_locked s"
  "cpunum (set_pp_link p l s) = cpunum s"
  "ticks (set_pp_link p l s) = ticks s"
  by (simp_all add: set_pp_link_def)

lemma set_pp_ref_simps [simp]:
  "npages (set_pp_ref p r s) = npages s"
  "pages (set_pp_ref p r s) = (pages s)(p := (pages s p)\<lparr>pp_ref := r\<rparr>)"
  "page_free_list (set_pp_ref p r s) = page_free_list s"
  "pse_support (set_pp_ref p r s) = pse_support s"
  "kern_pgdir (set_pp_ref p r s) = kern_pgdir s"
  "pmem (set_pp_ref p r s) = pmem s"
  "envs (set_pp_ref p r s) = envs s"
  "env_free_list (set_pp_ref p r s) = env_free_list s"
  "curenv (set_pp_ref p r s) = curenv s"
  "tlb_flushed (set_pp_ref p r s) = tlb_flushed s"
  "cr3 (set_pp_ref p r s) = cr3 s"
  "cpu_status (set_pp_ref p r s) = cpu_status s"
  "kernel_locked (set_pp_ref p r s) = kernel_locked s"
  "cpunum (set_pp_ref p r s) = cpunum s"
  "ticks (set_pp_ref p r s) = ticks s"
  by (simp_all add: set_pp_ref_def)

lemma set_word_simps [simp]:
  "npages (set_word f i v s) = npages s"
  "pages (set_word f i v s) = pages s"
  "page_free_list (set_word f i v s) = page_free_list s"
  "pse_support (set_word f i v s) = pse_support s"
  "kern_pgdir (set_word f i v s) = kern_pgdir s"
  "pmem (set_word f i v s) = (pmem s)(f := (pmem s f)(i := v))"
  "envs (set_word f i v s) = envs s"
  "env_free_list (set_word f i v s) = env_free_list s"
  "curenv (set_word f i v s) = curenv s"
  "tlb_flushed (set_word f i v s) = tlb_flushed s"
  "cr3 (set_word f i v s) = cr3 s"
  "cpu_status (set_word f i v s) = cpu_status s"
  "kernel_locked (set_word f i v s) = kernel_locked s"
  "cpunum (set_word f i v s) = cpunum s"
  "ticks (set_word f i v s) = ticks s"
  by (simp_all add: set_word_def)

lemma set_page_simps [simp]:
  "npages (set_page f c s) = npages s"
  "pages (set_page f c s) = pages s"
  "page_free_list (set_page f c s) = page_free_list s"
  "pse_support (set_page f c s) = pse_support s"
  "kern_pgdir (set_page f c s) = kern_pgdir s"
  "pmem (set_page f c s) = (pmem s)(f := c)"
  "envs (set_page f c s) = envs s"
  "env_free_list (set_page f c s) = env_free_list s"
  "curenv (set_page f c s) = curenv s"
  "tlb_flushed (set_page f c s) = tlb_flushed s"
  "cr3 (set_page f c s) = cr3 s"
  "cpu_status (set_page f c s) = cpu_status s"
  "kernel_locked (set_page f c s) = kernel_locked s"
  "cpunum (set_page f c s) = cpunum s"
  "ticks (set_page f c s) = ticks s"
  by (simp_all add: set_page_def)

lemma upd_env_simps [simp]:
  "npages (upd_env e g s) = npages s"
  "pages (upd_env e g s) = pages s"
  "page_free_list (upd_env e g s) = page_free_list s"
  "pse_support (upd_env e g s) = pse_support s"
  "kern_pgdir (upd_env e g s) = kern_pgdir s"
  "pmem (upd_env e g s) = pmem s"
  "envs (upd_env e g s) = (envs s)(e := g (envs s e))"
  "env_free_list (upd_env e g s) = env_free_list s"
  "curenv (upd_env e g s) = curenv s"
  "tlb_flushed (upd_env e g s) = tlb_flushed s"
  "cr3 (upd_env e g s) = cr3 s"
  "cpu_status (upd_env e g s) = cpu_status s"
  "kernel_locked (upd_env e g s) = kernel_locked s"
  "cpunum (upd_env e g s) = cpunum s"
  "ticks (upd_env e g s) = ticks s"
  by (simp_all add: upd_env_def)

end
