(* ===== verification/Pool.thy ===== *)
theory Pool
  imports Prelude
begin

text \<open>
  The contract between an allocator and its clients. JOS has several allocators with one
  discipline: an allocation hands out something that nobody owns, a release takes back
  something that the caller owns, and nothing is handed out twice in between. The locale
  states that contract over the set of available resources; what a client may conclude
  (repeated allocation gives distinct resources, and fails only when nothing is left) is
  proved once. The physical page allocator (\<open>PageAlloc\<close>) and the disk block allocator
  (\<open>FsBlocks\<close>) are instances.
\<close>

fun alloc_many :: "('s \<Rightarrow> ('r option \<times> 's) exec) \<Rightarrow> nat \<Rightarrow> 's \<Rightarrow> ('r list \<times> 's) exec" where
  "alloc_many alloc 0 s = Inr ([], s)"
| "alloc_many alloc (Suc n) s =
     bindE (alloc s) (\<lambda>(r, s1).
       case r of
         None \<Rightarrow> Inr ([], s1)
       | Some x \<Rightarrow> bindE (alloc_many alloc n s1) (\<lambda>(xs, s2). Inr (x # xs, s2)))"

locale resource_pool =
  fixes alloc :: "'s \<Rightarrow> ('r option \<times> 's) exec"
    and release :: "'r \<Rightarrow> 's \<Rightarrow> 's exec"
    and invar :: "'s \<Rightarrow> bool"
    and avail :: "'s \<Rightarrow> 'r set"
    and owned :: "'s \<Rightarrow> 'r \<Rightarrow> bool"
  assumes alloc_empty:
      "invar s \<Longrightarrow> avail s = {} \<Longrightarrow> alloc s = Inr (None, s)"
    and alloc_avail:
      "invar s \<Longrightarrow> avail s \<noteq> {} \<Longrightarrow>
         \<exists>r s'. alloc s = Inr (Some r, s') \<and> invar s' \<and> r \<in> avail s \<and>
                avail s' = avail s - {r} \<and> owned s' r \<and> (\<forall>q. owned s q \<longrightarrow> owned s' q)"
    and release_owned:
      "invar s \<Longrightarrow> owned s r \<Longrightarrow>
         \<exists>s'. release r s = Inr s' \<and> invar s' \<and> avail s' = insert r (avail s) \<and>
              (\<forall>q. owned s q \<longrightarrow> q \<noteq> r \<longrightarrow> owned s' q)"
    and owned_not_avail: "invar s \<Longrightarrow> owned s r \<Longrightarrow> r \<notin> avail s"
    and finite_avail: "invar s \<Longrightarrow> finite (avail s)"
begin

lemma alloc_many_spec:
  "invar s \<Longrightarrow>
     \<exists>rs s'. alloc_many alloc n s = Inr (rs, s') \<and> invar s' \<and> distinct rs \<and>
       set rs \<subseteq> avail s \<and> avail s' = avail s - set rs \<and>
       length rs = min n (card (avail s)) \<and>
       (\<forall>q. q \<in> set rs \<or> owned s q \<longrightarrow> owned s' q)"
proof (induction n arbitrary: s)
  case 0
  then show ?case by simp
next
  case (Suc n)
  show ?case
  proof (cases "avail s = {}")
    case True
    with Suc.prems show ?thesis by (simp add: alloc_empty)
  next
    case False
    then obtain r s1 where r: "alloc s = Inr (Some r, s1)" "invar s1" "r \<in> avail s"
        "avail s1 = avail s - {r}" "owned s1 r" "\<forall>q. owned s q \<longrightarrow> owned s1 q"
      using alloc_avail [OF Suc.prems] by blast
    then obtain rs s2 where rs: "alloc_many alloc n s1 = Inr (rs, s2)" "invar s2" "distinct rs"
        "set rs \<subseteq> avail s1" "avail s2 = avail s1 - set rs" "length rs = min n (card (avail s1))"
        "\<forall>q. q \<in> set rs \<or> owned s1 q \<longrightarrow> owned s2 q"
      using Suc.IH [of s1] by auto
    have c: "card (avail s) = Suc (card (avail s1))"
      using r(3,4) finite_avail [OF Suc.prems] by (metis card.remove)
    have "alloc_many alloc (Suc n) s = Inr (r # rs, s2)" using r(1) rs(1) by simp
    moreover have "distinct (r # rs)" using rs(3,4) r(4) by auto
    moreover have "set (r # rs) \<subseteq> avail s" using rs(4) r(3,4) by auto
    moreover have "avail s2 = avail s - set (r # rs)" using rs(5) r(4) by auto
    moreover have "length (r # rs) = min (Suc n) (card (avail s))" using c rs(6) by simp
    moreover have "\<forall>q. q \<in> set (r # rs) \<or> owned s q \<longrightarrow> owned s2 q" using rs(7) r(5,6) by auto
    ultimately show ?thesis using rs(2) by blast
  qed
qed

lemma alloc_release:
  assumes "invar s" and "alloc s = Inr (Some r, s')"
  shows "\<exists>s''. release r s' = Inr s'' \<and> invar s'' \<and> avail s'' = avail s"
proof -
  have "avail s \<noteq> {}" using assms alloc_empty by force
  then have "invar s'" "r \<in> avail s" "avail s' = avail s - {r}" "owned s' r"
    using alloc_avail [OF assms(1)] assms(2) by auto
  then show ?thesis using release_owned [of s' r] by auto
qed

end

end
