(* ===== verification/PageAlloc.thy ===== *)
theory PageAlloc
  imports KState Pool
begin

text \<open>
  Physical page management of \<^verbatim>\<open>kern/pmap.c\<close>: \<^verbatim>\<open>i386_detect_memory\<close>,
  \<^verbatim>\<open>boot_alloc\<close>, \<^verbatim>\<open>page_init\<close>, \<^verbatim>\<open>page_alloc\<close>, \<^verbatim>\<open>page_free\<close> and
  \<^verbatim>\<open>page_decref\<close>, with the address conversions of \<^verbatim>\<open>kern/pmap.h\<close>.
  The lemmas refine the linked free list to a list of frame numbers, and the locale
  \<open>resource_pool\<close> states what a client of an allocator may rely on; the page allocator is
  an instance of it.
\<close>

section \<open>Address conversions\<close>

definition PADDR :: "u32 \<Rightarrow> u32 exec" where
  "PADDR kva =
     (if kva < KERNBASE then Inl (Panic ''PADDR called with invalid kva'')
      else Inr (kva - KERNBASE))"

definition KADDR :: "u32 \<Rightarrow> kstate \<Rightarrow> u32 exec" where
  "KADDR pa s =
     (if unat (PGNUM pa) \<ge> npages s then Inl (Panic ''KADDR called with invalid pa'')
      else Inr (pa + KERNBASE))"

definition pa2page :: "u32 \<Rightarrow> kstate \<Rightarrow> nat exec" where
  "pa2page pa s =
     (if unat (PGNUM pa) \<ge> npages s then Inl (Panic ''pa2page called with invalid pa'')
      else Inr (unat (PGNUM pa)))"

definition page2kva :: "nat \<Rightarrow> kstate \<Rightarrow> u32 exec" where
  "page2kva pp s = KADDR (page2pa pp) s"

section \<open>Memory detection and the boot-time allocator\<close>

text \<open>
  The CMOS reads \<^verbatim>\<open>mc146818_read\<close> talk to the clock chip: their four results, the low
  and high bytes of the base and the extended memory size in kilobytes, are arguments.
\<close>

definition nvram_read :: "u8 \<Rightarrow> u8 \<Rightarrow> nat" where
  "nvram_read lo hi = unat lo + unat hi * 256"

definition i386_detect_memory :: "u8 \<Rightarrow> u8 \<Rightarrow> u8 \<Rightarrow> u8 \<Rightarrow> kstate \<Rightarrow> kstate" where
  "i386_detect_memory base_lo base_hi ext_lo ext_hi s =
     (let basemem = nvram_read base_lo base_hi * 1024 div unat PGSIZE;
          extmem = nvram_read ext_lo ext_hi * 1024 div unat PGSIZE
      in s\<lparr>npages_basemem := basemem,
           npages := (if extmem \<noteq> 0 then unat EXTPHYSMEM div unat PGSIZE + extmem
                      else basemem)\<rparr>)"

text \<open>\<open>kend\<close> is the linker symbol \<^verbatim>\<open>end\<close>.\<close>

definition boot_alloc :: "u32 \<Rightarrow> u32 \<Rightarrow> kstate \<Rightarrow> (u32 \<times> kstate) exec" where
  "boot_alloc kend n s =
     (let s0 = (if nextfree s = 0 then s\<lparr>nextfree := ROUNDUP kend PGSIZE\<rparr> else s);
          result = nextfree s0;
          s1 = (if n > 0 then s0\<lparr>nextfree := nextfree s0 + ROUNDUP n PGSIZE\<rparr> else s0)
      in if nextfree s1 < KERNBASE + 0x400000 then Inr (result, s1)
         else Inl (Panic ''Out Of Memory''))"

section \<open>The page allocator\<close>

definition ALLOC_ZERO :: u32 where ALLOC_ZERO_def [jos_const]: "ALLOC_ZERO = 1"

definition push_free_page :: "nat \<Rightarrow> kstate \<Rightarrow> kstate" where
  "push_free_page i s =
     (let s1 = set_pp_ref i 0 s;
          s2 = set_pp_link i (page_free_list s1) s1
      in s2\<lparr>page_free_list := Some i\<rparr>)"

definition page_init :: "u32 \<Rightarrow> kstate \<Rightarrow> kstate exec" where
  "page_init kend s =
     bindE (boot_alloc kend 0 s) (\<lambda>(va, s0).
     bindE (PADDR va) (\<lambda>pa.
     let io_phys = unat (IOPHYSMEM div PGSIZE);
         nextfree_page = unat (pa div PGSIZE);
         mpentry_page = unat (MPENTRY_PADDR div PGSIZE);
         s1 = set_pp_ref mpentry_page 1 (set_pp_ref 0 1 s0);
         s2 = fold (\<lambda>i t. if i = mpentry_page then t else push_free_page i t)
                [1..<npages_basemem s1] s1;
         s3 = fold (\<lambda>i t. set_pp_ref i 1 t) [io_phys..<nextfree_page] s2
     in Inr (fold push_free_page [nextfree_page..<npages s3] s3)))"

definition page_alloc :: "u32 \<Rightarrow> kstate \<Rightarrow> (nat option \<times> kstate) exec" where
  "page_alloc alloc_flags s =
     (case page_free_list s of
        None \<Rightarrow> Inr (None, s)
      | Some page \<Rightarrow>
          let s1 = s\<lparr>page_free_list := pp_link (pages s page)\<rparr>;
              s2 = set_pp_link page None s1
          in if alloc_flags AND ALLOC_ZERO \<noteq> 0
             then bindE (page2kva page s2) (\<lambda>_. Inr (Some page, set_page page (\<lambda>_. 0) s2))
             else Inr (Some page, s2))"

definition page_free :: "nat \<Rightarrow> kstate \<Rightarrow> kstate exec" where
  "page_free pp s =
     (if pp_ref (pages s pp) \<noteq> 0 \<or> pp_link (pages s pp) \<noteq> None
      then Inl (Panic ''Illegal Page Free'')
      else Inr ((set_pp_link pp (page_free_list s) s)\<lparr>page_free_list := Some pp\<rparr>))"

definition page_decref :: "nat \<Rightarrow> kstate \<Rightarrow> kstate exec" where
  "page_decref pp s =
     (let s1 = set_pp_ref pp (pp_ref (pages s pp) - 1) s
      in if pp_ref (pages s1 pp) = 0 then page_free pp s1 else Inr s1)"

section \<open>The free list as a list of frames\<close>

text \<open>The pages the free list visits, at most \<open>npages\<close> of them.\<close>

fun collect :: "nat \<Rightarrow> ('a \<Rightarrow> 'a option) \<Rightarrow> 'a option \<Rightarrow> 'a list" where
  "collect 0 link h = []"
| "collect (Suc n) link None = []"
| "collect (Suc n) link (Some x) = x # collect n link (link x)"

definition free_pages :: "kstate \<Rightarrow> nat list" where
  "free_pages s = collect (npages s) (\<lambda>p. pp_link (pages s p)) (page_free_list s)"

definition alloc_inv :: "kstate \<Rightarrow> bool" where
  "alloc_inv s \<longleftrightarrow>
     chain (\<lambda>p. pp_link (pages s p)) (page_free_list s) (free_pages s) \<and>
     (\<forall>p \<in> set (free_pages s). p < npages s \<and> pp_ref (pages s p) = 0) \<and>
     npages s \<le> 65536"

text \<open>A page that \<^verbatim>\<open>page_free\<close> may be called on: its counter is zero and it is on no list.\<close>

definition releasable :: "kstate \<Rightarrow> nat \<Rightarrow> bool" where
  "releasable s p \<longleftrightarrow>
     p < npages s \<and> pp_ref (pages s p) = 0 \<and> pp_link (pages s p) = None \<and> p \<notin> set (free_pages s)"

lemma collect_chain: "chain link h xs \<Longrightarrow> length xs \<le> n \<Longrightarrow> collect n link h = xs"
proof (induction xs arbitrary: h n)
  case Nil
  then show ?case by (cases n) auto
next
  case (Cons x xs)
  then show ?case by (cases n) auto
qed

lemma distinct_bounded_length:
  assumes "distinct xs" and "\<forall>x \<in> set xs. x < (n :: nat)"
  shows "length xs \<le> n"
proof -
  have "card (set xs) \<le> card {..<n}" using assms(2) by (intro card_mono) auto
  with assms(1) show ?thesis by (simp add: distinct_card)
qed

lemma free_pages_eqI:
  assumes "chain (\<lambda>p. pp_link (pages s p)) (page_free_list s) xs"
    and "\<forall>p \<in> set xs. p < npages s"
  shows "free_pages s = xs"
  unfolding free_pages_def
  using assms by (intro collect_chain distinct_bounded_length chain_distinct) auto

lemma alloc_invI:
  assumes "chain (\<lambda>p. pp_link (pages s p)) (page_free_list s) xs"
    and "\<forall>p \<in> set xs. p < npages s \<and> pp_ref (pages s p) = 0"
    and "npages s \<le> 65536"
  shows "alloc_inv s" and "free_pages s = xs"
proof -
  show fp: "free_pages s = xs" using assms by (intro free_pages_eqI) auto
  show "alloc_inv s" using assms by (simp add: alloc_inv_def fp)
qed

lemma alloc_inv_distinct: "alloc_inv s \<Longrightarrow> distinct (free_pages s)"
  by (auto simp: alloc_inv_def intro: chain_distinct)

lemma page2kva_ok:
  assumes "p < npages s" and "npages s \<le> 65536"
  shows "page2kva p s = Inr (page2pa p + KERNBASE)"
  using assms by (simp add: page2kva_def KADDR_def unat_PGNUM_page2pa)

lemma pa2page_ok:
  assumes "p < npages s" and "npages s \<le> 65536"
  shows "pa2page (page2pa p) s = Inr p"
  using assms by (simp add: pa2page_def unat_PGNUM_page2pa)

lemma page_alloc_empty:
  assumes "alloc_inv s" and "free_pages s = []"
  shows "page_alloc fl s = Inr (None, s)"
proof -
  from assms have "page_free_list s = None" by (simp add: alloc_inv_def)
  then show ?thesis by (simp add: page_alloc_def)
qed

text \<open>What a successful allocation does: one page leaves the head of the list.\<close>

definition popped :: "u32 \<Rightarrow> nat \<Rightarrow> kstate \<Rightarrow> kstate" where
  "popped fl p s =
     (let s2 = set_pp_link p None (s\<lparr>page_free_list := pp_link (pages s p)\<rparr>)
      in if fl AND ALLOC_ZERO \<noteq> 0 then set_page p (\<lambda>_. 0) s2 else s2)"

lemma popped_simps [simp]:
  "npages (popped fl p s) = npages s"
  "pages (popped fl p s) = (pages s)(p := (pages s p)\<lparr>pp_link := None\<rparr>)"
  "page_free_list (popped fl p s) = pp_link (pages s p)"
  "pse_support (popped fl p s) = pse_support s"
  "kern_pgdir (popped fl p s) = kern_pgdir s"
  "pmem (popped fl p s) =
     (if fl AND ALLOC_ZERO \<noteq> 0 then (pmem s)(p := (\<lambda>_. 0)) else pmem s)"
  "envs (popped fl p s) = envs s"
  "env_free_list (popped fl p s) = env_free_list s"
  "curenv (popped fl p s) = curenv s"
  "tlb_flushed (popped fl p s) = tlb_flushed s"
  "cr3 (popped fl p s) = cr3 s"
  "cpunum (popped fl p s) = cpunum s"
  "cpu_status (popped fl p s) = cpu_status s"
  "kernel_locked (popped fl p s) = kernel_locked s"
  "ticks (popped fl p s) = ticks s"
  by (simp_all add: popped_def Let_def)

lemma page_alloc_Cons:
  assumes inv: "alloc_inv s" and fp: "free_pages s = p # ps"
  shows "page_alloc fl s = Inr (Some p, popped fl p s)"
    and "alloc_inv (popped fl p s)"
    and "free_pages (popped fl p s) = ps"
    and "releasable (popped fl p s) p"
proof -
  have ch: "chain (\<lambda>p. pp_link (pages s p)) (pp_link (pages s p)) ps"
    and hd: "page_free_list s = Some p"
    and pn: "p < npages s" and n: "npages s \<le> 65536" and ref: "pp_ref (pages s p) = 0"
    and ps: "\<forall>q \<in> set ps. q < npages s \<and> pp_ref (pages s q) = 0"
    using inv fp by (auto simp: alloc_inv_def)
  have d: "p \<notin> set ps" using alloc_inv_distinct [OF inv] fp by simp
  let ?t = "set_pp_link p None (s\<lparr>page_free_list := pp_link (pages s p)\<rparr>)"
  have "page2kva p ?t = Inr (page2pa p + KERNBASE)"
    using pn n by (intro page2kva_ok) auto
  then show "page_alloc fl s = Inr (Some p, popped fl p s)"
    by (simp add: page_alloc_def popped_def hd Let_def)
  have ch': "chain (\<lambda>q. pp_link (pages (popped fl p s) q)) (page_free_list (popped fl p s)) ps"
    using ch d by (auto simp: fun_upd_def intro: chain_cong [THEN iffD1, rotated])
  note rest = alloc_invI [OF ch']
  show "alloc_inv (popped fl p s)" using ps d n by (intro rest(1)) auto
  show fp': "free_pages (popped fl p s) = ps" using ps d n by (intro rest(2)) auto
  show "releasable (popped fl p s) p" using d pn ref by (simp add: releasable_def fp')
qed

lemma page_free_ok:
  assumes inv: "alloc_inv s" and rel: "releasable s p"
  defines "s' \<equiv> (set_pp_link p (page_free_list s) s)\<lparr>page_free_list := Some p\<rparr>"
  shows "page_free p s = Inr s'" and "alloc_inv s'" and "free_pages s' = p # free_pages s"
proof -
  show "page_free p s = Inr s'" using rel by (simp add: page_free_def releasable_def s'_def)
  have "chain (\<lambda>q. pp_link (pages s q)) (page_free_list s) (free_pages s)"
    using inv by (simp add: alloc_inv_def)
  then have "chain (\<lambda>q. pp_link (pages s' q)) (page_free_list s) (free_pages s)"
    using rel by (auto simp: s'_def releasable_def intro: chain_cong [THEN iffD1, rotated])
  then have ch: "chain (\<lambda>q. pp_link (pages s' q)) (page_free_list s') (p # free_pages s)"
    by (simp add: s'_def)
  have "\<forall>q \<in> set (p # free_pages s). q < npages s' \<and> pp_ref (pages s' q) = 0"
    using inv rel by (auto simp: s'_def alloc_inv_def releasable_def)
  moreover have "npages s' \<le> 65536" using inv by (simp add: s'_def alloc_inv_def)
  ultimately show "alloc_inv s'" and "free_pages s' = p # free_pages s"
    using alloc_invI [OF ch] by simp_all
qed

interpretation page_pool: resource_pool
  "page_alloc fl" page_free alloc_inv "\<lambda>s. set (free_pages s)" releasable
proof (unfold_locales, goal_cases)
  case (1 s)
  then show ?case by (simp add: page_alloc_empty)
next
  case (2 s)
  then obtain p ps where fp: "free_pages s = p # ps" by (cases "free_pages s") auto
  note a = page_alloc_Cons [OF 2(1) fp]
  have "distinct (p # ps)" using alloc_inv_distinct [OF 2(1)] fp by simp
  then have "set ps = set (free_pages s) - {p}" using fp by auto
  moreover have "\<forall>q. releasable s q \<longrightarrow> releasable (popped fl p s) q"
    using a(3) fp by (auto simp: releasable_def)
  ultimately show ?case using a fp by (intro exI [of _ p] exI [of _ "popped fl p s"]) auto
next
  case (3 s r)
  note f = page_free_ok [OF 3]
  show ?case
    by (intro exI [of _ "(set_pp_link r (page_free_list s) s)\<lparr>page_free_list := Some r\<rparr>"])
      (use f in \<open>auto simp: releasable_def\<close>)
next
  case (4 s r)
  then show ?case by (simp add: releasable_def)
qed simp
section \<open>Framing, reference counts, initialisation\<close>

lemma free_pages_frame [simp]:
  "free_pages (set_word f i v s) = free_pages s"
  "free_pages (set_page f c s) = free_pages s"
  "free_pages (upd_env e g s) = free_pages s"
  "free_pages (s\<lparr>tlb_flushed := xs\<rparr>) = free_pages s"
  "free_pages (s\<lparr>cr3 := x\<rparr>) = free_pages s"
  by (simp_all add: free_pages_def fun_upd_def if_distrib cong: if_cong)

lemma pp_link_set_pp_ref [simp]: "pp_link (pages (set_pp_ref p r s) q) = pp_link (pages s q)"
  by simp

lemma free_pages_set_pp_ref [simp]: "free_pages (set_pp_ref p r s) = free_pages s"
  unfolding free_pages_def pp_link_set_pp_ref by simp

lemma alloc_inv_frame [simp]:
  "alloc_inv (set_word f i v s) = alloc_inv s"
  "alloc_inv (set_page f c s) = alloc_inv s"
  "alloc_inv (upd_env e g s) = alloc_inv s"
  "alloc_inv (s\<lparr>tlb_flushed := xs\<rparr>) = alloc_inv s"
  "alloc_inv (s\<lparr>cr3 := x\<rparr>) = alloc_inv s"
  by (simp_all add: alloc_inv_def)

lemma alloc_inv_set_pp_ref:
  assumes "alloc_inv s" and "p \<notin> set (free_pages s)"
  shows "alloc_inv (set_pp_ref p r s)"
proof -
  have "(\<lambda>q. pp_link (pages (set_pp_ref p r s) q)) = (\<lambda>q. pp_link (pages s q))" by auto
  then show ?thesis using assms by (auto simp: alloc_inv_def)
qed

lemma page_decref_last:
  assumes inv: "alloc_inv s" and "p < npages s" and nf: "p \<notin> set (free_pages s)"
    and "pp_ref (pages s p) = 1" and "pp_link (pages s p) = None"
  shows "\<exists>s'. page_decref p s = Inr s' \<and> alloc_inv s' \<and> free_pages s' = p # free_pages s \<and>
     pages s' = (pages s)(p := \<lparr>pp_link = page_free_list s, pp_ref = 0\<rparr>) \<and>
     npages s' = npages s \<and> pmem s' = pmem s \<and> envs s' = envs s \<and> curenv s' = curenv s \<and>
     env_free_list s' = env_free_list s \<and> kern_pgdir s' = kern_pgdir s \<and>
     pse_support s' = pse_support s \<and> tlb_flushed s' = tlb_flushed s \<and>
     cr3 s' = cr3 s \<and> cpunum s' = cpunum s \<and> cpu_status s' = cpu_status s \<and>
     kernel_locked s' = kernel_locked s \<and> ticks s' = ticks s"
proof -
  let ?t = "set_pp_ref p 0 s"
  have i: "alloc_inv ?t" using inv nf by (rule alloc_inv_set_pp_ref)
  have r: "releasable ?t p" using assms by (simp add: releasable_def)
  have "page_decref p s = page_free p ?t" using assms by (simp add: page_decref_def)
  with page_free_ok [OF i r] show ?thesis by (auto simp: assms fun_eq_iff)
qed

lemma page_decref_more:
  assumes "pp_ref (pages s p) \<noteq> 1"
  shows "page_decref p s = Inr (set_pp_ref p (pp_ref (pages s p) - 1) s)"
  using assms by (simp add: page_decref_def)

lemma fold_push_free_page:
  assumes "distinct xs" and "set xs \<inter> set fl = {}"
    and "chain (\<lambda>p. pp_link (pages s p)) (page_free_list s) fl"
  shows "chain (\<lambda>p. pp_link (pages (fold push_free_page xs s) p))
           (page_free_list (fold push_free_page xs s)) (rev xs @ fl) \<and>
         (\<forall>p \<in> set xs. pp_ref (pages (fold push_free_page xs s) p) = 0) \<and>
         (\<forall>p. p \<notin> set xs \<longrightarrow> pages (fold push_free_page xs s) p = pages s p) \<and>
         npages (fold push_free_page xs s) = npages s"
  using assms
proof (induction xs arbitrary: s fl)
  case (Cons x xs)
  let ?t = "push_free_page x s"
  have x: "x \<notin> set fl" "x \<notin> set xs" and d: "distinct xs" "set xs \<inter> set (x # fl) = {}"
    using Cons.prems(1,2) by auto
  have c: "chain (\<lambda>p. pp_link (pages ?t p)) (page_free_list ?t) (x # fl)"
    using Cons.prems(3) x
    by (auto simp: push_free_page_def Let_def intro: chain_cong [THEN iffD1, rotated])
  have t: "pages ?t = (pages s)(x := \<lparr>pp_link = page_free_list s, pp_ref = 0\<rparr>)" "npages ?t = npages s"
    by (auto simp: push_free_page_def Let_def fun_eq_iff)
  show ?case using Cons.IH [OF d c] x by (auto simp: t)
qed simp

lemma fold_mark_used:
  "page_free_list (fold (\<lambda>i t. set_pp_ref i 1 t) ys t) = page_free_list t \<and>
   npages (fold (\<lambda>i t. set_pp_ref i 1 t) ys t) = npages t \<and>
   (\<forall>p. pp_link (pages (fold (\<lambda>i t. set_pp_ref i 1 t) ys t) p) = pp_link (pages t p)) \<and>
   (\<forall>p. pp_ref (pages (fold (\<lambda>i t. set_pp_ref i 1 t) ys t) p) =
      (if p \<in> set ys then 1 else pp_ref (pages t p)))"
  by (induction ys arbitrary: t) (auto simp del: set_pp_ref_simps(2) simp: set_pp_ref_def)

lemma fold_push_skip:
  "fold (\<lambda>i t. if i = m then t else push_free_page i t) ys t
     = fold push_free_page (filter (\<lambda>i. i \<noteq> m) ys) t"
  by (induction ys arbitrary: t) auto

lemma page_init_spec:
  assumes "page_free_list s = None" and "npages s \<le> 65536"
    and "npages_basemem s \<le> 160" and "KERNBASE \<le> nextfree s"
    and "nextfree s < KERNBASE + 0x400000"
    and "160 \<le> (unat (nextfree s) - unat KERNBASE) div 4096"
    and "(unat (nextfree s) - unat KERNBASE) div 4096 \<le> npages s"
  defines "n \<equiv> (unat (nextfree s) - unat KERNBASE) div 4096"
  shows "\<exists>s'. page_init kend s = Inr s' \<and> alloc_inv s' \<and>
           free_pages s' = rev [n..<npages s] @ rev (filter (\<lambda>i. i \<noteq> 7) [1..<npages_basemem s]) \<and>
           (\<forall>p. p = 0 \<or> p = 7 \<or> 160 \<le> p \<and> p < n \<longrightarrow> pp_ref (pages s' p) = 1)"
proof -
  have n: "160 \<le> n" "n \<le> npages s" using assms(6,7) by (simp_all add: n_def)
  have nz: "nextfree s \<noteq> 0" using assms(4) by (auto simp: jos_const)
  have ba: "boot_alloc kend 0 s = Inr (nextfree s, s)"
    using nz assms(5) by (simp add: boot_alloc_def)
  have pa: "PADDR (nextfree s) = Inr (nextfree s - KERNBASE)"
    using assms(4) by (simp add: PADDR_def not_less)
  have idx: "unat ((nextfree s - KERNBASE) div PGSIZE) = n"
    using assms(4) by (simp add: n_def unat_div unat_sub PGSIZE_def)
  have k: "unat (IOPHYSMEM div PGSIZE) = 160" "unat (MPENTRY_PADDR div PGSIZE) = 7"
    by (simp_all add: jos_const)
  define s1 where "s1 = set_pp_ref 7 1 (set_pp_ref 0 1 s)"
  define xs where "xs = filter (\<lambda>i. i \<noteq> 7) [1..<npages_basemem s]"
  define s2 where "s2 = fold push_free_page xs s1"
  define s3 where "s3 = fold (\<lambda>i t. set_pp_ref i 1 t) [160..<n] s2"
  define s4 where "s4 = fold push_free_page [n..<npages s3] s3"
  have run: "page_init kend s = Inr s4"
    by (simp add: page_init_def ba pa idx k fold_push_skip s4_def s3_def s2_def s1_def xs_def Let_def
        del: set_pp_ref_simps) (simp add: set_pp_ref_def)
  have l1: "page_free_list s1 = None" "npages s1 = npages s" using assms(1) by (simp_all add: s1_def)
  have r1: "pp_ref (pages s1 0) = 1" "pp_ref (pages s1 7) = 1" by (simp_all add: s1_def)
  have xs: "distinct xs" "\<forall>p \<in> set xs. 1 \<le> p \<and> p < 160 \<and> p \<noteq> 7"
    using assms(3) by (auto simp: xs_def)
  have P2: "chain (\<lambda>p. pp_link (pages s2 p)) (page_free_list s2) (rev xs @ [])"
      "\<forall>p \<in> set xs. pp_ref (pages s2 p) = 0" "\<forall>p. p \<notin> set xs \<longrightarrow> pages s2 p = pages s1 p"
      "npages s2 = npages s1"
    using fold_push_free_page [of xs "[]" s1] xs(1) l1(1) by (auto simp: s2_def)
  note P3 = fold_mark_used [of "[160..<n]" s2, folded s3_def]
  have c3: "chain (\<lambda>p. pp_link (pages s3 p)) (page_free_list s3) (rev xs)" using P2(1) P3 by simp
  have n3: "npages s3 = npages s" using P3 P2(4) l1 by simp
  have "set [n..<npages s3] \<inter> set (rev xs) = {}" using xs(2) n(1) by auto
  note P4 = fold_push_free_page [OF distinct_upt this c3, folded s4_def]
  have z: "\<forall>p \<in> set (rev [n..<npages s3] @ rev xs). p < npages s4 \<and> pp_ref (pages s4 p) = 0"
    using P4 P3 P2(2) xs(2) n n3 by auto
  have "chain (\<lambda>p. pp_link (pages s4 p)) (page_free_list s4) (rev [n..<npages s3] @ rev xs)"
    using P4 by simp
  note res = alloc_invI [OF this z]
  have used: "pp_ref (pages s4 p) = 1" if "p = 0 \<or> p = 7 \<or> 160 \<le> p \<and> p < n" for p
  proof -
    have "p \<notin> set xs" "p \<notin> set [n..<npages s3]" using that xs(2) n(1) by auto
    then have "pages s4 p = pages s3 p" "pages s2 p = pages s1 p" using P4 P2(3) by auto
    then show ?thesis using P3 that r1 by auto
  qed
  have "npages s4 \<le> 65536" using P4 n3 assms(2) by simp
  then have "alloc_inv s4 \<and> free_pages s4 = rev [n..<npages s] @ rev xs" using res n3 by simp
  then show ?thesis using run used by (intro exI [of _ s4]) (simp add: xs_def)
qed

lemma chain_visits_last:
  assumes "chain link h (xs @ [p])" and "\<forall>x \<in> set xs. link' x = link x" and "chain link' h zs"
  shows "p \<in> set zs"
  using assms by (induction xs arbitrary: h zs) auto

text \<open>
  \<^verbatim>\<open>page_free\<close> recognises a page that is already free by its non-null link, and the last
  page of the list has a null link: freeing it again is not caught and closes the list into
  a cycle.
\<close>

lemma page_free_last_again:
  assumes inv: "alloc_inv s" and fp: "free_pages s = xs @ [p]"
  shows "\<exists>s'. page_free p s = Inr s' \<and>
           (\<nexists>ys. chain (\<lambda>q. pp_link (pages s' q)) (page_free_list s') ys)"
proof -
  let ?s' = "(set_pp_link p (page_free_list s) s)\<lparr>page_free_list := Some p\<rparr>"
  have ch: "chain (\<lambda>q. pp_link (pages s q)) (page_free_list s) (xs @ [p])"
    and r: "pp_ref (pages s p) = 0"
    using inv fp by (auto simp: alloc_inv_def)
  from ch have l: "pp_link (pages s p) = None" by (auto dest: chain_suffix)
  have d: "p \<notin> set xs" using alloc_inv_distinct [OF inv] fp by simp
  have "\<not> chain (\<lambda>q. pp_link (pages ?s' q)) (page_free_list ?s') ys" for ys
  proof
    assume a: "chain (\<lambda>q. pp_link (pages ?s' q)) (page_free_list ?s') ys"
    then obtain zs where ys: "ys = p # zs"
      and z: "chain (\<lambda>q. pp_link (pages ?s' q)) (page_free_list s) zs" by auto
    have "p \<in> set zs" by (rule chain_visits_last [OF ch _ z]) (use d in auto)
    with chain_distinct [OF a] ys show False by simp
  qed
  then show ?thesis using l r by (auto simp: page_free_def)
qed

lemma PADDR_page2kva:
  assumes "p < npages s" and "npages s \<le> 65536"
  shows "bindE (page2kva p s) PADDR = Inr (page2pa p)"
proof -
  have "unat (page2pa p) = p * 4096"
    using assms by (simp add: page2pa_def push_bit_eq_mult unat_word_ariths unat_of_nat)
  then have "unat (page2pa p + KERNBASE) = p * 4096 + 4026531840"
    using assms by (simp add: unat_word_ariths jos_const)
  then have "\<not> page2pa p + KERNBASE < KERNBASE" by (simp add: word_less_nat_alt jos_const)
  then show ?thesis using assms by (simp add: page2kva_ok PADDR_def)
qed

end
