(* ===== verification/PageTable.thy ===== *)
theory PageTable
  imports PageAlloc
begin

text \<open>
  Two-level page tables of \<^verbatim>\<open>kern/pmap.c\<close>: \<^verbatim>\<open>pgdir_walk\<close>,
  \<^verbatim>\<open>boot_map_region\<close>, \<^verbatim>\<open>page_insert\<close>, \<^verbatim>\<open>page_lookup\<close>, \<^verbatim>\<open>page_remove\<close>,
  \<^verbatim>\<open>mmio_map_region\<close> and \<^verbatim>\<open>user_mem_check\<close>. The invariant \<open>vm_inv\<close> ties the page
  tables of a set of address spaces to the free list and to the reference counters: frames
  used as page directories, as page tables and as mapped pages are disjoint from each other
  and from the free list, and the counter of a mapped page is the number of page table
  entries that map it.
\<close>

section \<open>Operations\<close>

definition kaddr_frame :: "u32 \<Rightarrow> kstate \<Rightarrow> nat exec" where
  "kaddr_frame pa s = bindE (KADDR pa s) (\<lambda>_. Inr (unat (PGNUM pa)))"

definition pgdir_walk :: "nat \<Rightarrow> u32 \<Rightarrow> bool \<Rightarrow> kstate \<Rightarrow> ((nat \<times> nat) option \<times> kstate) exec" where
  "pgdir_walk pgdir va create s =
     (let pdx = unat (PDX va); ptx = unat (PTX va) in
      if pse_support s = 1 \<and> pmem s pgdir pdx AND PTE_PS \<noteq> 0 then Inr (Some (pgdir, pdx), s)
      else if pmem s pgdir pdx AND PTE_P = 0 then
        (if \<not> create then Inr (None, s)
         else bindE (page_alloc ALLOC_ZERO s) (\<lambda>(new_page, s1).
           case new_page of
             None \<Rightarrow> Inr (None, s1)
           | Some p \<Rightarrow>
               let s2 = set_pp_ref p 1 s1;
                   s3 = set_word pgdir pdx (page2pa p OR PTE_P OR PTE_U OR PTE_W) s2
               in bindE (kaddr_frame (PTE_ADDR (pmem s3 pgdir pdx)) s3) (\<lambda>page_table.
                    Inr (Some (page_table, ptx), s3))))
      else bindE (kaddr_frame (PTE_ADDR (pmem s pgdir pdx)) s) (\<lambda>page_table.
             Inr (Some (page_table, ptx), s)))"

text \<open>\<open>boot_map_region\<close> dereferences the result of \<open>pgdir_walk\<close> without a null check.\<close>

primrec boot_map_loop :: "nat \<Rightarrow> nat \<Rightarrow> u32 \<Rightarrow> u32 \<Rightarrow> u32 \<Rightarrow> kstate \<Rightarrow> kstate exec" where
  "boot_map_loop 0 pgdir va pa perm s = Inr s"
| "boot_map_loop (Suc n) pgdir va pa perm s =
     bindE (pgdir_walk pgdir va True s) (\<lambda>(pte, s1).
       case pte of
         None \<Rightarrow> Inl (Panic ''null pte'')
       | Some (f, k) \<Rightarrow>
           boot_map_loop n pgdir (va + PGSIZE) (pa + PGSIZE) perm
             (set_word f k (pa OR perm OR PTE_P) s1))"

definition boot_map_region :: "nat \<Rightarrow> u32 \<Rightarrow> u32 \<Rightarrow> u32 \<Rightarrow> u32 \<Rightarrow> kstate \<Rightarrow> kstate exec" where
  "boot_map_region pgdir va sz pa perm s =
     boot_map_loop (unat (sz div PGSIZE)) pgdir va pa perm s"

definition page_lookup :: "nat \<Rightarrow> u32 \<Rightarrow> kstate \<Rightarrow> ((nat \<times> nat \<times> nat) option) exec" where
  "page_lookup pgdir va s =
     bindE (pgdir_walk pgdir va False s) (\<lambda>(pte, _).
       case pte of
         None \<Rightarrow> Inr None
       | Some (f, k) \<Rightarrow>
           if pmem s f k AND PTE_P \<noteq> 0 then
             bindE (pa2page (PTE_ADDR (pmem s f k)) s) (\<lambda>pp.
               if pse_support s = 1 \<and> pmem s f k AND PTE_PS \<noteq> 0
               then Inr (Some (pp + unat (HUGH_PGOFF va div PGSIZE), f, k))
               else Inr (Some (pp, f, k)))
           else Inr None)"

definition tlb_invalidate :: "nat \<Rightarrow> u32 \<Rightarrow> kstate \<Rightarrow> kstate" where
  "tlb_invalidate pgdir va s =
     (if (case curenv s of None \<Rightarrow> True | Some e \<Rightarrow> env_pgdir (envs s e) = Some pgdir)
      then s\<lparr>tlb_flushed := va # tlb_flushed s\<rparr> else s)"

definition page_remove :: "nat \<Rightarrow> u32 \<Rightarrow> kstate \<Rightarrow> kstate exec" where
  "page_remove pgdir va s =
     bindE (page_lookup pgdir va s) (\<lambda>r.
       case r of
         None \<Rightarrow> Inr s
       | Some (page_info, f, k) \<Rightarrow>
           bindE (page_decref page_info s) (\<lambda>s1.
             Inr (tlb_invalidate pgdir va (set_word f k 0 s1))))"

definition page_insert :: "nat \<Rightarrow> nat \<Rightarrow> u32 \<Rightarrow> u32 \<Rightarrow> kstate \<Rightarrow> (int \<times> kstate) exec" where
  "page_insert pgdir pp va perm s =
     bindE (pgdir_walk pgdir va True s) (\<lambda>(pte, s1).
       case pte of
         None \<Rightarrow> Inr (- E_NO_MEM, s1)
       | Some (f, k) \<Rightarrow>
           let pa = page2pa pp in
           if pmem s1 f k AND PTE_P \<noteq> 0 \<and> PTE_ADDR (pmem s1 f k) = pa
           then Inr (0, set_word f k (pa OR perm OR PTE_P) s1)
           else
             bindE (if pmem s1 f k AND PTE_P \<noteq> 0 then page_remove pgdir va s1 else Inr s1) (\<lambda>s2.
               let s3 = set_pp_ref pp (pp_ref (pages s2 pp) + 1) s2;
                   s4 = tlb_invalidate pgdir va s3
               in Inr (0, set_word f k (pa OR perm OR PTE_P) s4)))"

definition mmio_map_region :: "u32 \<Rightarrow> u32 \<Rightarrow> kstate \<Rightarrow> (u32 \<times> kstate) exec" where
  "mmio_map_region pa sz s =
     (let base = mmio_base s; size_rounded = ROUNDUP sz PGSIZE in
      if base + size_rounded \<ge> MMIOLIM \<or> base + size_rounded < base
      then Inl (Panic ''mmio_map_region overflow'')
      else bindE (boot_map_region (kern_pgdir s) base size_rounded pa
                    (PTE_PCD OR PTE_PWT OR PTE_W) s)
             (\<lambda>s1. Inr (base, s1\<lparr>mmio_base := base + size_rounded\<rparr>)))"

text \<open>
  The loop of \<^verbatim>\<open>user_mem_check\<close> runs from \<open>start\<close> to \<open>end\<close> in steps of a page; both are
  multiples of the page size, so it runs \<open>(end - start) / PGSIZE\<close> times when \<open>start < end\<close>
  and not at all otherwise.
\<close>

primrec user_mem_check_loop :: "nat \<Rightarrow> nat \<Rightarrow> u32 \<Rightarrow> u32 \<Rightarrow> u32 \<Rightarrow> kstate \<Rightarrow> (int \<times> kstate) exec" where
  "user_mem_check_loop 0 pgdir va start permissions s = Inr (0, s)"
| "user_mem_check_loop (Suc n) pgdir va start permissions s =
     bindE (pgdir_walk pgdir start False s) (\<lambda>(pte, _).
       if start \<ge> ULIM \<or>
          (case pte of None \<Rightarrow> True | Some (f, k) \<Rightarrow> pmem s f k AND permissions \<noteq> permissions)
       then Inr (- E_FAULT, s\<lparr>user_mem_check_addr := (if start < va then va else start)\<rparr>)
       else user_mem_check_loop n pgdir va (start + PGSIZE) permissions s)"

definition user_mem_check :: "nat \<Rightarrow> u32 \<Rightarrow> u32 \<Rightarrow> u32 \<Rightarrow> kstate \<Rightarrow> (int \<times> kstate) exec" where
  "user_mem_check pgdir va len perm s =
     (let start = ROUNDDOWN va PGSIZE;
          last = ROUNDUP (va + len) PGSIZE;
          permissions = perm OR PTE_P
      in user_mem_check_loop ((unat last - unat start) div unat PGSIZE) pgdir va start permissions s)"

section \<open>Address spaces\<close>

text \<open>
  The hardware's view of the user part of an address space: slot \<open>i\<close> of the directory
  (955 of them lie below \<open>UTOP\<close>) and slot \<open>j\<close> of the table it points to.
\<close>

definition pt_frame :: "kstate \<Rightarrow> nat \<Rightarrow> nat \<Rightarrow> nat" where
  "pt_frame s d i = unat (PGNUM (pmem s d i))"

definition pde_present :: "kstate \<Rightarrow> nat \<Rightarrow> nat \<Rightarrow> bool" where
  "pde_present s d i \<longleftrightarrow> pmem s d i AND PTE_P \<noteq> 0"

definition pte_at :: "kstate \<Rightarrow> nat \<Rightarrow> nat \<Rightarrow> nat \<Rightarrow> u32 option" where
  "pte_at s d i j =
     (if pde_present s d i \<and> pmem s (pt_frame s d i) j AND PTE_P \<noteq> 0
      then Some (pmem s (pt_frame s d i) j) else None)"

definition tables :: "nat set \<Rightarrow> kstate \<Rightarrow> nat set" where
  "tables D s = {pt_frame s d i |d i. d \<in> D \<and> i < 955 \<and> pde_present s d i}"

definition mappers :: "nat set \<Rightarrow> kstate \<Rightarrow> nat \<Rightarrow> (nat \<times> nat \<times> nat) set" where
  "mappers D s p =
     {(d, i, j). d \<in> D \<and> i < 955 \<and> j < 1024 \<and>
        (\<exists>e. pte_at s d i j = Some e \<and> unat (PGNUM e) = p)}"

definition tables_ok :: "nat set \<Rightarrow> kstate \<Rightarrow> bool" where
  "tables_ok D s \<longleftrightarrow>
     tables D s \<inter> D = {} \<and>
     (\<forall>d i d' i'. d \<in> D \<and> i < 955 \<and> pde_present s d i \<and>
        d' \<in> D \<and> i' < 955 \<and> pde_present s d' i' \<and> pt_frame s d i = pt_frame s d' i'
        \<longrightarrow> d = d' \<and> i = i')"

definition mappable :: "nat set \<Rightarrow> kstate \<Rightarrow> nat \<Rightarrow> bool" where
  "mappable D s p \<longleftrightarrow>
     p < npages s \<and> p \<notin> set (free_pages s) \<and> p \<notin> D \<and> p \<notin> tables D s \<and>
     unat (pp_ref (pages s p)) = card (mappers D s p)"

definition vm_inv :: "nat set \<Rightarrow> kstate \<Rightarrow> bool" where
  "vm_inv D s \<longleftrightarrow>
     alloc_inv s \<and> pse_support s \<noteq> 1 \<and> finite D \<and> tables_ok D s \<and>
     (\<forall>f \<in> D \<union> tables D s. f < npages s \<and> f \<notin> set (free_pages s) \<and> pp_ref (pages s f) = 1) \<and>
     (\<forall>p. mappers D s p \<noteq> {} \<longrightarrow> mappable D s p) \<and>
     (\<forall>p. p \<notin> set (free_pages s) \<longrightarrow> pp_link (pages s p) = None)"

text \<open>The parts of the kernel state that the page table operations never touch.\<close>

definition kern_same :: "kstate \<Rightarrow> kstate \<Rightarrow> bool" where
  "kern_same s s' \<longleftrightarrow>
     npages s' = npages s \<and> pse_support s' = pse_support s \<and> kern_pgdir s' = kern_pgdir s \<and>
     envs s' = envs s \<and> env_free_list s' = env_free_list s \<and> curenv s' = curenv s \<and>
     cr3 s' = cr3 s \<and> cpunum s' = cpunum s \<and> cpu_status s' = cpu_status s \<and>
     kernel_locked s' = kernel_locked s \<and> ticks s' = ticks s"

text \<open>Frames that hold neither a table nor a directory and are not free, and what is left of them.\<close>

definition reserved :: "nat set \<Rightarrow> kstate \<Rightarrow> nat \<Rightarrow> bool" where
  "reserved D s p \<longleftrightarrow> p \<notin> set (free_pages s) \<and> p \<notin> D \<and> p \<notin> tables D s"

definition keeps :: "nat set \<Rightarrow> kstate \<Rightarrow> kstate \<Rightarrow> bool" where
  "keeps D s s' \<longleftrightarrow>
     (\<forall>p. reserved D s p \<longrightarrow> pmem s' p = pmem s p \<and>
        (mappers D s p = {} \<and> mappers D s' p = {} \<longrightarrow> reserved D s' p \<and> pages s' p = pages s p))"

definition same_view :: "nat set \<Rightarrow> kstate \<Rightarrow> kstate \<Rightarrow> bool" where
  "same_view D s s' \<longleftrightarrow> (\<forall>d \<in> D. \<forall>i < 955. \<forall>j. pte_at s' d i j = pte_at s d i j)"

definition upd_view ::
  "nat set \<Rightarrow> kstate \<Rightarrow> kstate \<Rightarrow> nat \<Rightarrow> nat \<Rightarrow> nat \<Rightarrow> u32 option \<Rightarrow> bool" where
  "upd_view D s s' d i j r \<longleftrightarrow>
     (\<forall>d' \<in> D. \<forall>i' < 955. \<forall>j'. pte_at s' d' i' j' =
        (if d' = d \<and> i' = i \<and> j' = j then r else pte_at s d' i' j'))"

section \<open>Walking\<close>

lemma PGNUM_PTE_ADDR [simp]: "PGNUM (PTE_ADDR e) = PGNUM e"
  unfolding PGNUM_def PTE_ADDR_def
  by (intro bit_word_eqI) (auto simp: mask_numerals bit_simps dest: bit_imp_le_length)

lemma kaddr_frame_ok:
  "unat (PGNUM pa) < npages s \<Longrightarrow> kaddr_frame pa s = Inr (unat (PGNUM pa))"
  by (simp add: kaddr_frame_def KADDR_def)

lemma vm_invD:
  assumes "vm_inv D s"
  shows "alloc_inv s" "pse_support s \<noteq> 1" "finite D" "tables_ok D s"
    "\<And>d. d \<in> D \<Longrightarrow> d < npages s" "\<And>d. d \<in> D \<Longrightarrow> d \<notin> set (free_pages s)"
    "\<And>f. f \<in> tables D s \<Longrightarrow> f < npages s" "\<And>f. f \<in> tables D s \<Longrightarrow> f \<notin> set (free_pages s)"
    "\<And>p. mappers D s p \<noteq> {} \<Longrightarrow> mappable D s p"
    "\<And>p. p \<notin> set (free_pages s) \<Longrightarrow> pp_link (pages s p) = None"
    "npages s \<le> 1048576" "\<And>f. f \<in> D \<union> tables D s \<Longrightarrow> pp_ref (pages s f) = 1"
    "npages s \<le> 65536"
  using assms by (auto simp: vm_inv_def alloc_inv_def)

lemma tablesI: "d \<in> D \<Longrightarrow> i < 955 \<Longrightarrow> pde_present s d i \<Longrightarrow> pt_frame s d i \<in> tables D s"
  by (auto simp: tables_def)

lemma pgdir_walk_present:
  assumes "vm_inv D s" and "d \<in> D" and "va < UTOP" and "pde_present s d (unat (PDX va))"
  shows "pgdir_walk d va create s = Inr (Some (pt_frame s d (unat (PDX va)), unat (PTX va)), s)"
proof -
  have "unat (PDX va) < 955" using assms(3) by (simp add: user_va_iff)
  then have "pt_frame s d (unat (PDX va)) \<in> tables D s" using assms by (intro tablesI)
  then have "pt_frame s d (unat (PDX va)) < npages s" using assms(1) by (simp add: vm_invD)
  then show ?thesis using vm_invD(2) [OF assms(1)] assms(4)
    by (simp add: pgdir_walk_def pde_present_def pt_frame_def kaddr_frame_ok Let_def)
qed

lemma pgdir_walk_absent:
  assumes "vm_inv D s" and "\<not> pde_present s d (unat (PDX va))"
  shows "pgdir_walk d va False s = Inr (None, s)"
  using vm_invD(2) [OF assms(1)] assms(2)
  by (simp add: pgdir_walk_def pde_present_def Let_def)

section \<open>Entries and slots\<close>

lemma pde_flags:
  assumes "p < 1048576"
  shows "(page2pa p OR PTE_P OR PTE_U OR PTE_W) AND PTE_P \<noteq> 0"
    and "unat (PGNUM (page2pa p OR PTE_P OR PTE_U OR PTE_W)) = p"
proof -
  show "(page2pa p OR PTE_P OR PTE_U OR PTE_W) AND PTE_P \<noteq> 0"
    by (simp add: and_flag_iff bit_or_iff) (simp add: jos_const)
  have "PTE_ADDR (page2pa p OR (PTE_P OR PTE_U OR PTE_W)) = page2pa p"
    by (rule PTE_ADDR_pte) (simp add: jos_const)
  then have "PGNUM (page2pa p OR PTE_P OR PTE_U OR PTE_W) = PGNUM (page2pa p)"
    by (metis PGNUM_PTE_ADDR or.assoc)
  then show "unat (PGNUM (page2pa p OR PTE_P OR PTE_U OR PTE_W)) = p"
    using assms by (simp add: unat_PGNUM_page2pa)
qed

lemma leaf_flags:
  assumes "p < 1048576" and "perm AND NOT 0xFFF = 0"
  shows "(page2pa p OR perm OR PTE_P) AND PTE_P \<noteq> 0"
    and "unat (PGNUM (page2pa p OR perm OR PTE_P)) = p"
    and "(page2pa p OR perm OR PTE_P) AND 0xFFF = perm OR PTE_P"
proof -
  show "(page2pa p OR perm OR PTE_P) AND PTE_P \<noteq> 0"
    by (simp add: and_flag_iff bit_or_iff) (simp add: jos_const)
  have lo: "(perm OR PTE_P) AND NOT 0xFFF = 0"
    using assms(2) unfolding low_bits_iff by (simp add: bit_or_iff PTE_P_def bit_1_iff)
  then have "PTE_ADDR (page2pa p OR (perm OR PTE_P)) = page2pa p" by (rule PTE_ADDR_pte)
  then have "PGNUM (page2pa p OR perm OR PTE_P) = PGNUM (page2pa p)"
    by (metis PGNUM_PTE_ADDR or.assoc)
  then show "unat (PGNUM (page2pa p OR perm OR PTE_P)) = p"
    using assms by (simp add: unat_PGNUM_page2pa)
  show "(page2pa p OR perm OR PTE_P) AND 0xFFF = perm OR PTE_P"
    using pte_flags [OF lo, of p] by (simp add: or.assoc)
qed

lemma finite_mappers:
  assumes "finite D"
  shows "finite (mappers D s p)"
proof (rule finite_subset)
  show "mappers D s p \<subseteq> D \<times> {..<955} \<times> {..<1024}" by (auto simp: mappers_def)
  show "finite (D \<times> {..<955} \<times> {..<1024} :: (nat \<times> nat \<times> nat) set)" using assms by simp
qed

text \<open>States that agree on the physical memory agree on every address space.\<close>

lemma view_cong:
  assumes "pmem s' = pmem s"
  shows "pt_frame s' = pt_frame s" "pde_present s' = pde_present s" "pte_at s' = pte_at s"
    "tables D s' = tables D s" "mappers D s' = mappers D s" "tables_ok D s' = tables_ok D s"
  using assms
  by (simp_all add: fun_eq_iff pt_frame_def pde_present_def pte_at_def tables_def mappers_def
      tables_ok_def)

text \<open>Writing one entry of one page table changes one slot of one address space.\<close>

lemma set_word_slot:
  fixes j :: nat and v :: u32
  assumes ok: "tables_ok D s" and d: "d \<in> D" "i < 955" "pde_present s d i"
  defines "s' \<equiv> set_word (pt_frame s d i) j v s"
  shows "\<And>d' i'. d' \<in> D \<Longrightarrow> pmem s' d' i' = pmem s d' i'"
    and "\<And>d' i'. d' \<in> D \<Longrightarrow> pt_frame s' d' i' = pt_frame s d' i'"
    and "\<And>d' i'. d' \<in> D \<Longrightarrow> pde_present s' d' i' = pde_present s d' i'"
    and "tables D s' = tables D s" and "tables_ok D s'"
    and "\<And>d' i' j'. d' \<in> D \<Longrightarrow> i' < 955 \<Longrightarrow> pte_at s' d' i' j' =
           (if d' = d \<and> i' = i \<and> j' = j then (if v AND PTE_P \<noteq> 0 then Some v else None)
            else pte_at s d' i' j')"
proof -
  have nd: "pt_frame s d i \<notin> D" using ok d tablesI [of d D i s] by (auto simp: tables_ok_def)
  show 1: "\<And>d' i'. d' \<in> D \<Longrightarrow> pmem s' d' i' = pmem s d' i'" using nd by (auto simp: s'_def)
  then show 2: "\<And>d' i'. d' \<in> D \<Longrightarrow> pt_frame s' d' i' = pt_frame s d' i'"
    and 3: "\<And>d' i'. d' \<in> D \<Longrightarrow> pde_present s' d' i' = pde_present s d' i'"
    by (simp_all add: pt_frame_def pde_present_def)
  show 4: "tables D s' = tables D s" unfolding tables_def using 2 3 by (auto, (metis)+)
  show "tables_ok D s'" using ok unfolding tables_ok_def 4 using 2 3 by (metis (no_types))
  show "pte_at s' d' i' j' =
           (if d' = d \<and> i' = i \<and> j' = j then (if v AND PTE_P \<noteq> 0 then Some v else None)
            else pte_at s d' i' j')" if a: "d' \<in> D" "i' < 955" for d' i' j'
  proof (cases "pde_present s d' i'")
    case False
    then show ?thesis using a 2 3 d(3) by (auto simp: pte_at_def)
  next
    case True
    have "pt_frame s d' i' = pt_frame s d i \<longleftrightarrow> d' = d \<and> i' = i"
      using ok d a True unfolding tables_ok_def by blast
    then show ?thesis using a 2 3 d(3) True by (auto simp: pte_at_def s'_def)
  qed
qed

section \<open>Adding a page table\<close>

lemma kern_same_refl [simp]: "kern_same s s"
  by (simp add: kern_same_def)

lemma kern_same_trans: "kern_same s t \<Longrightarrow> kern_same t u \<Longrightarrow> kern_same s u"
  by (simp add: kern_same_def)

lemma tables_okD:
  assumes "tables_ok D s"
  shows "tables D s \<inter> D = {}"
    and "d \<in> D \<Longrightarrow> i < 955 \<Longrightarrow> pde_present s d i \<Longrightarrow> d' \<in> D \<Longrightarrow> i' < 955 \<Longrightarrow>
         pde_present s d' i' \<Longrightarrow> pt_frame s d i = pt_frame s d' i' \<Longrightarrow> d = d' \<and> i = i'"
  using assms unfolding tables_ok_def by (blast, blast)

lemma mappers_cong: "same_view D s s' \<Longrightarrow> mappers D s' = mappers D s"
  by (auto simp: same_view_def mappers_def fun_eq_iff)

lemma keeps_refl [simp]: "keeps D s s"
  by (simp add: keeps_def)

lemma keeps_trans:
  assumes "keeps D s s1" and "keeps D s1 s2"
    and "\<And>p. reserved D s p \<Longrightarrow> reserved D s1 p \<or> pmem s2 p = pmem s1 p"
    and "\<And>p. mappers D s p = {} \<Longrightarrow> mappers D s2 p = {} \<Longrightarrow> mappers D s1 p = {}"
  shows "keeps D s s2"
  unfolding keeps_def
proof (intro allI impI)
  fix p assume r: "reserved D s p"
  have 1: "pmem s1 p = pmem s p" using assms(1) r by (simp add: keeps_def)
  have 2: "pmem s2 p = pmem s1 p" using assms(2) assms(3) [OF r] by (auto simp: keeps_def)
  have "reserved D s2 p \<and> pages s2 p = pages s p" if m: "mappers D s p = {}" "mappers D s2 p = {}"
  proof -
    have "mappers D s1 p = {}" using assms(4) m by simp
    then show ?thesis using assms(1,2) m r by (simp add: keeps_def)
  qed
  with 1 2 show "pmem s2 p = pmem s p \<and> (mappers D s p = {} \<and> mappers D s2 p = {} \<longrightarrow>
      reserved D s2 p \<and> pages s2 p = pages s p)" by simp
qed

text \<open>The state after \<^verbatim>\<open>pgdir_walk\<close> has added a page table to directory slot \<open>i\<close>.\<close>

definition with_table :: "nat \<Rightarrow> nat \<Rightarrow> nat \<Rightarrow> kstate \<Rightarrow> kstate" where
  "with_table d i p s =
     set_word d i (page2pa p OR PTE_P OR PTE_U OR PTE_W)
       (set_pp_ref p 1 (popped ALLOC_ZERO p s))"

lemma with_table_view:
  assumes inv: "vm_inv D s" and d: "d \<in> D" "i < 955" "\<not> pde_present s d i"
    and fp: "free_pages s = p # ps"
  defines "t \<equiv> with_table d i p s"
  shows "pde_present t d i" and "pt_frame t d i = p" and "same_view D s t"
    and "tables D t = insert p (tables D s)" and "tables_ok D t"
proof -
  have pf: "p \<in> set (free_pages s)" using fp by simp
  have p: "p < 1048576" "p \<notin> D" "p \<notin> tables D s"
    using vm_invD [OF inv] pf by (auto simp: alloc_inv_def)
  have pm: "pmem t = (pmem s)(p := (\<lambda>_. 0), d := (pmem s d)(i := page2pa p OR PTE_P OR PTE_U OR PTE_W))"
    using p(2) d(1) by (auto simp: t_def with_table_def ALLOC_ZERO_def)
  show pres: "pde_present t d i" and fr: "pt_frame t d i = p"
    using pde_flags [OF p(1)] by (simp_all add: pde_present_def pt_frame_def pm)
  have same: "pde_present t d' i' = pde_present s d' i'" "pt_frame t d' i' = pt_frame s d' i'"
    if "d' \<in> D" "(d', i') \<noteq> (d, i)" for d' i'
    using that p(2) by (auto simp: pde_present_def pt_frame_def pm)
  show tab: "tables D t = insert p (tables D s)"
  proof (intro set_eqI iffI)
    fix f assume "f \<in> tables D t"
    then obtain d' i' where f: "f = pt_frame t d' i'" "d' \<in> D" "i' < 955" "pde_present t d' i'"
      by (auto simp: tables_def)
    show "f \<in> insert p (tables D s)"
    proof (cases "(d', i') = (d, i)")
      case True
      then show ?thesis using f(1) fr by simp
    next
      case False
      then show ?thesis using f same [of d' i'] by (auto intro: tablesI)
    qed
  next
    fix f assume "f \<in> insert p (tables D s)"
    then consider "f = p" | d' i' where "f = pt_frame s d' i'" "d' \<in> D" "i' < 955" "pde_present s d' i'"
      by (auto simp: tables_def)
    then show "f \<in> tables D t"
    proof cases
      case 1
      then show ?thesis using tablesI [OF d(1,2) pres] fr by simp
    next
      case 2
      then have "(d', i') \<noteq> (d, i)" using d(3) by auto
      then show ?thesis using 2 same [of d' i'] tablesI [of d' D i' t] by simp
    qed
  qed
  have fresh: "pt_frame s d' i' \<noteq> p" if "d' \<in> D" "i' < 955" "pde_present s d' i'" for d' i'
    using that p(3) tablesI by blast
  have inj: "d1 = d2 \<and> i1 = i2"
    if a: "d1 \<in> D" "i1 < 955" "pde_present t d1 i1" "d2 \<in> D" "i2 < 955" "pde_present t d2 i2"
      "pt_frame t d1 i1 = pt_frame t d2 i2" for d1 i1 d2 i2
  proof (cases "(d1, i1) = (d, i) \<or> (d2, i2) = (d, i)")
    case True
    then show ?thesis using a fr same fresh by (metis prod.inject)
  next
    case False
    then have "pt_frame s d1 i1 = pt_frame s d2 i2" "pde_present s d1 i1" "pde_present s d2 i2"
      using a same by auto
    then show ?thesis using vm_invD(4) [OF inv] a(1,2,4,5) unfolding tables_ok_def by blast
  qed
  have "tables D t \<inter> D = {}"
    using tab p(2) tables_okD(1) [OF vm_invD(4) [OF inv]] by auto
  then show "tables_ok D t" unfolding tables_ok_def using inj by blast
  show "same_view D s t"
    unfolding same_view_def
  proof (intro ballI allI impI)
    fix d' i' j assume a: "d' \<in> D" "i' < (955::nat)"
    show "pte_at t d' i' j = pte_at s d' i' j"
    proof (cases "(d', i') = (d, i)")
      case True
      then show ?thesis using d p(2) fr by (auto simp: pte_at_def pm)
    next
      case False
      have "pde_present s d' i' \<Longrightarrow> pt_frame s d' i' \<in> tables D s" using a by (auto intro: tablesI)
      then have "pde_present s d' i' \<Longrightarrow> pt_frame s d' i' \<notin> {p, d}"
        using p(3) tables_okD(1) [OF vm_invD(4) [OF inv]] d(1) by auto
      then show ?thesis using same [OF a(1) False] by (auto simp: pte_at_def pm)
    qed
  qed
qed

lemma with_table_simps [simp]:
  "npages (with_table d i p s) = npages s"
  "kern_same s (with_table d i p s)"
  by (simp_all add: with_table_def kern_same_def)

lemma with_table_inv:
  assumes inv: "vm_inv D s" and d: "d \<in> D" "i < 955" "\<not> pde_present s d i"
    and fp: "free_pages s = p # ps"
  defines "t \<equiv> with_table d i p s"
  shows "vm_inv D t" and "free_pages t = ps"
    and "mappable D s q \<Longrightarrow> mappable D t q \<and> pages t q = pages s q \<and> pmem t q = pmem s q"
    and "reserved D s q \<Longrightarrow> reserved D t q \<and> pages t q = pages s q \<and> pmem t q = pmem s q"
proof -
  note V = with_table_view [OF inv d fp, folded t_def]
  note A = page_alloc_Cons [OF vm_invD(1) [OF inv] fp, of ALLOC_ZERO]
  have dist: "p \<notin> set ps" using alloc_inv_distinct [OF vm_invD(1) [OF inv]] fp by simp
  show f: "free_pages t = ps" using A(3) by (simp add: t_def with_table_def)
  have ai: "alloc_inv t"
    using alloc_inv_set_pp_ref [OF A(2), of p 1] A(3) dist by (simp add: t_def with_table_def)
  have n: "npages t = npages s" by (simp add: t_def)
  have pg: "q \<noteq> p \<Longrightarrow> pages t q = pages s q" for q by (simp add: t_def with_table_def)
  have mp: "mappers D t = mappers D s" using V(3) by (rule mappers_cong)
  show m: "mappable D s q \<Longrightarrow> mappable D t q \<and> pages t q = pages s q \<and> pmem t q = pmem s q" for q
  proof -
    assume q: "mappable D s q"
    then have ne: "q \<noteq> p" "q \<noteq> d" using fp d(1) by (auto simp: mappable_def)
    have 1: "pages t q = pages s q" using ne(1) by (rule pg)
    have 2: "pmem t q = pmem s q" using ne by (simp add: t_def with_table_def)
    have "mappable D t q" using q ne 1 fp unfolding mappable_def mp V(4) f n by simp
    with 1 2 show ?thesis by simp
  qed
  show "reserved D s q \<Longrightarrow> reserved D t q \<and> pages t q = pages s q \<and> pmem t q = pmem s q"
    using V(4) f fp d(1) by (auto simp: reserved_def t_def with_table_def)
  have fr: "\<forall>f \<in> D \<union> tables D t. f < npages t \<and> f \<notin> set (free_pages t) \<and> pp_ref (pages t f) = 1"
  proof
    fix g assume g: "g \<in> D \<union> tables D t"
    show "g < npages t \<and> g \<notin> set (free_pages t) \<and> pp_ref (pages t g) = 1"
    proof (cases "g = p")
      case True
      then show ?thesis using A(4) dist unfolding n f
        by (auto simp: releasable_def t_def with_table_def)
    next
      case False
      then have "g \<in> D \<union> tables D s" using g V(4) by auto
      then show ?thesis using vm_invD(5-8,12) [OF inv, of g] pg [OF False] fp unfolding n f by auto
    qed
  qed
  have lk: "pp_link (pages t q) = None" if "q \<notin> set (free_pages t)" for q
  proof (cases "q = p")
    case True
    then show ?thesis by (simp add: t_def with_table_def)
  next
    case False
    then have "q \<notin> set (free_pages s)" using that fp f by simp
    then show ?thesis using vm_invD(10) [OF inv] pg [OF False] by simp
  qed
  show "vm_inv D t"
    unfolding vm_inv_def mp
    using ai vm_invD(2,3) [OF inv] V(5) fr lk m vm_invD(9) [OF inv]
    by (intro conjI allI impI) (simp_all add: t_def with_table_def)
qed

lemma pgdir_walk_create:
  assumes inv: "vm_inv D s" and d: "d \<in> D" and va: "va < UTOP"
  shows "\<exists>r s'. pgdir_walk d va True s = Inr (r, s') \<and> vm_inv D s' \<and> same_view D s s' \<and>
     kern_same s s' \<and>
     (r = None \<longrightarrow> s' = s \<and> free_pages s = [] \<and> \<not> pde_present s d (unat (PDX va))) \<and>
     (r \<noteq> None \<longrightarrow> r = Some (pt_frame s' d (unat (PDX va)), unat (PTX va)) \<and>
        pde_present s' d (unat (PDX va))) \<and>
     (\<forall>q. mappable D s q \<longrightarrow> mappable D s' q \<and> pages s' q = pages s q \<and> pmem s' q = pmem s q) \<and>
     (\<forall>q. reserved D s q \<longrightarrow> reserved D s' q \<and> pages s' q = pages s q \<and> pmem s' q = pmem s q)"
proof (cases "pde_present s d (unat (PDX va))")
  case True
  then show ?thesis using pgdir_walk_present [OF inv d va True] inv
    by (simp add: same_view_def)
next
  case False
  have i: "unat (PDX va) < 955" using va by (simp add: user_va_iff)
  have np: "pse_support s \<noteq> 1" "pmem s d (unat (PDX va)) AND PTE_P = 0"
    using vm_invD(2) [OF inv] False by (simp_all add: pde_present_def)
  show ?thesis
  proof (cases "free_pages s")
    case Nil
    then have "page_alloc ALLOC_ZERO s = Inr (None, s)"
      using vm_invD(1) [OF inv] by (intro page_alloc_empty)
    then have "pgdir_walk d va True s = Inr (None, s)" using np by (simp add: pgdir_walk_def Let_def)
    then show ?thesis using inv Nil False by (simp add: same_view_def)
  next
    case (Cons p ps)
    define t where "t = with_table d (unat (PDX va)) p s"
    note I = with_table_inv [OF inv d i False Cons, folded t_def]
    note V = with_table_view [OF inv d i False Cons, folded t_def]
    have "pt_frame t d (unat (PDX va)) < npages t"
      using vm_invD(7) [OF I(1)] tablesI [OF d i V(1)] by blast
    then have "kaddr_frame (PTE_ADDR (pmem t d (unat (PDX va)))) t = Inr p"
      using V(2) by (simp add: kaddr_frame_ok pt_frame_def)
    then have "pgdir_walk d va True s = Inr (Some (p, unat (PTX va)), t)"
      using page_alloc_Cons(1) [OF vm_invD(1) [OF inv] Cons] np
      by (simp add: pgdir_walk_def with_table_def t_def Let_def)
    then show ?thesis using I V by (auto simp: t_def)
  qed
qed

section \<open>Lookup and slot updates\<close>

lemma page_lookup_spec:
  assumes inv: "vm_inv D s" and d: "d \<in> D" and va: "va < UTOP"
  shows "page_lookup d va s = Inr (case pte_at s d (unat (PDX va)) (unat (PTX va)) of
     None \<Rightarrow> None
   | Some e \<Rightarrow> Some (unat (PGNUM e), pt_frame s d (unat (PDX va)), unat (PTX va)))"
proof (cases "pde_present s d (unat (PDX va))")
  case False
  then show ?thesis using pgdir_walk_absent [OF inv False] by (simp add: page_lookup_def pte_at_def)
next
  case True
  let ?i = "unat (PDX va)" and ?j = "unat (PTX va)"
  let ?e = "pmem s (pt_frame s d ?i) ?j"
  have i: "?i < 955" using va by (simp add: user_va_iff)
  have pa: "pa2page (PTE_ADDR ?e) s = Inr (unat (PGNUM ?e))" if "?e AND PTE_P \<noteq> 0"
  proof -
    have "(d, ?i, ?j) \<in> mappers D s (unat (PGNUM ?e))"
      using that True d i PTX_bound by (simp add: mappers_def pte_at_def)
    then have "mappable D s (unat (PGNUM ?e))" using vm_invD(9) [OF inv] by blast
    then show ?thesis by (simp add: pa2page_def mappable_def)
  qed
  show ?thesis using pgdir_walk_present [OF inv d va True] True pa vm_invD(2) [OF inv]
    by (simp add: page_lookup_def pte_at_def)
qed

lemma mappers_upd_view:
  assumes "upd_view D s s' d i j r" and "d \<in> D" "i < 955" "j < 1024"
  shows "mappers D s' p = (mappers D s p - {(d, i, j)}) \<union>
     (if \<exists>e. r = Some e \<and> unat (PGNUM e) = p then {(d, i, j)} else {})"
proof (rule set_eqI)
  fix x :: "nat \<times> nat \<times> nat"
  obtain d' i' j' where x: "x = (d', i', j')" by (cases x)
  have e: "d' \<in> D \<Longrightarrow> i' < 955 \<Longrightarrow> pte_at s' d' i' j' =
      (if d' = d \<and> i' = i \<and> j' = j then r else pte_at s d' i' j')"
    using assms(1) by (simp add: upd_view_def)
  show "x \<in> mappers D s' p \<longleftrightarrow> x \<in> (mappers D s p - {(d, i, j)}) \<union>
     (if \<exists>e. r = Some e \<and> unat (PGNUM e) = p then {(d, i, j)} else {})"
  proof (cases "x = (d, i, j)")
    case True
    then show ?thesis using assms(2-4) e by (simp add: mappers_def x)
  next
    case False
    then have "d' \<in> D \<Longrightarrow> i' < 955 \<Longrightarrow> pte_at s' d' i' j' = pte_at s d' i' j'" using e x by auto
    then have "x \<in> mappers D s' p \<longleftrightarrow> x \<in> mappers D s p"
      by (simp add: mappers_def x cong: conj_cong)
    with False show ?thesis by auto
  qed
qed

lemma set_word_upd_view:
  assumes "tables_ok D s" and "d \<in> D" "i < 955" "pde_present s d i"
    and pm: "pmem t = pmem s"
  shows "upd_view D s (set_word (pt_frame s d i) j v t) d i j (if v AND PTE_P \<noteq> 0 then Some v else None)"
    and "tables D (set_word (pt_frame s d i) j v t) = tables D s"
    and "tables_ok D (set_word (pt_frame s d i) j v t)"
proof -
  let ?u = "set_word (pt_frame s d i) j v s" and ?u' = "set_word (pt_frame s d i) j v t"
  have e: "pmem ?u' = pmem ?u" using pm by simp
  note S = set_word_slot [OF assms(1-4), where j = j and v = v]
  show "upd_view D s ?u' d i j (if v AND PTE_P \<noteq> 0 then Some v else None)"
    unfolding upd_view_def view_cong(3) [OF e] using S(6) by simp
  show "tables D ?u' = tables D s" using S(4) view_cong(4) [OF e] by simp
  show "tables_ok D ?u'" using S(5) view_cong(6) [OF e] by simp
qed

text \<open>Re-establishing the invariant after one slot and the page bookkeeping have changed.\<close>

lemma vm_inv_slotI:
  assumes inv: "vm_inv D s" and k: "npages s' = npages s" "pse_support s' = pse_support s"
    and ai: "alloc_inv s'" and t: "tables D s' = tables D s" "tables_ok D s'"
    and fr: "\<And>f. f \<in> set (free_pages s') \<Longrightarrow> f \<in> set (free_pages s) \<or> f \<notin> D \<union> tables D s"
    and m: "\<And>p. mappers D s' p \<noteq> {} \<Longrightarrow> mappable D s' p"
    and l: "\<And>p. p \<notin> set (free_pages s') \<Longrightarrow> pp_link (pages s' p) = None"
    and g: "\<And>f. f \<in> D \<union> tables D s \<Longrightarrow> pages s' f = pages s f"
  shows "vm_inv D s'"
proof -
  have "f < npages s' \<and> f \<notin> set (free_pages s') \<and> pp_ref (pages s' f) = 1" if "f \<in> D \<union> tables D s'" for f
    using that vm_invD(5-8,12) [OF inv, of f] fr [of f] g [of f] k(1) t(1) by auto
  then show ?thesis unfolding vm_inv_def
    using ai t(2) vm_invD(2,3) [OF inv] k(2) m l by simp
qed

lemma tlb_invalidate_simps [simp]:
  "npages (tlb_invalidate d va s) = npages s"
  "pages (tlb_invalidate d va s) = pages s"
  "page_free_list (tlb_invalidate d va s) = page_free_list s"
  "pse_support (tlb_invalidate d va s) = pse_support s"
  "pmem (tlb_invalidate d va s) = pmem s"
  "envs (tlb_invalidate d va s) = envs s"
  "env_free_list (tlb_invalidate d va s) = env_free_list s"
  "kern_pgdir (tlb_invalidate d va s) = kern_pgdir s"
  "curenv (tlb_invalidate d va s) = curenv s"
  "cr3 (tlb_invalidate d va s) = cr3 s"
  "cpunum (tlb_invalidate d va s) = cpunum s"
  "cpu_status (tlb_invalidate d va s) = cpu_status s"
  "kernel_locked (tlb_invalidate d va s) = kernel_locked s"
  "ticks (tlb_invalidate d va s) = ticks s"
  "free_pages (tlb_invalidate d va s) = free_pages s"
  "alloc_inv (tlb_invalidate d va s) = alloc_inv s"
  by (simp_all add: tlb_invalidate_def)

lemma vm_inv_tlb [simp]: "vm_inv D (tlb_invalidate d va s) = vm_inv D s"
proof -
  have "pmem (tlb_invalidate d va s) = pmem s" by simp
  note V = view_cong [OF this]
  show ?thesis by (simp add: vm_inv_def mappable_def V)
qed

lemma mappable_tlb [simp]: "mappable D (tlb_invalidate d va s) p = mappable D s p"
proof -
  have "pmem (tlb_invalidate d va s) = pmem s" by simp
  note V = view_cong [OF this]
  show ?thesis by (simp add: mappable_def V)
qed

lemma kern_same_tlb [simp]: "kern_same s (tlb_invalidate d va s') = kern_same s s'"
  by (simp add: kern_same_def)

lemma keeps_tlb [simp]: "keeps D s (tlb_invalidate d va s') = keeps D s s'"
proof -
  have "pmem (tlb_invalidate d va s') = pmem s'" by simp
  note V = view_cong [OF this]
  show ?thesis by (simp add: keeps_def reserved_def V)
qed

lemma upd_view_tlb [simp]: "upd_view D s (tlb_invalidate d' va s') d i j r = upd_view D s s' d i j r"
proof -
  have "pmem (tlb_invalidate d' va s') = pmem s'" by simp
  note V = view_cong [OF this]
  show ?thesis by (simp add: upd_view_def V)
qed

text \<open>Dropping one reference to a mapped page, then clearing the entry.\<close>

lemma page_decref_mapped:
  assumes inv: "vm_inv D s" and q: "mappers D s q \<noteq> {}"
  shows "\<exists>s1. page_decref q s = Inr s1 \<and> alloc_inv s1 \<and> pmem s1 = pmem s \<and> kern_same s s1 \<and>
     (\<forall>p. p \<noteq> q \<longrightarrow> pages s1 p = pages s p) \<and>
     unat (pp_ref (pages s1 q)) = card (mappers D s q) - 1 \<and>
     free_pages s1 = (if card (mappers D s q) = 1 then q # free_pages s else free_pages s) \<and>
     (\<forall>p. p \<notin> set (free_pages s1) \<longrightarrow> pp_link (pages s1 p) = None)"
proof -
  have m: "mappable D s q" using vm_invD(9) [OF inv q] .
  then have ref: "unat (pp_ref (pages s q)) = card (mappers D s q)"
    and nf: "q \<notin> set (free_pages s)" and n: "q < npages s" by (simp_all add: mappable_def)
  have c: "0 < card (mappers D s q)"
    using q finite_mappers [OF vm_invD(3) [OF inv]] by (simp add: card_gt_0_iff)
  have lk: "pp_link (pages s q) = None" using vm_invD(10) [OF inv nf] .
  show ?thesis
  proof (cases "card (mappers D s q) = 1")
    case True
    then have r1: "pp_ref (pages s q) = 1" using ref by (metis unat_1 word_unat_eq_iff)
    obtain s1 where s1: "page_decref q s = Inr s1" "alloc_inv s1" "free_pages s1 = q # free_pages s"
        "pages s1 = (pages s)(q := \<lparr>pp_link = page_free_list s, pp_ref = 0\<rparr>)" "pmem s1 = pmem s"
        "kern_same s s1"
      using page_decref_last [OF vm_invD(1) [OF inv] n nf r1 lk] by (auto simp: kern_same_def)
    have "pp_link (pages s1 p) = None" if "p \<notin> set (free_pages s1)" for p
      using that s1(3,4) vm_invD(10) [OF inv, of p] by auto
    then show ?thesis using s1 True by auto
  next
    case False
    let ?t = "set_pp_ref q (pp_ref (pages s q) - 1) s"
    have r1: "pp_ref (pages s q) \<noteq> 1" using False ref by auto
    have "pp_ref (pages s q) \<noteq> 0" using c ref by auto
    then have "unat (pp_ref (pages ?t q)) = card (mappers D s q) - 1"
      using ref by (simp add: unat_minus_one)
    moreover have "alloc_inv ?t" using vm_invD(1) [OF inv] nf by (rule alloc_inv_set_pp_ref)
    ultimately show ?thesis using page_decref_more [OF r1] False vm_invD(10) [OF inv]
      by (auto simp: kern_same_def)
  qed
qed

text \<open>Clearing the slot \<open>(d, i, j)\<close> after its page has lost one reference.\<close>

lemma cleared_slot:
  assumes inv: "vm_inv D s" and d: "d \<in> D" "i < 955" "j < 1024" and e: "pte_at s d i j = Some e"
    and s1: "page_decref (unat (PGNUM e)) s = Inr s1"
  defines "s2 \<equiv> set_word (pt_frame s d i) j 0 s1"
  shows "vm_inv D s2" and "upd_view D s s2 d i j None" and "kern_same s s2"
    and "mappable D s p \<Longrightarrow> p \<noteq> unat (PGNUM e) \<Longrightarrow> mappable D s2 p \<and> pages s2 p = pages s p"
    and "p \<notin> tables D s \<Longrightarrow> pmem s2 p = pmem s p"
    and "keeps D s s2"
proof -
  define q where "q = unat (PGNUM e)"
  have pres: "pde_present s d i" using e by (simp add: pte_at_def split: if_splits)
  have x: "(d, i, j) \<in> mappers D s q" using e d by (simp add: mappers_def q_def)
  then have mqs: "mappable D s q" using vm_invD(9) [OF inv] by blast
  have s1: "alloc_inv s1" "pmem s1 = pmem s" "kern_same s s1" "\<forall>p. p \<noteq> q \<longrightarrow> pages s1 p = pages s p"
      "unat (pp_ref (pages s1 q)) = card (mappers D s q) - 1"
      "free_pages s1 = (if card (mappers D s q) = 1 then q # free_pages s else free_pages s)"
      "\<forall>p. p \<notin> set (free_pages s1) \<longrightarrow> pp_link (pages s1 p) = None"
    using page_decref_mapped [OF inv, of q] x s1 unfolding q_def [symmetric] by force+
  note U = set_word_upd_view [OF vm_invD(4) [OF inv] d(1,2) pres s1(2), where j = j and v = 0, folded s2_def]
  show uv: "upd_view D s s2 d i j None" using U(1) by simp
  show "kern_same s s2" using s1(3) by (simp add: s2_def kern_same_def)
  show "p \<notin> tables D s \<Longrightarrow> pmem s2 p = pmem s p"
    using tablesI [OF d(1,2) pres] s1(2) by (auto simp: s2_def)
  have mp: "mappers D s2 p = mappers D s p - {(d, i, j)}" for p
    using mappers_upd_view [OF uv d, of p] by simp
  have mq: "p \<noteq> q \<Longrightarrow> (d, i, j) \<notin> mappers D s p" for p using e by (auto simp: mappers_def q_def)
  have fp: "free_pages s2 = free_pages s1" "pages s2 = pages s1" "npages s2 = npages s"
    using s1(3) by (simp_all add: s2_def kern_same_def)
  show "keeps D s s2"
    unfolding keeps_def
  proof (intro allI impI conjI; (elim conjE)?)
    fix p assume r: "reserved D s p"
    then show "pmem s2 p = pmem s p"
      using tablesI [OF d(1,2) pres] s1(2) by (auto simp: s2_def reserved_def)
    assume "mappers D s p = {}"
    then have "p \<noteq> q" using x by auto
    then show "reserved D s2 p" "pages s2 p = pages s p"
      using r U(2) s1(4,6) by (auto simp: reserved_def fp)
  qed
  have ok: "mappable D s2 p" if p: "mappable D s p" "p \<noteq> q" for p
    using p s1(4,6) mq [of p] U(2) by (auto simp: mappable_def mp fp)
  then show "mappable D s p \<Longrightarrow> p \<noteq> unat (PGNUM e) \<Longrightarrow> mappable D s2 p \<and> pages s2 p = pages s p"
    using s1(4) by (simp add: fp q_def)
  have okq: "mappable D s2 q" if "mappers D s2 q \<noteq> {}"
  proof -
    have "card (mappers D s2 q) = card (mappers D s q) - 1" using x by (simp add: mp)
    moreover have "0 < card (mappers D s2 q)"
      using that finite_mappers [OF vm_invD(3) [OF inv]] by (simp add: card_gt_0_iff)
    ultimately show ?thesis using mqs s1(5,6) U(2) by (auto simp: mappable_def fp)
  qed
  show "vm_inv D s2"
  proof (rule vm_inv_slotI [OF inv])
    show "npages s2 = npages s" "pse_support s2 = pse_support s" "alloc_inv s2"
      using s1(1,3) by (simp_all add: s2_def kern_same_def)
    show "tables D s2 = tables D s" "tables_ok D s2" using U(2,3) by simp_all
    show "f \<in> set (free_pages s) \<or> f \<notin> D \<union> tables D s" if "f \<in> set (free_pages s2)" for f
      using that s1(6) mqs by (auto simp: fp mappable_def split: if_splits)
    show "mappable D s2 p" if "mappers D s2 p \<noteq> {}" for p
      using that okq ok [OF vm_invD(9) [OF inv], of p] by (cases "p = q") (auto simp: mp)
    show "pp_link (pages s2 p) = None" if "p \<notin> set (free_pages s2)" for p
      using that s1(7) by (simp add: fp)
    show "pages s2 f = pages s f" if "f \<in> D \<union> tables D s" for f
      using that s1(4) mqs by (auto simp: fp mappable_def)
  qed
qed

lemma page_remove_spec:
  assumes inv: "vm_inv D s" and d: "d \<in> D" and va: "va < UTOP"
  shows "\<exists>s'. page_remove d va s = Inr s' \<and> vm_inv D s' \<and> kern_same s s' \<and>
     upd_view D s s' d (unat (PDX va)) (unat (PTX va)) None \<and>
     (\<forall>p. mappable D s p \<and> (d, unat (PDX va), unat (PTX va)) \<notin> mappers D s p \<longrightarrow>
        mappable D s' p \<and> pages s' p = pages s p) \<and>
     (\<forall>p. p \<notin> tables D s \<longrightarrow> pmem s' p = pmem s p) \<and> keeps D s s'"
proof -
  let ?i = "unat (PDX va)" and ?j = "unat (PTX va)"
  have i: "?i < 955" using va by (simp add: user_va_iff)
  have j: "?j < 1024" by (rule PTX_bound)
  show ?thesis
  proof (cases "pte_at s d ?i ?j")
    case None
    then have "page_remove d va s = Inr s"
      by (simp add: page_remove_def page_lookup_spec [OF inv d va])
    then show ?thesis using inv None by (auto simp: upd_view_def)
  next
    case (Some e)
    have x: "(d, ?i, ?j) \<in> mappers D s (unat (PGNUM e))" using Some d i j by (simp add: mappers_def)
    then obtain s1 where s1: "page_decref (unat (PGNUM e)) s = Inr s1"
      using page_decref_mapped [OF inv, of "unat (PGNUM e)"] by blast
    note C = cleared_slot [OF inv d i j Some s1]
    have "page_remove d va s = Inr (tlb_invalidate d va (set_word (pt_frame s d ?i) ?j 0 s1))"
      using s1 Some by (simp add: page_remove_def page_lookup_spec [OF inv d va])
    moreover have "p \<noteq> unat (PGNUM e)" if "(d, ?i, ?j) \<notin> mappers D s p" for p using that x by auto
    ultimately show ?thesis using C by auto
  qed
qed

lemma filled_slot:
  assumes inv: "vm_inv D s" and d: "d \<in> D" "i < 955" "j < 1024" "pde_present s d i"
    and old: "\<And>e. pte_at s d i j = Some e \<Longrightarrow> unat (PGNUM e) = pp"
    and pp: "mappable D s pp" and e: "unat (PGNUM e) = pp" "e AND PTE_P \<noteq> 0"
    and r: "unat r = card (insert (d, i, j) (mappers D s pp))"
  defines "s' \<equiv> set_word (pt_frame s d i) j e (set_pp_ref pp r s)"
  shows "vm_inv D s'" and "upd_view D s s' d i j (Some e)" and "kern_same s s'"
    and "mappable D s p \<Longrightarrow> mappable D s' p"
    and "p \<notin> tables D s \<Longrightarrow> pmem s' p = pmem s p" and "keeps D s s'"
proof -
  have pf: "pp \<notin> set (free_pages s)" using pp by (simp add: mappable_def)
  note U = set_word_upd_view [OF vm_invD(4) [OF inv] d(1,2,4), where j = j and v = e and t = "set_pp_ref pp r s", folded s'_def]
  show uv: "upd_view D s s' d i j (Some e)" using U(1) e(2) by simp
  show ks: "kern_same s s'" by (simp add: s'_def kern_same_def)
  show "p \<notin> tables D s \<Longrightarrow> pmem s' p = pmem s p"
    using tablesI [OF d(1,2,4)] by (auto simp: s'_def)
  have A: "alloc_inv s'" "free_pages s' = free_pages s"
    using alloc_inv_set_pp_ref [OF vm_invD(1) [OF inv] pf, of r] by (simp_all add: s'_def)
  have mpp: "mappers D s' pp = insert (d, i, j) (mappers D s pp)"
    using mappers_upd_view [OF uv d(1-3), of pp] e(1) by auto
  have mq: "mappers D s' p = mappers D s p" if "p \<noteq> pp" for p
  proof -
    have "(d, i, j) \<notin> mappers D s p" using old that by (auto simp: mappers_def)
    then show ?thesis using mappers_upd_view [OF uv d(1-3), of p] e(1) that by simp
  qed
  have pg: "p \<noteq> pp \<Longrightarrow> pages s' p = pages s p" "pp_ref (pages s' pp) = r" "npages s' = npages s" for p
    by (simp_all add: s'_def)
  show "keeps D s s'"
    unfolding keeps_def
  proof (intro allI impI conjI; (elim conjE)?)
    fix p assume res: "reserved D s p"
    then show "pmem s' p = pmem s p"
      using tablesI [OF d(1,2,4)] by (auto simp: s'_def reserved_def)
    assume "mappers D s' p = {}"
    then have "p \<noteq> pp" using mpp by auto
    then show "reserved D s' p" "pages s' p = pages s p"
      using res U(2) A(2) pg(1) by (auto simp: reserved_def)
  qed
  show m: "mappable D s p \<Longrightarrow> mappable D s' p" for p
    using pp r A(2) U(2) mpp mq [of p] pg by (cases "p = pp") (simp_all add: mappable_def)
  show "vm_inv D s'"
  proof (rule vm_inv_slotI [OF inv])
    show "npages s' = npages s" "pse_support s' = pse_support s" using ks by (simp_all add: kern_same_def)
    show "mappable D s' p" if "mappers D s' p \<noteq> {}" for p
      using that m [of p] vm_invD(9) [OF inv, of p] mq [of p] pp by (cases "p = pp") auto
    show "pp_link (pages s' p) = None" if "p \<notin> set (free_pages s')" for p
      using that A(2) vm_invD(10) [OF inv, of p] by (auto simp: s'_def)
    show "pages s' f = pages s f" if "f \<in> D \<union> tables D s" for f
      using that pp by (auto simp: s'_def mappable_def)
  qed (use A U in simp_all)
qed

lemma tlb_set_word: "set_word f k v (tlb_invalidate d va s) = tlb_invalidate d va (set_word f k v s)"
  by (simp add: tlb_invalidate_def set_word_def split: option.split)

lemma upd_view_upd:
  "upd_view D s s1 d i j a \<Longrightarrow> upd_view D s1 s2 d i j b \<Longrightarrow> upd_view D s s2 d i j b"
  by (auto simp: upd_view_def)

lemma upd_view_same:
  "same_view D s s1 \<Longrightarrow> upd_view D s1 s2 d i j b \<Longrightarrow> upd_view D s s2 d i j b"
  by (auto simp: upd_view_def same_view_def)

lemma page2pa_PGNUM: "page2pa (unat (PGNUM e)) = PTE_ADDR e"
proof -
  have "PTE_ADDR e = push_bit 12 (drop_bit 12 e)"
    unfolding PTE_ADDR_def by (intro bit_word_eqI) (auto simp: mask_numerals bit_simps)
  then show ?thesis by (simp add: page2pa_def PGNUM_def)
qed

text \<open>The store that ends a successful insertion, once the slot is empty or already maps the page.\<close>

lemma page_insert_store:
  assumes inv: "vm_inv D s" and d: "d \<in> D" and va: "va < UTOP" and pp: "mappable D s pp"
    and perm: "perm AND NOT 0xFFF = 0" and c: "card (mappers D s pp) < 65535"
    and pres: "pde_present s d (unat (PDX va))"
    and em: "pte_at s d (unat (PDX va)) (unat (PTX va)) = None"
  defines "s' \<equiv> set_word (pt_frame s d (unat (PDX va))) (unat (PTX va)) (page2pa pp OR perm OR PTE_P)
                  (set_pp_ref pp (pp_ref (pages s pp) + 1) s)"
  shows "vm_inv D s' \<and> kern_same s s' \<and>
     upd_view D s s' d (unat (PDX va)) (unat (PTX va)) (Some (page2pa pp OR perm OR PTE_P)) \<and>
     (\<forall>p. mappable D s p \<longrightarrow> mappable D s' p) \<and> keeps D s s'"
proof -
  let ?i = "unat (PDX va)" and ?j = "unat (PTX va)"
  have i: "?i < 955" using va by (simp add: user_va_iff)
  have p20: "pp < 1048576" using pp vm_invD(11) [OF inv] by (simp add: mappable_def)
  have nm: "(d, ?i, ?j) \<notin> mappers D s pp" using em by (simp add: mappers_def)
  have ref: "unat (pp_ref (pages s pp)) = card (mappers D s pp)" using pp by (simp add: mappable_def)
  have "unat (pp_ref (pages s pp) + 1) = Suc (card (mappers D s pp))"
    using c ref by (simp add: unat_word_ariths)
  then have r: "unat (pp_ref (pages s pp) + 1) = card (insert (d, ?i, ?j) (mappers D s pp))"
    using nm finite_mappers [OF vm_invD(3) [OF inv], of s pp] by simp
  note F = filled_slot [OF inv d i PTX_bound pres _ pp leaf_flags(2,1) [OF p20 perm] r, folded s'_def]
  show ?thesis using F em by auto
qed

lemma page_insert_again:
  assumes inv: "vm_inv D s" and d: "d \<in> D" and va: "va < UTOP" and pp: "mappable D s pp"
    and perm: "perm AND NOT 0xFFF = 0" and pres: "pde_present s d (unat (PDX va))"
    and em: "pte_at s d (unat (PDX va)) (unat (PTX va)) = Some e" "unat (PGNUM e) = pp"
  defines "s' \<equiv> set_word (pt_frame s d (unat (PDX va))) (unat (PTX va)) (page2pa pp OR perm OR PTE_P) s"
  shows "vm_inv D s' \<and> kern_same s s' \<and>
     upd_view D s s' d (unat (PDX va)) (unat (PTX va)) (Some (page2pa pp OR perm OR PTE_P)) \<and>
     (\<forall>p. mappable D s p \<longrightarrow> mappable D s' p) \<and> keeps D s s'"
proof -
  let ?i = "unat (PDX va)" and ?j = "unat (PTX va)"
  have i: "?i < 955" using va by (simp add: user_va_iff)
  have p20: "pp < 1048576" using pp vm_invD(11) [OF inv] by (simp add: mappable_def)
  have "(d, ?i, ?j) \<in> mappers D s pp" using em d i PTX_bound [of va] by (simp add: mappers_def)
  then have "insert (d, ?i, ?j) (mappers D s pp) = mappers D s pp" by auto
  then have r: "unat (pp_ref (pages s pp)) = card (insert (d, ?i, ?j) (mappers D s pp))"
    using pp by (simp add: mappable_def)
  have "set_pp_ref pp (pp_ref (pages s pp)) s = s" by (simp add: set_pp_ref_def)
  then show ?thesis
    using filled_slot [OF inv d i PTX_bound pres _ pp leaf_flags(2,1) [OF p20 perm] r] em
    by (auto simp: s'_def)
qed

text \<open>Inserting over a mapping of another page removes that mapping first.\<close>

lemma page_insert_replace:
  assumes inv: "vm_inv D s" and d: "d \<in> D" and va: "va < UTOP" and pp: "mappable D s pp"
    and perm: "perm AND NOT 0xFFF = 0" and c: "card (mappers D s pp) < 65535"
    and pres: "pde_present s d (unat (PDX va))"
    and em: "pte_at s d (unat (PDX va)) (unat (PTX va)) = Some e" "PTE_ADDR e \<noteq> page2pa pp"
  shows "\<exists>s2. page_remove d va s = Inr s2 \<and>
     (let s' = set_word (pt_frame s d (unat (PDX va))) (unat (PTX va)) (page2pa pp OR perm OR PTE_P)
                  (set_pp_ref pp (pp_ref (pages s2 pp) + 1) s2)
      in vm_inv D s' \<and> kern_same s s' \<and> mappable D s' pp \<and>
     upd_view D s s' d (unat (PDX va)) (unat (PTX va)) (Some (page2pa pp OR perm OR PTE_P)) \<and>
     keeps D s s')"
proof -
  let ?i = "unat (PDX va)" and ?j = "unat (PTX va)"
  have i: "?i < 955" using va by (simp add: user_va_iff)
  have nm: "(d, ?i, ?j) \<notin> mappers D s pp"
    using em by (auto simp: mappers_def page2pa_PGNUM [symmetric])
  obtain s2 where s2: "page_remove d va s = Inr s2" "vm_inv D s2" "kern_same s s2"
      "upd_view D s s2 d ?i ?j None" "mappable D s2 pp" "\<forall>p. p \<notin> tables D s \<longrightarrow> pmem s2 p = pmem s p"
      "keeps D s s2"
    using page_remove_spec [OF inv d va] pp nm by blast
  have "d \<notin> tables D s" using vm_invD(4) [OF inv] d unfolding tables_ok_def by blast
  then have same: "pde_present s2 d ?i" "pt_frame s d ?i = pt_frame s2 d ?i"
    using s2(6) pres by (simp_all add: pde_present_def pt_frame_def)
  have em2: "pte_at s2 d ?i ?j = None" using s2(4) d i by (simp add: upd_view_def)
  have "mappers D s2 pp = mappers D s pp"
    using mappers_upd_view [OF s2(4) d i PTX_bound, of pp] nm by simp
  then have c2: "card (mappers D s2 pp) < 65535" using c by simp
  have "vm_inv D s' \<and> kern_same s s' \<and> mappable D s' pp \<and>
     upd_view D s s' d ?i ?j (Some (page2pa pp OR perm OR PTE_P)) \<and> keeps D s2 s'"
    if "s' = set_word (pt_frame s d ?i) ?j (page2pa pp OR perm OR PTE_P)
                  (set_pp_ref pp (pp_ref (pages s2 pp) + 1) s2)" for s'
    using page_insert_store [OF s2(2) d va s2(5) perm c2 same(1) em2, folded same(2), folded that]
      s2(5) kern_same_trans [OF s2(3)] upd_view_upd [OF s2(4)] by blast
  moreover have "keeps D s s'" if k: "keeps D s2 s'"
    and e: "s' = set_word (pt_frame s d ?i) ?j (page2pa pp OR perm OR PTE_P)
                  (set_pp_ref pp (pp_ref (pages s2 pp) + 1) s2)" for s'
  proof (rule keeps_trans [OF s2(7) k])
    show "reserved D s2 p \<or> pmem s' p = pmem s2 p" if "reserved D s p" for p
      using that tablesI [OF d i pres] by (auto simp: reserved_def e)
    show "mappers D s2 p = {}" if "mappers D s p = {}" for p
      using that mappers_upd_view [OF s2(4) d i PTX_bound, of p] by simp
  qed
  ultimately show ?thesis using s2(1) by (simp add: Let_def)
qed

lemma keeps_walk:
  assumes "same_view D s s1"
    and "\<forall>q. reserved D s q \<longrightarrow> reserved D s1 q \<and> pages s1 q = pages s q \<and> pmem s1 q = pmem s q"
    and "keeps D s1 s2"
  shows "keeps D s s2"
  using assms(2,3) mappers_cong [OF assms(1)] by (simp add: keeps_def)

text \<open>
  \<^verbatim>\<open>page_insert\<close> either finds no memory for a page table and changes nothing the hardware
  sees, or maps the page in exactly the asked slot.
\<close>

lemma page_insert_spec:
  assumes inv: "vm_inv D s" and d: "d \<in> D" and va: "va < UTOP" and pp: "mappable D s pp"
    and perm: "perm AND NOT 0xFFF = 0" and c: "card (mappers D s pp) < 65535"
  shows "\<exists>r s'. page_insert d pp va perm s = Inr (r, s') \<and> vm_inv D s' \<and> kern_same s s' \<and>
     mappable D s' pp \<and> keeps D s s' \<and>
     (r = - E_NO_MEM \<and> s' = s \<and> free_pages s = [] \<and> \<not> pde_present s d (unat (PDX va)) \<or>
      r = 0 \<and> upd_view D s s' d (unat (PDX va)) (unat (PTX va)) (Some (page2pa pp OR perm OR PTE_P)))"
proof -
  let ?i = "unat (PDX va)" and ?j = "unat (PTX va)"
  obtain r s1 where w: "pgdir_walk d va True s = Inr (r, s1)" "vm_inv D s1" "same_view D s s1"
      "kern_same s s1" "r = None \<Longrightarrow> s1 = s \<and> free_pages s = [] \<and> \<not> pde_present s d ?i"
      "r \<noteq> None \<Longrightarrow> r = Some (pt_frame s1 d ?i, ?j) \<and> pde_present s1 d ?i" "mappable D s1 pp"
      "\<forall>q. reserved D s q \<longrightarrow> reserved D s1 q \<and> pages s1 q = pages s q \<and> pmem s1 q = pmem s q"
    using pgdir_walk_create [OF inv d va] pp by blast
  show ?thesis
  proof (cases r)
    case None
    then show ?thesis using w pp by (simp add: page_insert_def)
  next
    case (Some fk)
    then have f: "r = Some (pt_frame s1 d ?i, ?j)" and pres: "pde_present s1 d ?i" using w(6) by auto
    let ?old = "pmem s1 (pt_frame s1 d ?i) ?j" and ?v = "page2pa pp OR perm OR PTE_P"
    have i: "?i < 955" using va by (simp add: user_va_iff)
    have c1: "card (mappers D s1 pp) < 65535" using c mappers_cong [OF w(3)] by simp
    have p20: "pp < 1048576" using pp vm_invD(11) [OF inv] by (simp add: mappable_def)
    consider (again) "?old AND PTE_P \<noteq> 0" "PTE_ADDR ?old = page2pa pp"
      | (other) "?old AND PTE_P \<noteq> 0" "PTE_ADDR ?old \<noteq> page2pa pp" | (empty) "?old AND PTE_P = 0"
      by blast
    then show ?thesis
    proof cases
      case again
      have "unat (PGNUM ?old) = pp"
        using unat_PGNUM_page2pa [OF p20] PGNUM_PTE_ADDR [of ?old] again(2) by simp
      then show ?thesis
        using page_insert_again [OF w(2) d va w(7) perm pres, of ?old] w(1,4,7) f again pres
          upd_view_same [OF w(3)] kern_same_trans [OF w(4)] keeps_walk [OF w(3,8)]
        by (auto simp: page_insert_def pte_at_def)
    next
      case empty
      then show ?thesis
        using page_insert_store [OF w(2) d va w(7) perm c1 pres] w(1,4,7) f pres
          upd_view_same [OF w(3)] kern_same_trans [OF w(4)] keeps_walk [OF w(3,8)]
        by (auto simp: page_insert_def pte_at_def tlb_set_word Let_def)
    next
      case other
      have e: "pte_at s1 d ?i ?j = Some ?old" using pres other by (simp add: pte_at_def)
      show ?thesis
        using page_insert_replace [OF w(2) d va w(7) perm c1 pres e other(2)] w(1,4) f other
          upd_view_same [OF w(3)] kern_same_trans [OF w(4)] keeps_walk [OF w(3,8)]
        by (auto simp: page_insert_def tlb_set_word Let_def)
    qed
  qed
qed

section \<open>Checking user memory\<close>

text \<open>What \<^verbatim>\<open>user_mem_check\<close> decides about one address below \<open>UTOP\<close>.\<close>

definition allowed :: "kstate \<Rightarrow> nat \<Rightarrow> u32 \<Rightarrow> u32 \<Rightarrow> bool" where
  "allowed s d perm a \<longleftrightarrow>
     (case pte_at s d (unat (PDX a)) (unat (PTX a)) of
        None \<Rightarrow> False | Some e \<Rightarrow> e AND perm = perm)"

lemma allowed_page:
  assumes "unat a div 4096 = unat b div 4096"
  shows "allowed s d perm a = allowed s d perm b"
proof -
  have "unat a div 4096 div 1024 = unat b div 4096 div 1024" using assms by simp
  then have "unat a div 4194304 = unat b div 4194304" by (simp add: div_mult2_eq [symmetric])
  then have "PDX a = PDX b" "PTX a = PTX b" using assms
    by (simp_all add: word_unat_eq_iff unat_PDX unat_PTX)
  then show ?thesis by (simp add: allowed_def)
qed

lemma user_mem_check_step:
  assumes inv: "vm_inv D s" and d: "d \<in> D" and va: "a < UTOP"
  shows "user_mem_check_loop (Suc n) d va a (perm OR PTE_P) s =
     (if allowed s d (perm OR PTE_P) a then user_mem_check_loop n d va (a + PGSIZE) (perm OR PTE_P) s
      else Inr (- E_FAULT, s\<lparr>user_mem_check_addr := (if a < va then va else a)\<rparr>))"
proof -
  have u: "\<not> ULIM \<le> a" using va by (simp add: word_le_nat_alt word_less_nat_alt jos_const)
  have P: "e AND (perm OR PTE_P) = perm OR PTE_P \<Longrightarrow> e AND PTE_P \<noteq> 0" for e :: u32
  proof
    assume a: "e AND (perm OR PTE_P) = perm OR PTE_P" "e AND PTE_P = 0"
    have "bit (perm OR PTE_P) 0" by (simp add: bit_or_iff PTE_P_def)
    then have "bit e 0" using a(1) by (metis bit_and_iff)
    then show False using a(2) by (metis PTE_P_def and_one_eq bit_0 odd_iff_mod_2_eq_one zero_neq_one)
  qed
  show ?thesis
  proof (cases "pde_present s d (unat (PDX a))")
    case True
    then show ?thesis using pgdir_walk_present [OF inv d va True] u P
      by (auto simp: allowed_def pte_at_def)
  next
    case False
    then show ?thesis using pgdir_walk_absent [OF inv False] by (simp add: allowed_def pte_at_def)
  qed
qed

lemma find_map: "List.find P (map f xs) = map_option f (List.find (P \<circ> f) xs)"
  by (induction xs) simp_all

lemma user_mem_check_loop_spec:
  assumes inv: "vm_inv D s" and d: "d \<in> D"
    and "unat a + n * 4096 \<le> unat UTOP"
  shows "user_mem_check_loop n d va a (perm OR PTE_P) s =
     (case List.find (\<lambda>k. \<not> allowed s d (perm OR PTE_P) (a + of_nat k * PGSIZE)) [0..<n] of
        None \<Rightarrow> Inr (0, s)
      | Some k \<Rightarrow> Inr (- E_FAULT, s\<lparr>user_mem_check_addr :=
           (if a + of_nat k * PGSIZE < va then va else a + of_nat k * PGSIZE)\<rparr>))"
  using assms(3)
proof (induction n arbitrary: a)
  case 0
  show ?case by simp
next
  case (Suc n)
  have a: "a < UTOP" using Suc.prems by (simp add: word_less_nat_alt)
  have "unat (a + PGSIZE) = unat a + 4096"
    using Suc.prems by (simp add: unat_word_ariths jos_const)
  then have IH: "user_mem_check_loop n d va (a + PGSIZE) (perm OR PTE_P) s =
     (case List.find (\<lambda>k. \<not> allowed s d (perm OR PTE_P) (a + PGSIZE + of_nat k * PGSIZE)) [0..<n] of
        None \<Rightarrow> Inr (0, s)
      | Some k \<Rightarrow> Inr (- E_FAULT, s\<lparr>user_mem_check_addr :=
           (if a + PGSIZE + of_nat k * PGSIZE < va then va else a + PGSIZE + of_nat k * PGSIZE)\<rparr>))"
    using Suc by simp
  have up: "[0..<Suc n] = 0 # map Suc [0..<n]" by (simp add: upt_conv_Cons map_Suc_upt)
  show ?case
    unfolding user_mem_check_step [OF inv d a] IH up
    by (simp add: find_map comp_def algebra_simps split: option.split)
qed

lemma find_upt_Some:
  "List.find P [0..<n] = Some k \<longleftrightarrow> k < n \<and> P k \<and> (\<forall>m < k. \<not> P m)"
  by (auto simp: find_Some_iff)

text \<open>The pages the loop visits are those that meet the range.\<close>

lemma user_range_pages:
  fixes va len :: u32
  assumes len: "0 < len" and top: "unat va + unat len \<le> unat UTOP"
  defines "a \<equiv> ROUNDDOWN va PGSIZE"
    and "n \<equiv> (unat (ROUNDUP (va + len) PGSIZE) - unat (ROUNDDOWN va PGSIZE)) div unat PGSIZE"
  shows "unat a = unat va - unat va mod 4096" and "unat a + n * 4096 \<le> unat UTOP"
    and "unat va + unat len \<le> unat a + n * 4096"
    and "k < n \<Longrightarrow> unat a + k * 4096 < unat va + unat len"
    and "k < n \<Longrightarrow> unat (a + of_nat k * PGSIZE) = unat a + k * 4096"
proof -
  have pg: "unat PGSIZE = 4096" and ut: "unat UTOP = 4005560320" by (simp_all add: jos_const)
  have L: "0 < unat len" using len by (simp add: word_less_nat_alt)
  have vl: "unat (va + len) = unat va + unat len" using top by (simp add: unat_word_ariths ut)
  show a: "unat a = unat va - unat va mod 4096" by (simp add: a_def unat_ROUNDDOWN pg)
  have e: "unat (ROUNDUP (va + len) PGSIZE) =
      unat va + unat len + 4095 - (unat va + unat len + 4095) mod 4096"
    using unat_ROUNDUP [of PGSIZE "va + len"] top by (simp add: vl pg ut add.commute [of 4095]) (simp add: jos_const)
  have n: "n = (unat va + unat len + 4095) div 4096 - unat va div 4096"
    unfolding n_def pg e a [unfolded a_def] by (simp add: minus_mod_eq_mult_div right_diff_distrib' [symmetric])
  define q where "q = unat va div 4096"
  define m where "m = (unat va + unat len + 4095) div 4096"
  have q: "q * 4096 \<le> unat va" "unat va - unat va mod 4096 = q * 4096"
    by (simp_all add: q_def minus_mod_eq_div_mult)
  have m: "m * 4096 \<le> unat va + unat len + 4095" "unat va + unat len \<le> m * 4096"
    using div_mult_mod_eq [of "unat va + unat len + 4095" 4096]
      mod_less_divisor [of 4096 "unat va + unat len + 4095"] unfolding m_def by linarith+
  have nm: "n = m - q" by (simp add: n m_def q_def)
  have "q * 4096 < m * 4096" using q(1) m(2) L by linarith
  then have nq: "q * 4096 + n * 4096 = m * 4096" by (simp add: nm add_mult_distrib [symmetric])
  have "m * 4096 \<le> 977920 * 4096" using m(1) top ut by simp
  then show b: "unat a + n * 4096 \<le> unat UTOP" using nq unfolding ut a q(2) by simp
  show "unat va + unat len \<le> unat a + n * 4096" using nq m(2) unfolding a q(2) by simp
  assume k: "k < n"
  then have "(q + k + 1) * 4096 \<le> m * 4096" using nm by simp
  then show "unat a + k * 4096 < unat va + unat len" using m(1) unfolding a q(2) by simp
  have "unat (of_nat k * PGSIZE) = k * 4096" using k b
    by (simp add: unat_word_ariths unat_of_nat pg ut)
  then show "unat (a + of_nat k * PGSIZE) = unat a + k * 4096"
    using k b by (simp add: unat_word_ariths ut)
qed

lemma page_of_offset:
  fixes A B :: nat
  assumes "A mod 4096 = 0" and "A \<le> B"
  shows "B div 4096 = (A + (B - A) div 4096 * 4096) div 4096"
proof -
  obtain q r where "A = 4096 * q" "B = A + r" using assms by (auto simp: dvd_def le_iff_add)
  then show ?thesis by simp
qed

lemma user_mem_check_spec:
  fixes va len perm :: u32
  assumes inv: "vm_inv D s" and d: "d \<in> D" and len: "0 < len" and top: "unat va + unat len \<le> unat UTOP"
  defines "ok \<equiv> allowed s d (perm OR PTE_P)"
  shows "\<exists>s'. user_mem_check d va len perm s = Inr (0, s') \<and> s' = s \<and>
        (\<forall>b. va \<le> b \<and> unat b < unat va + unat len \<longrightarrow> ok b) \<or>
      user_mem_check d va len perm s = Inr (- E_FAULT, s') \<and>
        (\<exists>b. s' = s\<lparr>user_mem_check_addr := b\<rparr> \<and> va \<le> b \<and> unat b < unat va + unat len \<and> \<not> ok b \<and>
         (\<forall>c. va \<le> c \<and> c < b \<longrightarrow> ok c))"
proof -
  let ?a = "ROUNDDOWN va PGSIZE"
  let ?n = "(unat (ROUNDUP (va + len) PGSIZE) - unat ?a) div unat PGSIZE"
  note R = user_range_pages [OF len top]
  have run: "user_mem_check d va len perm s = user_mem_check_loop ?n d va ?a (perm OR PTE_P) s"
    by (simp add: user_mem_check_def Let_def)
  have pick: "ok b \<longleftrightarrow> ok (?a + of_nat ((unat b - unat ?a) div 4096) * PGSIZE)"
      and pick_less: "(unat b - unat ?a) div 4096 < ?n"
    if b: "unat ?a \<le> unat b" "unat b < unat va + unat len" for b
  proof -
    show l: "(unat b - unat ?a) div 4096 < ?n" using b R(3) by (simp add: less_mult_imp_div_less)
    show "ok b \<longleftrightarrow> ok (?a + of_nat ((unat b - unat ?a) div 4096) * PGSIZE)"
      unfolding ok_def
      by (rule allowed_page, subst R(5) [OF l], rule page_of_offset [OF _ b(1)])
        (simp add: R(1) minus_mod_eq_mult_div)
  qed
  show ?thesis
  proof (cases "List.find (\<lambda>k. \<not> ok (?a + of_nat k * PGSIZE)) [0..<?n]")
    case None
    then have "ok (?a + of_nat k * PGSIZE)" if "k < ?n" for k using that by (auto simp: find_None_iff)
    moreover have "user_mem_check d va len perm s = Inr (0, s)"
      unfolding run user_mem_check_loop_spec [OF inv d R(2)] using None by (simp add: ok_def)
    moreover have "unat ?a \<le> unat b" if "va \<le> b" for b
      using that R(1) by (simp add: word_le_nat_alt)
    ultimately show ?thesis using pick pick_less by fast
  next
    case (Some k)
    let ?b = "if ?a + of_nat k * PGSIZE < va then va else ?a + of_nat k * PGSIZE"
    have k: "k < ?n" "\<not> ok (?a + of_nat k * PGSIZE)" "\<And>m. m < k \<Longrightarrow> ok (?a + of_nat m * PGSIZE)"
      using Some unfolding find_upt_Some by auto
    have u: "unat ?b = max (unat va) (unat ?a + k * 4096)"
      using R(5) [OF k(1)] by (auto simp: word_less_nat_alt)
    have b: "va \<le> ?b" "unat ?b < unat va + unat len"
      using R(4) [OF k(1)] len u by (auto simp: word_le_nat_alt word_less_nat_alt)
    have b3: "unat ?a \<le> unat ?b" unfolding u by simp
    have kb: "(unat ?b - unat ?a) div 4096 = k" unfolding u R(1)
      using mod_less_divisor [of 4096 "unat va"] by (auto simp: max_def)
    have "ok c" if c: "va \<le> c" "c < ?b" for c
    proof -
      have "unat ?a \<le> unat c" "unat c < unat ?b" "unat va \<le> unat c"
        using c R(1) by (auto simp: word_le_nat_alt word_less_nat_alt)
      then have "unat c < unat ?a + k * 4096" unfolding u by (simp split: if_splits)
      then have "(unat c - unat ?a) div 4096 < k" using \<open>unat ?a \<le> unat c\<close>
        by (simp add: less_mult_imp_div_less)
      then show ?thesis using pick [of c] k(3) \<open>unat ?a \<le> unat c\<close> \<open>unat c < unat ?b\<close> b(2) by simp
    qed
    moreover have "\<not> ok ?b" using pick [OF b3 b(2)] k(2) unfolding kb by simp
    moreover have "user_mem_check d va len perm s = Inr (- E_FAULT, s\<lparr>user_mem_check_addr := ?b\<rparr>)"
      unfolding run user_mem_check_loop_spec [OF inv d R(2)] using Some by (simp add: ok_def)
    ultimately show ?thesis using b by blast
  qed
qed

text \<open>
  The sum \<^verbatim>\<open>va + len\<close> is not checked for overflow: a range that wraps around the top of the
  address space gives an \<open>end\<close> below \<open>start\<close>, no page is examined and the check succeeds.
\<close>

lemma user_mem_check_wraps:
  assumes "ROUNDUP (va + len) PGSIZE \<le> ROUNDDOWN va PGSIZE"
  shows "user_mem_check d va len perm s = Inr (0, s)"
  using assms by (simp add: user_mem_check_def Let_def word_le_nat_alt)

end
