(* ===== verification/AddrSpace.thy ===== *)
theory AddrSpace
  imports PageTable
begin

text \<open>
  The contract the page table code gives to its callers (\<^verbatim>\<open>env.c\<close>, \<^verbatim>\<open>syscall.c\<close>): the user
  parts of the address spaces are finite maps from slots to entries, \<^verbatim>\<open>page_insert\<close> is
  a map update that may fail for lack of memory and \<^verbatim>\<open>page_remove\<close> is a deletion. The
  locale \<open>map_store\<close> states the contract and derives what a sequence of calls does; it is
  interpreted on the model of \<^verbatim>\<open>kern/pmap.c\<close>.
\<close>

section \<open>Stores that behave like maps\<close>

datatype ('k, 'v) map_op = Insert 'k 'v | Remove 'k

fun run_ops ::
  "('k \<Rightarrow> 'v \<Rightarrow> 's \<Rightarrow> (int \<times> 's) exec) \<Rightarrow> ('k \<Rightarrow> 's \<Rightarrow> 's exec) \<Rightarrow> ('k, 'v) map_op list \<Rightarrow> 's
     \<Rightarrow> (int list \<times> 's) exec" where
  "run_ops ins del [] s = Inr ([], s)"
| "run_ops ins del (Insert k v # ops) s =
     bindE (ins k v s) (\<lambda>(r, s'). bindE (run_ops ins del ops s') (\<lambda>(rs, s''). Inr (r # rs, s'')))"
| "run_ops ins del (Remove k # ops) s =
     bindE (del k s) (\<lambda>s'. bindE (run_ops ins del ops s') (\<lambda>(rs, s''). Inr (0 # rs, s'')))"

text \<open>The same calls on a map, given the result codes of the calls.\<close>

fun map_ops :: "('v \<Rightarrow> 'e) \<Rightarrow> ('k, 'v) map_op list \<Rightarrow> int list \<Rightarrow> ('k \<Rightarrow> 'e option) \<Rightarrow> ('k \<Rightarrow> 'e option)" where
  "map_ops enc (Insert k v # ops) (r # rs) m =
     map_ops enc ops rs (if r = 0 then m(k \<mapsto> enc v) else m)"
| "map_ops enc (Remove k # ops) (r # rs) m = map_ops enc ops rs (m(k := None))"
| "map_ops enc _ _ m = m"

text \<open>Every call is made in a state where its precondition holds.\<close>

fun ops_ok ::
  "('s \<Rightarrow> 'k \<Rightarrow> 'v \<Rightarrow> bool) \<Rightarrow> ('k \<Rightarrow> bool) \<Rightarrow> ('k \<Rightarrow> 'v \<Rightarrow> 's \<Rightarrow> (int \<times> 's) exec) \<Rightarrow> ('k \<Rightarrow> 's \<Rightarrow> 's exec)
     \<Rightarrow> ('k, 'v) map_op list \<Rightarrow> 's \<Rightarrow> bool" where
  "ops_ok pre key ins del [] s = True"
| "ops_ok pre key ins del (Insert k v # ops) s \<longleftrightarrow>
     key k \<and> pre s k v \<and> (case ins k v s of Inl _ \<Rightarrow> True | Inr (r, s') \<Rightarrow> ops_ok pre key ins del ops s')"
| "ops_ok pre key ins del (Remove k # ops) s \<longleftrightarrow>
     key k \<and> (case del k s of Inl _ \<Rightarrow> True | Inr s' \<Rightarrow> ops_ok pre key ins del ops s')"

locale map_store =
  fixes invar :: "'s \<Rightarrow> bool" and key :: "'k \<Rightarrow> bool" and view :: "'s \<Rightarrow> 'k \<Rightarrow> 'e option"
    and enc :: "'v \<Rightarrow> 'e" and pre :: "'s \<Rightarrow> 'k \<Rightarrow> 'v \<Rightarrow> bool"
    and ins :: "'k \<Rightarrow> 'v \<Rightarrow> 's \<Rightarrow> (int \<times> 's) exec" and del :: "'k \<Rightarrow> 's \<Rightarrow> 's exec"
  assumes ins_law: "invar s \<Longrightarrow> key k \<Longrightarrow> pre s k v \<Longrightarrow>
      \<exists>r s'. ins k v s = Inr (r, s') \<and> invar s' \<and>
        view s' = (if r = 0 then (view s)(k \<mapsto> enc v) else view s)"
    and del_law: "invar s \<Longrightarrow> key k \<Longrightarrow>
      \<exists>s'. del k s = Inr s' \<and> invar s' \<and> view s' = (view s)(k := None)"
begin

lemma run_ops_view:
  "invar s \<Longrightarrow> ops_ok pre key ins del ops s \<Longrightarrow>
   \<exists>rs s'. run_ops ins del ops s = Inr (rs, s') \<and> length rs = length ops \<and> invar s' \<and>
     view s' = map_ops enc ops rs (view s)"
proof (induction ops arbitrary: s)
  case Nil
  then show ?case by simp
next
  case (Cons x ops)
  show ?case
  proof (cases x)
    case (Insert k v)
    obtain r s1 where s1: "ins k v s = Inr (r, s1)" "invar s1"
        "view s1 = (if r = 0 then (view s)(k \<mapsto> enc v) else view s)"
      using ins_law [of s k v] Cons.prems Insert by auto
    have "ops_ok pre key ins del ops s1" using Cons.prems(2) Insert s1(1) by simp
    from Cons.IH [OF s1(2) this] obtain rs s' where "run_ops ins del ops s1 = Inr (rs, s')"
        "length rs = length ops" "invar s'" "view s' = map_ops enc ops rs (view s1)" by blast
    then have "run_ops ins del (x # ops) s = Inr (r # rs, s')"
        "view s' = map_ops enc (x # ops) (r # rs) (view s)" "length (r # rs) = length (x # ops)"
      using s1 Insert by simp_all
    then show ?thesis using \<open>invar s'\<close> by blast
  next
    case (Remove k)
    obtain s1 where s1: "del k s = Inr s1" "invar s1" "view s1 = (view s)(k := None)"
      using del_law [of s k] Cons.prems Remove by auto
    have "ops_ok pre key ins del ops s1" using Cons.prems(2) Remove s1(1) by simp
    from Cons.IH [OF s1(2) this] obtain rs s' where "run_ops ins del ops s1 = Inr (rs, s')"
        "length rs = length ops" "invar s'" "view s' = map_ops enc ops rs (view s1)" by blast
    then have "run_ops ins del (x # ops) s = Inr (0 # rs, s')"
        "view s' = map_ops enc (x # ops) (0 # rs) (view s)" "length (0 # rs) = length (x # ops)"
      using s1 Remove by simp_all
    then show ?thesis using \<open>invar s'\<close> by blast
  qed
qed

end

section \<open>The address spaces as a map store\<close>

text \<open>A key is a page directory and a page aligned user address, a value a page and its permissions.\<close>

definition user_view :: "nat set \<Rightarrow> kstate \<Rightarrow> nat \<times> u32 \<Rightarrow> u32 option" where
  "user_view D s k = (if fst k \<in> D \<and> snd k < UTOP \<and> PGOFF (snd k) = 0
     then pte_at s (fst k) (unat (PDX (snd k))) (unat (PTX (snd k))) else None)"

definition user_key :: "nat set \<Rightarrow> nat \<times> u32 \<Rightarrow> bool" where
  "user_key D k \<longleftrightarrow> fst k \<in> D \<and> snd k < UTOP \<and> PGOFF (snd k) = 0"

definition user_pre :: "nat set \<Rightarrow> kstate \<Rightarrow> nat \<times> u32 \<Rightarrow> nat \<times> u32 \<Rightarrow> bool" where
  "user_pre D s k v \<longleftrightarrow> mappable D s (fst v) \<and> card (mappers D s (fst v)) < 65535 \<and>
     snd v AND NOT 0xFFF = 0"

definition leaf :: "nat \<times> u32 \<Rightarrow> u32" where
  "leaf v = page2pa (fst v) OR snd v OR PTE_P"

definition user_insert :: "nat \<times> u32 \<Rightarrow> nat \<times> u32 \<Rightarrow> kstate \<Rightarrow> (int \<times> kstate) exec" where
  "user_insert k v s = page_insert (fst k) (fst v) (snd k) (snd v) s"

definition user_remove :: "nat \<times> u32 \<Rightarrow> kstate \<Rightarrow> kstate exec" where
  "user_remove k s = page_remove (fst k) (snd k) s"

lemma same_slot:
  assumes "PGOFF a = 0" and "PGOFF b = 0" and "unat (PDX a) = unat (PDX b)" and "unat (PTX a) = unat (PTX b)"
  shows "a = b"
proof -
  have "unat (PGNUM a) = unat (PGNUM b)" using assms PGNUM_split [of a] PGNUM_split [of b] by simp
  then have "unat a div 4096 = unat b div 4096" by (simp add: unat_PGNUM)
  moreover have "unat a mod 4096 = unat b mod 4096" using assms(1,2) by (simp add: unat_PGOFF [symmetric])
  ultimately have "unat a = unat b" by (metis div_mult_mod_eq)
  then show ?thesis by (simp add: word_unat_eq_iff)
qed

lemma upd_view_user_view:
  assumes uv: "upd_view D s s' (fst k) (unat (PDX (snd k))) (unat (PTX (snd k))) r" and k: "user_key D k"
  shows "user_view D s' = (user_view D s)(k := r)"
proof
  fix k'
  show "user_view D s' k' = ((user_view D s)(k := r)) k'"
  proof (cases "user_key D k'")
    case True
    have i: "unat (PDX (snd k')) < 955" using True by (simp add: user_key_def user_va_iff)
    have "k = k' \<longleftrightarrow> fst k' = fst k \<and> unat (PDX (snd k')) = unat (PDX (snd k)) \<and>
        unat (PTX (snd k')) = unat (PTX (snd k))"
      using k True same_slot [of "snd k" "snd k'"] by (auto simp: user_key_def prod_eq_iff)
    then show ?thesis using uv True i unfolding upd_view_def user_view_def user_key_def by auto
  next
    case False
    then show ?thesis using k by (auto simp: user_view_def user_key_def)
  qed
qed

interpretation user_maps: map_store "vm_inv D" "user_key D" "user_view D" leaf "user_pre D"
  user_insert user_remove
proof
  fix s k v
  assume a: "vm_inv D s" "user_key D k" "user_pre D s k v"
  obtain r s' where i: "user_insert k v s = Inr (r, s')" "vm_inv D s'"
      "r = - E_NO_MEM \<and> s' = s \<or>
       r = 0 \<and> upd_view D s s' (fst k) (unat (PDX (snd k))) (unat (PTX (snd k))) (Some (leaf v))"
    using page_insert_spec [OF a(1), of "fst k" "snd k" "fst v" "snd v"] a
    unfolding user_key_def user_pre_def user_insert_def leaf_def by blast
  then have "user_view D s' = (if r = 0 then (user_view D s)(k \<mapsto> leaf v) else user_view D s)"
    using upd_view_user_view [OF _ a(2), of s] by (auto simp: E_NO_MEM_def)
  with i(1,2) show "\<exists>r s'. user_insert k v s = Inr (r, s') \<and> vm_inv D s' \<and>
      user_view D s' = (if r = 0 then (user_view D s)(k \<mapsto> leaf v) else user_view D s)" by blast
next
  fix s k
  assume a: "vm_inv D s" "user_key D k"
  show "\<exists>s'. user_remove k s = Inr s' \<and> vm_inv D s' \<and> user_view D s' = (user_view D s)(k := None)"
    using page_remove_spec [OF a(1), of "fst k" "snd k"] a upd_view_user_view [OF _ a(2), of s]
    unfolding user_key_def user_remove_def by blast
qed

section \<open>A small machine\<close>

text \<open>
  Eight frames: 1 is a page directory with an empty user part, 2 and 3 are free, 4 has been
  allocated and not been mapped yet, the others belong to the kernel.
\<close>

definition blank_env :: Env where
  "blank_env = \<lparr>env_tf = zero_tf, env_link = None, env_id = 0, env_parent_id = 0,
     env_type = ENV_TYPE_USER, env_status = ENV_FREE, env_runs = 0, env_cpunum = 0, env_pgdir = None,
     env_pgfault_upcall = 0, env_ipc_recving = False, env_ipc_dstva = 0, env_ipc_value = 0,
     env_ipc_from = 0, env_ipc_perm = 0, env_priority = 0\<rparr>"

definition small_kernel :: kstate where
  "small_kernel = \<lparr>npages = 8, npages_basemem = 8,
     pages = (\<lambda>p. if p = 2 then \<lparr>pp_link = Some 3, pp_ref = 0\<rparr>
                   else if p = 3 \<or> p = 4 then \<lparr>pp_link = None, pp_ref = 0\<rparr>
                   else \<lparr>pp_link = None, pp_ref = 1\<rparr>),
     page_free_list = Some 2, nextfree = KERNBASE + 0x8000, pse_support = 0, kern_pgdir = 5,
     pmem = (\<lambda>_ _. 0), mmio_base = MMIOBASE, user_mem_check_addr = 0, envs = (\<lambda>_. blank_env),
     env_free_list = None, curenv = None, cpunum = 0, cpu_status = CPU_STARTED,
     kernel_locked = True, cr3 = 5, tlb_flushed = [], ticks = 0\<rparr>"

lemma small_kernel_free: "free_pages small_kernel = [2, 3]"
  by (rule free_pages_eqI) (simp_all add: small_kernel_def)

lemma small_kernel_alloc_inv: "alloc_inv small_kernel"
  unfolding alloc_inv_def small_kernel_free by (simp add: small_kernel_def)

lemma small_kernel_empty:
  "pte_at small_kernel d i j = None" "pde_present small_kernel d i = False"
  "mappers D small_kernel p = {}" "tables D small_kernel = {}"
  by (simp_all add: pte_at_def pde_present_def mappers_def tables_def small_kernel_def)

lemma small_kernel_vm_inv: "vm_inv {1} small_kernel"
  unfolding vm_inv_def small_kernel_free
  by (auto simp: small_kernel_alloc_inv small_kernel_empty tables_ok_def) (auto simp: small_kernel_def)

lemma small_kernel_mappable: "mappable {1} small_kernel 4"
  by (simp add: mappable_def small_kernel_free small_kernel_empty) (simp add: small_kernel_def)

section \<open>What the memory manager guarantees\<close>

text \<open>
  C13: \<^verbatim>\<open>page_insert\<close> on a user address either returns \<open>-E_NO_MEM\<close>, which happens only when a
  page table is missing and no page is free, and then changes nothing; or it returns 0, the
  slot of the address holds the page with exactly the given permissions, every other slot of
  every address space is as before, and the invariant (in particular that each counter
  \<^verbatim>\<open>pp_ref\<close> is the number of slots that map the page) still holds.
\<close>

theorem page_insert_maps:
  assumes "vm_inv D s" and "d \<in> D" and "va < UTOP" and "mappable D s pp"
    and "perm AND NOT 0xFFF = 0" and "card (mappers D s pp) < 65535"
  shows "\<exists>r s'. page_insert d pp va perm s = Inr (r, s') \<and> vm_inv D s' \<and> kern_same s s' \<and>
     mappable D s' pp \<and> keeps D s s' \<and>
     (r = - E_NO_MEM \<and> s' = s \<and> free_pages s = [] \<and> \<not> pde_present s d (unat (PDX va)) \<or>
      r = 0 \<and> upd_view D s s' d (unat (PDX va)) (unat (PTX va)) (Some (page2pa pp OR perm OR PTE_P)))"
  using assms by (rule page_insert_spec)

lemma page_insert_maps_witness:
  "\<exists>s'. page_insert 1 4 0x800000 (PTE_U OR PTE_W) small_kernel = Inr (0, s') \<and> vm_inv {1} s' \<and>
     pte_at s' 1 2 0 = Some (page2pa 4 OR (PTE_U OR PTE_W) OR PTE_P)"
proof -
  have "(0x800000 :: u32) < UTOP" "(PTE_U OR PTE_W) AND NOT 0xFFF = 0" by (simp_all add: jos_const)
  from page_insert_maps [OF small_kernel_vm_inv _ this(1) small_kernel_mappable this(2)]
  show ?thesis
    by (auto simp: small_kernel_free small_kernel_empty upd_view_def unat_PDX unat_PTX)
qed



text \<open>
  C15: Any sequence of \<^verbatim>\<open>page_insert\<close> and \<^verbatim>\<open>page_remove\<close> calls on user addresses, each made with
  its precondition, runs without a panic, and the address spaces end up as the map that the
  successful insertions and the removals build, in that order.
\<close>

theorem page_ops_refine_map:
  assumes "vm_inv D s" and "ops_ok (user_pre D) (user_key D) user_insert user_remove ops s"
  shows "\<exists>rs s'. run_ops user_insert user_remove ops s = Inr (rs, s') \<and> length rs = length ops \<and>
     vm_inv D s' \<and> user_view D s' = map_ops leaf ops rs (user_view D s)"
  using assms by (rule user_maps.run_ops_view)

lemma page_ops_refine_map_witness:
  "\<exists>rs s'. run_ops user_insert user_remove [Remove (1, 0x800000), Insert (1, 0x800000) (4, PTE_U)] small_kernel
      = Inr (rs, s') \<and> vm_inv {1} s'"
proof -
  have key: "user_key {1} (1, 0x800000)" by (simp add: user_key_def PGOFF_def jos_const)
  have "page_remove 1 0x800000 small_kernel = Inr small_kernel"
    using page_lookup_spec [OF small_kernel_vm_inv, of 1 "0x800000"]
    by (simp add: page_remove_def small_kernel_empty jos_const)
  then have "ops_ok (user_pre {1}) (user_key {1}) user_insert user_remove
      [Remove (1, 0x800000), Insert (1, 0x800000) (4, PTE_U)] small_kernel"
    using key small_kernel_mappable
    by (simp add: user_remove_def user_pre_def small_kernel_empty PTE_U_def split: sum.split)
  from page_ops_refine_map [OF small_kernel_vm_inv this] show ?thesis by blast
qed





text \<open>
  C18: \<^verbatim>\<open>page_alloc\<close> called \<open>n\<close> times hands out distinct pages that were free, takes exactly those
  off the free list, and stops early only when no page is left.
\<close>

theorem page_alloc_distinct:
  assumes "alloc_inv s"
  shows "\<exists>ps s'. alloc_many (page_alloc fl) n s = Inr (ps, s') \<and> alloc_inv s' \<and> distinct ps \<and>
     set ps \<subseteq> set (free_pages s) \<and> set (free_pages s') = set (free_pages s) - set ps \<and>
     length ps = min n (card (set (free_pages s)))"
  using page_pool.alloc_many_spec [OF assms, of fl n] by blast

lemma page_alloc_distinct_witness:
  "\<exists>ps s'. alloc_many (page_alloc ALLOC_ZERO) 5 small_kernel = Inr (ps, s') \<and> set ps = {2, 3} \<and> length ps = 2"
proof -
  obtain ps s' where p: "alloc_many (page_alloc ALLOC_ZERO) 5 small_kernel = Inr (ps, s')"
      "distinct ps" "set ps \<subseteq> {2, 3}" "length ps = 2"
    using page_alloc_distinct [OF small_kernel_alloc_inv, of ALLOC_ZERO 5]
    by (auto simp: small_kernel_free)
  then have "set ps = {2, 3}" by (intro card_subset_eq) (auto simp: distinct_card)
  with p show ?thesis by blast
qed

text \<open>
  C19: After \<^verbatim>\<open>page_init\<close> the free list holds each page of base memory except page 0 and the page
  of the AP boot code, and each page from the end of the kernel's data up to the end of memory,
  once, in descending order; page 0, the AP boot page, the IO hole and the kernel are marked as used.
\<close>

theorem page_init_free_list:
  assumes "page_free_list s = None" and "npages s \<le> 65536"
    and "npages_basemem s \<le> 160" and "KERNBASE \<le> nextfree s"
    and "nextfree s < KERNBASE + 0x400000"
    and "160 \<le> (unat (nextfree s) - unat KERNBASE) div 4096"
    and "(unat (nextfree s) - unat KERNBASE) div 4096 \<le> npages s"
  shows "\<exists>s'. page_init kend s = Inr s' \<and> alloc_inv s' \<and>
     free_pages s' = rev [(unat (nextfree s) - unat KERNBASE) div 4096..<npages s] @
                     rev (filter (\<lambda>i. i \<noteq> 7) [1..<npages_basemem s]) \<and>
     (\<forall>p. p = 0 \<or> p = 7 \<or> 160 \<le> p \<and> p < (unat (nextfree s) - unat KERNBASE) div 4096
        \<longrightarrow> pp_ref (pages s' p) = 1)"
  using assms by (rule page_init_spec)

lemma page_init_free_list_witness:
  "\<exists>s'. page_init 0xF0100000 (small_kernel\<lparr>page_free_list := None, npages := 516, nextfree := 0xF0200000\<rparr>)
      = Inr s' \<and> free_pages s' = [515, 514, 513, 512, 6, 5, 4, 3, 2, 1]"
  using page_init_free_list [of "small_kernel\<lparr>page_free_list := None, npages := 516, nextfree := 0xF0200000\<rparr>" "0xF0100000"]
  by (auto simp: small_kernel_def jos_const upt_conv_Cons)

text \<open>
  C20: \<^verbatim>\<open>page_free\<close> recognises a page that is already free by its nonnull \<^verbatim>\<open>pp_link\<close>, but the last
  page of the free list has a null link: freeing that page a second time does not panic and
  leaves a free list that runs in a circle.
\<close>

theorem page_free_tail_twice:
  assumes "alloc_inv s" and "free_pages s = xs @ [p]"
  shows "\<exists>s'. page_free p s = Inr s' \<and>
     (\<nexists>ys. chain (\<lambda>q. pp_link (pages s' q)) (page_free_list s') ys)"
  using assms by (rule page_free_last_again)

lemma page_free_tail_twice_witness:
  "\<exists>s'. page_free 3 small_kernel = Inr s' \<and>
     (\<nexists>ys. chain (\<lambda>q. pp_link (pages s' q)) (page_free_list s') ys)"
  by (rule page_free_tail_twice [OF small_kernel_alloc_inv, of "[2]"]) (simp add: small_kernel_free)

end
