(* ===== verification/Envs.thy ===== *)
theory Envs
  imports AddrSpace
begin

text \<open>
  Environments, after \<^verbatim>\<open>kern/env.c\<close>: the table \<^verbatim>\<open>envs[]\<close> and its free list, environment
  identifiers, creation and destruction of address spaces and the program loader. The
  operations that give up the CPU are in theory \<open>Sched\<close>.
\<close>

section \<open>Memory through the current page directory\<close>

text \<open>
  What a load or a store of the kernel does at a linear address: the page directory in
  \<^verbatim>\<open>cr3\<close> translates it, and a missing or (the kernel sets \<^verbatim>\<open>CR0_WP\<close>) a read-only
  mapping is a page fault in kernel mode, which panics. Words are stored little endian.
\<close>

definition get_byte :: "nat \<Rightarrow> u32 \<Rightarrow> u8" where
  "get_byte k w = ucast (drop_bit (8 * k) w)"

definition put_byte :: "nat \<Rightarrow> u8 \<Rightarrow> u32 \<Rightarrow> u32" where
  "put_byte k b w = (w AND NOT (push_bit (8 * k) 0xFF)) OR push_bit (8 * k) (ucast b)"

definition load_byte :: "u32 \<Rightarrow> kstate \<Rightarrow> u8 exec" where
  "load_byte va s =
     (case pte_at s (cr3 s) (unat (PDX va)) (unat (PTX va)) of
        None \<Rightarrow> Inl (Panic ''page fault in kernel'')
      | Some e \<Rightarrow> Inr (get_byte (unat (PGOFF va) mod 4)
                      (pmem s (unat (PGNUM e)) (unat (PGOFF va) div 4))))"

definition store_byte :: "u32 \<Rightarrow> u8 \<Rightarrow> kstate \<Rightarrow> kstate exec" where
  "store_byte va b s =
     (case pte_at s (cr3 s) (unat (PDX va)) (unat (PTX va)) of
        None \<Rightarrow> Inl (Panic ''page fault in kernel'')
      | Some e \<Rightarrow>
          if e AND PTE_W = 0 then Inl (Panic ''page fault in kernel'')
          else let f = unat (PGNUM e); k = unat (PGOFF va) div 4
               in Inr (set_word f k (put_byte (unat (PGOFF va) mod 4) b (pmem s f k)) s))"

primrec store_bytes :: "u8 list \<Rightarrow> u32 \<Rightarrow> kstate \<Rightarrow> kstate exec" where
  "store_bytes [] va s = Inr s"
| "store_bytes (b # bs) va s = bindE (store_byte va b s) (store_bytes bs (va + 1))"

section \<open>Identifiers\<close>

definition NENV :: nat where NENV_def [jos_const]: "NENV = 1024"
definition ENVX :: "u32 \<Rightarrow> nat" where "ENVX envid = unat (envid AND (of_nat NENV - 1))"
definition ENVGENSHIFT :: nat where ENVGENSHIFT_def [jos_const]: "ENVGENSHIFT = 12"

definition null_deref :: panic where
  "null_deref = Panic ''page fault in kernel''"

definition envid2env :: "u32 \<Rightarrow> bool \<Rightarrow> kstate \<Rightarrow> (int \<times> nat option) exec" where
  "envid2env envid checkperm s =
     (if envid = 0 then Inr (0, curenv s)
      else let e = ENVX envid in
        if env_status (envs s e) = ENV_FREE \<or> env_id (envs s e) \<noteq> envid then Inr (- E_BAD_ENV, None)
        else if checkperm \<and> Some e \<noteq> curenv s then
          (case curenv s of
             None \<Rightarrow> Inl null_deref
           | Some c \<Rightarrow> if env_parent_id (envs s e) \<noteq> env_id (envs s c) then Inr (- E_BAD_ENV, None)
                      else Inr (0, Some e))
        else Inr (0, Some e))"

section \<open>The environment table\<close>

definition init_env :: "nat \<Rightarrow> kstate \<Rightarrow> kstate" where
  "init_env i s = upd_env i (\<lambda>e. e\<lparr>env_status := ENV_FREE, env_id := 0, env_link := Some (i + 1)\<rparr>) s"

definition env_init :: "kstate \<Rightarrow> kstate" where
  "env_init s =
     (let s1 = fold init_env [0..<NENV - 1] (s\<lparr>env_free_list := Some 0\<rparr>)
      in upd_env (NENV - 1) (\<lambda>e. e\<lparr>env_link := None, env_id := 0\<rparr>) s1)"

definition env_setup_vm :: "nat \<Rightarrow> kstate \<Rightarrow> (int \<times> kstate) exec" where
  "env_setup_vm e s =
     bindE (page_alloc ALLOC_ZERO s) (\<lambda>(r, s1).
       case r of
         None \<Rightarrow> Inr (- E_NO_MEM, s1)
       | Some p \<Rightarrow>
           let s2 = set_pp_ref p (pp_ref (pages s1 p) + 1) s1 in
           bindE (page2kva p s2) (\<lambda>kva.
             let s3 = upd_env e (\<lambda>v. v\<lparr>env_pgdir := Some p\<rparr>) s2;
                 s4 = set_page p (pmem s3 (kern_pgdir s3)) s3
             in bindE (PADDR kva) (\<lambda>pa.
                  Inr (0, set_word p (unat (PDX UVPT)) (pa OR PTE_P OR PTE_U) s4))))"

definition new_env_id :: "u32 \<Rightarrow> nat \<Rightarrow> u32" where
  "new_env_id old e =
     (let generation = (old + push_bit ENVGENSHIFT 1) AND NOT (of_nat NENV - 1);
          generation' = (if sint generation \<le> 0 then push_bit ENVGENSHIFT 1 else generation)
      in generation' OR of_nat e)"

definition fresh_tf :: Trapframe where
  "fresh_tf = zero_tf\<lparr>tf_ds := GD_UD OR 3, tf_es := GD_UD OR 3, tf_ss := GD_UD OR 3,
                      tf_esp := USTACKTOP, tf_cs := GD_UT OR 3, tf_eflags := FL_IF\<rparr>"

definition env_alloc :: "u32 \<Rightarrow> kstate \<Rightarrow> (int \<times> nat option \<times> kstate) exec" where
  "env_alloc parent_id s =
     (case env_free_list s of
        None \<Rightarrow> Inr (- E_NO_FREE_ENV, None, s)
      | Some e \<Rightarrow>
          bindE (env_setup_vm e s) (\<lambda>(r, s1).
            if r < 0 then Inr (r, None, s1)
            else
              let s2 = upd_env e (\<lambda>v. v\<lparr>env_id := new_env_id (env_id v) e,
                         env_parent_id := parent_id, env_type := ENV_TYPE_USER,
                         env_status := ENV_RUNNABLE, env_runs := 0, env_priority := 0,
                         env_tf := fresh_tf, env_pgfault_upcall := 0, env_ipc_recving := False\<rparr>) s1
              in Inr (0, Some e, s2\<lparr>env_free_list := env_link (envs s2 e)\<rparr>)))"

section \<open>Loading a program\<close>

text \<open>The pages from \<open>va\<close> on, \<open>n\<close> of them; the loop bounds are multiples of the page size.\<close>

primrec region_alloc_loop :: "nat \<Rightarrow> nat \<Rightarrow> u32 \<Rightarrow> kstate \<Rightarrow> kstate exec" where
  "region_alloc_loop 0 pgdir va s = Inr s"
| "region_alloc_loop (Suc n) pgdir va s =
     bindE (page_alloc 0 s) (\<lambda>(page, s1).
       case page of
         None \<Rightarrow> Inl (Panic ''Out Of Memory - region_alloc'')
       | Some p \<Rightarrow>
           bindE (page_insert pgdir p va (PTE_U OR PTE_W) s1) (\<lambda>(r, s2).
             if r \<noteq> 0 then Inl (Panic ''Out Of Memory - region_alloc'')
             else region_alloc_loop n pgdir (va + PGSIZE) s2))"

definition env_dir :: "nat \<Rightarrow> kstate \<Rightarrow> nat exec" where
  "env_dir e s = (case env_pgdir (envs s e) of None \<Rightarrow> Inl null_deref | Some d \<Rightarrow> Inr d)"

definition region_alloc :: "nat \<Rightarrow> u32 \<Rightarrow> u32 \<Rightarrow> kstate \<Rightarrow> kstate exec" where
  "region_alloc e va len s =
     (let va_round = ROUNDDOWN va PGSIZE; va_plus_len = ROUNDUP (va + len) PGSIZE in
      if va_round < va_plus_len
      then bindE (env_dir e s) (\<lambda>d.
             region_alloc_loop ((unat va_plus_len - unat va_round) div unat PGSIZE) d va_round s)
      else Inr s)"

text \<open>An image is a function from file offsets to bytes; multi-byte fields are little endian.\<close>

definition img_u16 :: "(nat \<Rightarrow> u8) \<Rightarrow> nat \<Rightarrow> u16" where
  "img_u16 b k = ucast (b k) OR push_bit 8 (ucast (b (k + 1)))"

definition img_u32 :: "(nat \<Rightarrow> u8) \<Rightarrow> nat \<Rightarrow> u32" where
  "img_u32 b k = ucast (img_u16 b k) OR push_bit 16 (ucast (img_u16 b (k + 2)))"

record Elf =
  e_magic :: u32
  e_elf :: "u8 list"
  e_type :: u16
  e_machine :: u16
  e_version :: u32
  e_entry :: u32
  e_phoff :: u32
  e_shoff :: u32
  e_flags :: u32
  e_ehsize :: u16
  e_phentsize :: u16
  e_phnum :: u16
  e_shentsize :: u16
  e_shnum :: u16
  e_shstrndx :: u16

record Proghdr =
  p_type :: u32
  p_offset :: u32
  p_va :: u32
  p_pa :: u32
  p_filesz :: u32
  p_memsz :: u32
  p_flags :: u32
  p_align :: u32

definition ELF_MAGIC :: u32 where ELF_MAGIC_def [jos_const]: "ELF_MAGIC = 0x464C457F"
definition ELF_PROG_LOAD :: u32 where ELF_PROG_LOAD_def [jos_const]: "ELF_PROG_LOAD = 1"

definition read_elf :: "(nat \<Rightarrow> u8) \<Rightarrow> Elf" where
  "read_elf b = \<lparr>e_magic = img_u32 b 0, e_elf = map b [4..<16], e_type = img_u16 b 16,
     e_machine = img_u16 b 18, e_version = img_u32 b 20, e_entry = img_u32 b 24,
     e_phoff = img_u32 b 28, e_shoff = img_u32 b 32, e_flags = img_u32 b 36,
     e_ehsize = img_u16 b 40, e_phentsize = img_u16 b 42, e_phnum = img_u16 b 44,
     e_shentsize = img_u16 b 46, e_shnum = img_u16 b 48, e_shstrndx = img_u16 b 50\<rparr>"

definition read_proghdr :: "(nat \<Rightarrow> u8) \<Rightarrow> nat \<Rightarrow> Proghdr" where
  "read_proghdr b k = \<lparr>p_type = img_u32 b k, p_offset = img_u32 b (k + 4), p_va = img_u32 b (k + 8),
                       p_pa = img_u32 b (k + 12), p_filesz = img_u32 b (k + 16),
                       p_memsz = img_u32 b (k + 20), p_flags = img_u32 b (k + 24),
                       p_align = img_u32 b (k + 28)\<rparr>"

primrec load_segments :: "Proghdr list \<Rightarrow> nat \<Rightarrow> (nat \<Rightarrow> u8) \<Rightarrow> kstate \<Rightarrow> kstate exec" where
  "load_segments [] e binary s = Inr s"
| "load_segments (ph # phs) e binary s =
     (if p_type ph = ELF_PROG_LOAD then
        if p_memsz ph < p_filesz ph then Inl (Panic ''Failed load_icode - p_memsz < p_filesz'')
        else bindE (region_alloc e (p_va ph) (p_memsz ph) s) (\<lambda>s1.
             bindE (store_bytes (map (\<lambda>k. binary (unat (p_offset ph) + k)) [0..<unat (p_filesz ph)])
                      (p_va ph) s1) (\<lambda>s2.
             bindE (store_bytes (replicate (unat (p_memsz ph - p_filesz ph)) 0)
                      (p_va ph + p_filesz ph) s2) (\<lambda>s3.
             load_segments phs e binary s3)))
      else load_segments phs e binary s)"

definition load_icode :: "nat \<Rightarrow> (nat \<Rightarrow> u8) \<Rightarrow> kstate \<Rightarrow> kstate exec" where
  "load_icode e binary s =
     (let elfhdr = read_elf binary in
      if e_magic elfhdr \<noteq> ELF_MAGIC then Inl (Panic ''Failed load_icode - elf is not elf magic'')
      else bindE (env_dir e s) (\<lambda>d.
        bindE (load_segments
                 (map (\<lambda>i. read_proghdr binary (unat (e_phoff elfhdr) + 32 * i)) [0..<unat (e_phnum elfhdr)])
                 e binary (s\<lparr>cr3 := d\<rparr>)) (\<lambda>s1.
        let s2 = upd_env e (\<lambda>v. v\<lparr>env_tf := (env_tf v)\<lparr>tf_eip := e_entry elfhdr\<rparr>\<rparr>) s1 in
        bindE (region_alloc e (USTACKTOP - PGSIZE) PGSIZE s2) (\<lambda>s3.
        Inr (s3\<lparr>cr3 := kern_pgdir s3\<rparr>)))))"

definition env_create :: "(nat \<Rightarrow> u8) \<Rightarrow> EnvType \<Rightarrow> kstate \<Rightarrow> kstate exec" where
  "env_create binary type s =
     bindE (env_alloc 0 s) (\<lambda>(res, r, s1).
       if res \<noteq> 0 then Inl (Panic ''env create failed'')
       else case r of
         None \<Rightarrow> Inl null_deref
       | Some e \<Rightarrow>
           let s2 = upd_env e (\<lambda>v. v\<lparr>env_type := type\<rparr>) s1;
               s3 = (if type = ENV_TYPE_FS
                     then upd_env e (\<lambda>v. v\<lparr>env_tf := (env_tf v)\<lparr>tf_eflags := tf_eflags (env_tf v) OR FL_IOPL_3\<rparr>\<rparr>) s2
                     else s2)
           in load_icode e binary s3)"

section \<open>Taking an environment down\<close>

text \<open>The kernel address of a frame, which is what \<^verbatim>\<open>env_pgdir\<close> holds for the directory in it.\<close>

definition frame_kva :: "nat \<Rightarrow> u32" where
  "frame_kva f = page2pa f + KERNBASE"

primrec unmap_ptes :: "nat list \<Rightarrow> nat \<Rightarrow> nat \<Rightarrow> nat \<Rightarrow> kstate \<Rightarrow> kstate exec" where
  "unmap_ptes [] pgdir pdeno pt s = Inr s"
| "unmap_ptes (pteno # js) pgdir pdeno pt s =
     bindE (if pmem s pt pteno AND PTE_P \<noteq> 0
            then page_remove pgdir (PGADDR (of_nat pdeno) (of_nat pteno) 0) s else Inr s)
       (unmap_ptes js pgdir pdeno pt)"

primrec unmap_pdes :: "nat list \<Rightarrow> nat \<Rightarrow> kstate \<Rightarrow> kstate exec" where
  "unmap_pdes [] pgdir s = Inr s"
| "unmap_pdes (pdeno # is) pgdir s =
     (if pmem s pgdir pdeno AND PTE_P = 0 then unmap_pdes is pgdir s
      else let pa = PTE_ADDR (pmem s pgdir pdeno) in
        bindE (kaddr_frame pa s) (\<lambda>pt.
        bindE (unmap_ptes [0..<Suc (unat (PTX (NOT 0)))] pgdir pdeno pt s) (\<lambda>s1.
        let s2 = set_word pgdir pdeno 0 s1 in
        bindE (pa2page pa s2) (\<lambda>pp.
        bindE (page_decref pp s2) (unmap_pdes is pgdir)))))"

definition env_free :: "nat \<Rightarrow> kstate \<Rightarrow> kstate exec" where
  "env_free e s =
     (let s0 = (if Some e = curenv s then s\<lparr>cr3 := kern_pgdir s\<rparr> else s) in
      bindE (env_dir e s0) (\<lambda>d.
      bindE (unmap_pdes [0..<unat (PDX UTOP)] d s0) (\<lambda>s1.
      bindE (PADDR (frame_kva d)) (\<lambda>pa.
      let s2 = upd_env e (\<lambda>v. v\<lparr>env_pgdir := None\<rparr>) s1 in
      bindE (pa2page pa s2) (\<lambda>pp.
      bindE (page_decref pp s2) (\<lambda>s3.
      Inr ((upd_env e (\<lambda>v. v\<lparr>env_status := ENV_FREE, env_link := env_free_list s3\<rparr>) s3)
             \<lparr>env_free_list := Some e\<rparr>)))))))"

primrec find_type_from :: "nat list \<Rightarrow> EnvType \<Rightarrow> kstate \<Rightarrow> int" where
  "find_type_from [] type s = - 1"
| "find_type_from (i # is) type s = (if env_type (envs s i) = type then int i else find_type_from is type s)"

definition env_find_by_type :: "EnvType \<Rightarrow> kstate \<Rightarrow> int" where
  "env_find_by_type type s =
     (if type \<noteq> ENV_TYPE_OUT_NS \<and> type \<noteq> ENV_TYPE_IN_NS then - 1
      else find_type_from [0..<NENV] type s)"

section \<open>Writes outside memory management\<close>

definition mem_eq :: "kstate \<Rightarrow> kstate \<Rightarrow> bool" where
  "mem_eq s s' \<longleftrightarrow> npages s' = npages s \<and> pages s' = pages s \<and> page_free_list s' = page_free_list s \<and>
     pse_support s' = pse_support s \<and> pmem s' = pmem s"

lemma mem_eq_cong:
  assumes "mem_eq s s'"
  shows "free_pages s' = free_pages s" "alloc_inv s' = alloc_inv s" "vm_inv D s' = vm_inv D s"
    "mappable D s' p = mappable D s p" "mappers D s' p = mappers D s p" "tables D s' = tables D s"
    "reserved D s' p = reserved D s p" "pte_at s' d i j = pte_at s d i j" "pde_present s' d i = pde_present s d i"
    "pt_frame s' d i = pt_frame s d i" "keeps D t s' = keeps D t s" "upd_view D t s' d i j r = upd_view D t s d i j r"
    "same_view D t s' = same_view D t s" "keeps D s' u = keeps D s u" "pages s' p = pages s p" "pmem s' p = pmem s p"
    "npages s' = npages s"
proof -
  have e: "npages s' = npages s" "pages s' = pages s" "page_free_list s' = page_free_list s"
    "pse_support s' = pse_support s" and m: "pmem s' = pmem s"
    using assms by (simp_all add: mem_eq_def)
  note V = view_cong [OF m]
  show f: "free_pages s' = free_pages s" by (simp add: free_pages_def e)
  show a: "alloc_inv s' = alloc_inv s" by (simp add: alloc_inv_def e f)
  show "vm_inv D s' = vm_inv D s" by (simp add: vm_inv_def mappable_def V a f e)
  show "mappable D s' p = mappable D s p" by (simp add: mappable_def V f e)
  show "mappers D s' p = mappers D s p" "tables D s' = tables D s" "pte_at s' d i j = pte_at s d i j"
    "pde_present s' d i = pde_present s d i" "pt_frame s' d i = pt_frame s d i" by (simp_all add: V)
  show r: "reserved D s' p = reserved D s p" for p by (simp add: reserved_def V f)
  show "keeps D t s' = keeps D t s" "keeps D s' u = keeps D s u" by (simp_all add: keeps_def V r e m)
  show "upd_view D t s' d i j r = upd_view D t s d i j r" "same_view D t s' = same_view D t s"
    by (simp_all add: upd_view_def same_view_def V)
  show "pages s' p = pages s p" "pmem s' p = pmem s p" "npages s' = npages s" by (simp_all add: e m)
qed

lemma mem_eq_writes:
  "mem_eq s (upd_env e g s)" "mem_eq s (s\<lparr>cr3 := x\<rparr>)" "mem_eq s (s\<lparr>curenv := c\<rparr>)"
  "mem_eq s (s\<lparr>env_free_list := l\<rparr>)" "mem_eq s (s\<lparr>cpu_status := st\<rparr>)" "mem_eq s (s\<lparr>kernel_locked := b\<rparr>)"
  "mem_eq s (s\<lparr>ticks := w\<rparr>)" "mem_eq s (s\<lparr>user_mem_check_addr := w\<rparr>)"
  by (simp_all add: mem_eq_def)

lemmas mem_frame [simp] =
  mem_eq_cong [OF mem_eq_writes(1)] mem_eq_cong [OF mem_eq_writes(2)] mem_eq_cong [OF mem_eq_writes(3)]
  mem_eq_cong [OF mem_eq_writes(4)] mem_eq_cong [OF mem_eq_writes(5)] mem_eq_cong [OF mem_eq_writes(6)]
  mem_eq_cong [OF mem_eq_writes(7)] mem_eq_cong [OF mem_eq_writes(8)]

section \<open>A new page directory\<close>

definition kern_ok :: "nat set \<Rightarrow> kstate \<Rightarrow> bool" where
  "kern_ok D s \<longleftrightarrow> reserved D s (kern_pgdir s) \<and> kern_pgdir s < npages s \<and>
     mappers D s (kern_pgdir s) = {} \<and> (\<forall>i < 955. \<not> pde_present s (kern_pgdir s) i)"

text \<open>The directory \<open>env_setup_vm\<close> builds: the kernel's, with itself as the table at \<open>UVPT\<close>.\<close>

definition user_dir :: "kstate \<Rightarrow> nat \<Rightarrow> (nat \<Rightarrow> u32)" where
  "user_dir s p = (pmem s (kern_pgdir s))(957 := page2pa p OR PTE_P OR PTE_U)"

lemma env_setup_vm_eqs:
  assumes inv: "vm_inv D s" and k: "kern_ok D s"
  shows "free_pages s = [] \<Longrightarrow> env_setup_vm e s = Inr (- E_NO_MEM, s)"
    and "free_pages s = p # ps \<Longrightarrow> env_setup_vm e s =
      Inr (0, upd_env e (\<lambda>v. v\<lparr>env_pgdir := Some p\<rparr>)
                (set_page p (user_dir s p) (set_pp_ref p 1 (popped ALLOC_ZERO p s))))"
proof -
  show "free_pages s = [] \<Longrightarrow> env_setup_vm e s = Inr (- E_NO_MEM, s)"
    using page_alloc_empty [OF vm_invD(1) [OF inv]] by (simp add: env_setup_vm_def)
  assume fp: "free_pages s = p # ps"
  note A = page_alloc_Cons [OF vm_invD(1) [OF inv] fp, of ALLOC_ZERO]
  have p: "p < npages s" "pp_ref (pages s p) = 0" "p \<noteq> kern_pgdir s"
    using A(4) fp k by (auto simp: releasable_def kern_ok_def reserved_def)
  have n: "npages s \<le> 1048576" by (rule vm_invD(11) [OF inv])
  have kva: "page2kva p t = Inr (page2pa p + KERNBASE)" if "npages t = npages s" for t
    using p(1) n that by (simp add: page2kva_def KADDR_def unat_PGNUM_page2pa)
  have pad: "PADDR (page2pa p + KERNBASE) = Inr (page2pa p)"
    using PADDR_page2kva [of p s] p(1) vm_invD(13) [OF inv] kva [of s] by simp
  have "set_word p 957 v (set_page p c (upd_env e g t)) = upd_env e g (set_page p (c(957 := v)) t)" for v c g t
    by (simp add: kwrite_defs)
  then show "env_setup_vm e s =
      Inr (0, upd_env e (\<lambda>v. v\<lparr>env_pgdir := Some p\<rparr>)
                (set_page p (user_dir s p) (set_pp_ref p 1 (popped ALLOC_ZERO p s))))"
    using A(1) p by (simp add: env_setup_vm_def kva user_dir_def Let_def unat_PDX_UVPT pad)
qed

lemma user_dir_empty: "kern_ok D s \<Longrightarrow> i < 955 \<Longrightarrow> user_dir s p i AND PTE_P = 0"
  by (simp add: user_dir_def kern_ok_def pde_present_def)

lemma new_dir:
  assumes inv: "vm_inv D s" and k: "kern_ok D s" and fp: "free_pages s = p # ps"
  defines "t \<equiv> set_page p (user_dir s p) (set_pp_ref p 1 (popped ALLOC_ZERO p s))"
  shows "vm_inv (insert p D) t" and "kern_ok (insert p D) t" and "free_pages t = ps"
    and "same_view D s t" and "\<And>i. i < 955 \<Longrightarrow> \<not> pde_present t p i" and "kern_same s t"
    and "\<And>q. reserved D s q \<Longrightarrow> pmem t q = pmem s q"
    and "\<And>q. mappable D s q \<Longrightarrow> mappable (insert p D) t q"
proof -
  note A = page_alloc_Cons [OF vm_invD(1) [OF inv] fp, of ALLOC_ZERO]
  have pf: "p \<in> set (free_pages s)" using fp by simp
  have p: "p \<notin> D" "p \<notin> tables D s" "p < npages s" "p \<notin> set ps"
    using vm_invD(6,8) [OF inv, of p] pf A(4) alloc_inv_distinct [OF vm_invD(1) [OF inv]] fp
    by (auto simp: releasable_def)
  have pm: "pmem t = (pmem s)(p := user_dir s p)" by (auto simp: t_def)
  have pg: "pages t = (pages s)(p := \<lparr>pp_link = None, pp_ref = 1\<rparr>)" by (auto simp: t_def fun_eq_iff)
  show f: "free_pages t = ps" using A(3) by (simp add: t_def)
  have ai: "alloc_inv t" using alloc_inv_set_pp_ref [OF A(2), of p 1] A(3) p(4) by (simp add: t_def)
  show np: "\<And>i. i < 955 \<Longrightarrow> \<not> pde_present t p i"
    using user_dir_empty [OF k] by (simp add: pde_present_def pm)
  have D: "pde_present t d i = pde_present s d i" "pt_frame t d i = pt_frame s d i" if "d \<in> D" for d i
    using that p(1) by (auto simp: pde_present_def pt_frame_def pm)
  have pt: "pt_frame s d i \<noteq> p" if "d \<in> D" "i < 955" "pde_present s d i" for d i
    using tablesI [OF that] p(2) by auto
  have at: "pte_at t d i j = pte_at s d i j" if "d \<in> D" "i < 955" for d i j
    using that pt by (auto simp: pte_at_def D pm)
  show sv: "same_view D s t" by (simp add: same_view_def at)
  have tb: "tables (insert p D) t = tables D s"
    unfolding tables_def using D np by (auto; metis)
  have mp: "mappers (insert p D) t q = mappers D s q" for q
    using at np by (auto simp: mappers_def) (auto simp: pte_at_def split: if_splits)
  show "kern_same s t" by (simp add: kern_same_def t_def)
  show m: "\<And>q. mappable D s q \<Longrightarrow> mappable (insert p D) t q"
    using fp p by (auto simp: mappable_def mp tb f pg) (simp add: t_def)
  show r: "\<And>q. reserved D s q \<Longrightarrow> pmem t q = pmem s q" using pf by (auto simp: reserved_def pm)
  have kp: "kern_pgdir t = kern_pgdir s" "npages t = npages s" "pse_support t = pse_support s" by (simp_all add: t_def)
  have kne: "kern_pgdir s \<noteq> p" using k pf by (auto simp: kern_ok_def reserved_def)
  show "kern_ok (insert p D) t" using k fp kne
    unfolding kern_ok_def reserved_def kp mp tb f by (auto simp: pde_present_def pm)
  have un: "d = d' \<and> i = i'" if "d \<in> insert p D" "i < 955" "pde_present t d i" "d' \<in> insert p D" "i' < 955"
      "pde_present t d' i'" "pt_frame t d i = pt_frame t d' i'" for d i d' i'
  proof -
    have "d \<in> D" "d' \<in> D" using that np by auto
    then show ?thesis using that D tables_okD(2) [OF vm_invD(4) [OF inv], of d i d' i'] by simp
  qed
  have ok: "tables_ok (insert p D) t"
    unfolding tables_ok_def tb using tables_okD(1) [OF vm_invD(4) [OF inv]] p(2) un by blast
  have fr: "\<forall>f \<in> insert p D \<union> tables D s. f < npages s \<and> f \<notin> set ps \<and> pp_ref (pages t f) = 1"
    using vm_invD(5-8,12) [OF inv] p fp by (auto simp: pg)
  have lk: "\<forall>q. q \<notin> set ps \<longrightarrow> pp_link (pages t q) = None"
    using vm_invD(10) [OF inv] fp by (auto simp: pg)
  show "vm_inv (insert p D) t"
    unfolding vm_inv_def tb f kp mp using ai ok fr lk m vm_invD(2,3,9) [OF inv] by simp
qed

section \<open>Taking down an address space\<close>

lemma dir_frame_cong:
  assumes "\<forall>d \<in> D. pmem s' d = pmem s d"
  shows "tables D s' = tables D s" and "d \<in> D \<Longrightarrow> pde_present s' d i = pde_present s d i"
    and "d \<in> D \<Longrightarrow> pt_frame s' d i = pt_frame s d i"
  using assms by (auto simp: tables_def pde_present_def pt_frame_def; metis)+

lemma PGADDR_slot:
  assumes "i < 955" and "j < 1024"
  shows "PGADDR (of_nat i) (of_nat j) 0 < UTOP" and "unat (PDX (PGADDR (of_nat i) (of_nat j) 0)) = i"
    and "unat (PTX (PGADDR (of_nat i) (of_nat j) 0)) = j"
proof -
  have u: "unat (PGADDR (of_nat i) (of_nat j) 0) = i * 4194304 + j * 4096"
    using assms by (intro unat_PGADDR) simp_all
  show d: "unat (PDX (PGADDR (of_nat i) (of_nat j) 0)) = i" using assms by (simp add: unat_PDX u)
  have "(i * 4194304 + j * 4096) div 4096 = i * 1024 + j" by simp
  then show "unat (PTX (PGADDR (of_nat i) (of_nat j) 0)) = j" using assms by (simp add: unat_PTX u)
  show "PGADDR (of_nat i) (of_nat j) 0 < UTOP" using d assms(1) by (simp add: user_va_iff)
qed

definition shrinks :: "nat set \<Rightarrow> kstate \<Rightarrow> kstate \<Rightarrow> bool" where
  "shrinks D s s' \<longleftrightarrow> kern_same s s' \<and> keeps D s s' \<and>
     (\<forall>p. p \<notin> D \<and> p \<notin> tables D s \<longrightarrow> pmem s' p = pmem s p) \<and> tables D s' \<subseteq> tables D s \<and>
     (\<forall>p. mappers D s' p \<subseteq> mappers D s p)"

lemma shrinks_refl: "shrinks D s s"
  by (simp add: shrinks_def)

lemma shrinks_trans:
  assumes a: "shrinks D s s1" and b: "shrinks D s1 s2"
  shows "shrinks D s s2"
proof -
  have "keeps D s s2"
  proof (rule keeps_trans)
    show "keeps D s s1" "keeps D s1 s2" using a b by (simp_all add: shrinks_def)
    show "reserved D s1 p \<or> pmem s2 p = pmem s1 p" if "reserved D s p" for p
      using that a b by (auto simp: shrinks_def reserved_def)
    show "mappers D s1 p = {}" if "mappers D s p = {}" for p
      using that a unfolding shrinks_def by (metis subset_empty)
  qed
  moreover have "\<forall>p. p \<notin> D \<and> p \<notin> tables D s \<longrightarrow> pmem s2 p = pmem s p"
    using a b unfolding shrinks_def by auto
  ultimately show ?thesis using a b kern_same_trans [of s s1 s2] unfolding shrinks_def by blast
qed

lemma unmap_ptes_spec:
  assumes d: "d \<in> D" "i < 955"
  shows "vm_inv D s \<Longrightarrow> pde_present s d i \<Longrightarrow> set js \<subseteq> {..<1024} \<Longrightarrow>
    \<exists>s'. unmap_ptes js d i (pt_frame s d i) s = Inr s' \<and> vm_inv D s' \<and> shrinks D s s' \<and>
      (\<forall>d' \<in> D. pmem s' d' = pmem s d') \<and>
      (\<forall>d' \<in> D. \<forall>i' < 955. \<forall>j'. pte_at s' d' i' j' =
         (if d' = d \<and> i' = i \<and> j' \<in> set js then None else pte_at s d' i' j'))"
proof (induction js arbitrary: s)
  case Nil
  then show ?case by (simp add: shrinks_refl)
next
  case (Cons j js)
  have j: "j < 1024" using Cons.prems by simp
  let ?va = "PGADDR (of_nat i) (of_nat j) 0"
  note P = PGADDR_slot [OF d(2) j]
  have "\<exists>s1. (if pmem s (pt_frame s d i) j AND PTE_P \<noteq> 0 then page_remove d ?va s else Inr s) = Inr s1 \<and>
      vm_inv D s1 \<and> shrinks D s s1 \<and> (\<forall>d' \<in> D. pmem s1 d' = pmem s d') \<and> upd_view D s s1 d i j None"
  proof (cases "pmem s (pt_frame s d i) j AND PTE_P = 0")
    case True
    then show ?thesis using Cons.prems(1) by (auto simp: shrinks_refl upd_view_def pte_at_def)
  next
    case False
    obtain s1 where s1: "page_remove d ?va s = Inr s1" "vm_inv D s1" "kern_same s s1" "upd_view D s s1 d i j None"
        "\<forall>p. p \<notin> tables D s \<longrightarrow> pmem s1 p = pmem s p" "keeps D s s1"
      using page_remove_spec [OF Cons.prems(1) d(1) P(1)] P(2,3) by auto
    have D: "\<forall>d' \<in> D. pmem s1 d' = pmem s d'"
      using s1(5) tables_okD(1) [OF vm_invD(4) [OF Cons.prems(1)]] by blast
    have "shrinks D s s1"
      unfolding shrinks_def using s1(3,5,6) dir_frame_cong(1) [OF D] mappers_upd_view [OF s1(4) d j] by auto
    then show ?thesis using False s1 D by auto
  qed
  then obtain s1 where s1: "(if pmem s (pt_frame s d i) j AND PTE_P \<noteq> 0 then page_remove d ?va s else Inr s) = Inr s1"
      "vm_inv D s1" "shrinks D s s1" "\<forall>d' \<in> D. pmem s1 d' = pmem s d'" "upd_view D s s1 d i j None" by blast
  have fr: "pde_present s1 d i" "pt_frame s1 d i = pt_frame s d i"
    using dir_frame_cong(2,3) [OF s1(4) d(1)] Cons.prems(2) by simp_all
  obtain s' where s': "unmap_ptes js d i (pt_frame s1 d i) s1 = Inr s'" "vm_inv D s'" "shrinks D s1 s'"
      "\<forall>d' \<in> D. pmem s' d' = pmem s1 d'" "\<forall>d' \<in> D. \<forall>i' < 955. \<forall>j'. pte_at s' d' i' j' =
         (if d' = d \<and> i' = i \<and> j' \<in> set js then None else pte_at s1 d' i' j')"
    using Cons.IH [OF s1(2) fr(1)] Cons.prems(3) by auto
  have "unmap_ptes (j # js) d i (pt_frame s d i) s = Inr s'" using s1(1) s'(1) fr(2) by simp
  then show ?case using s'(2-5) shrinks_trans [OF s1(3) s'(3)] s1(4,5) by (auto simp: upd_view_def)
qed

text \<open>An empty page table is unhooked from its directory and its frame is freed.\<close>

lemma drop_table:
  assumes inv: "vm_inv D s" and d: "d \<in> D" "i < 955" "pde_present s d i"
    and em: "\<And>j. j < 1024 \<Longrightarrow> pte_at s d i j = None"
  defines "t \<equiv> pt_frame s d i" and "s2 \<equiv> set_word d i 0 s"
  shows "\<exists>s'. page_decref t s2 = Inr s' \<and> vm_inv D s' \<and> shrinks D s s' \<and>
     (\<forall>d' \<in> D. pmem s' d' = (if d' = d then (pmem s d)(i := 0) else pmem s d')) \<and>
     (\<forall>d' \<in> D. \<forall>i' < 955. \<forall>j' < 1024. pte_at s' d' i' j' = pte_at s d' i' j')"
proof -
  have tt: "t \<in> tables D s" unfolding t_def by (rule tablesI [OF d])
  have tf: "t < npages s" "t \<notin> set (free_pages s)" "pp_ref (pages s t) = 1" "t \<notin> D"
    using vm_invD(7,8,12) [OF inv, of t] tt tables_okD(1) [OF vm_invD(4) [OF inv]] by auto
  have lk: "pp_link (pages s t) = None" using vm_invD(10) [OF inv tf(2)] .
  obtain s' where s': "page_decref t s2 = Inr s'" "alloc_inv s'" "free_pages s' = t # free_pages s"
      "pages s' = (pages s)(t := \<lparr>pp_link = page_free_list s, pp_ref = 0\<rparr>)" "pmem s' = pmem s2"
      "npages s' = npages s" "kern_same s s'"
    using page_decref_last [of s2 t] vm_invD(1) [OF inv] tf lk by (auto simp: s2_def kern_same_def)
  have pm: "pmem s' = (pmem s)(d := (pmem s d)(i := 0))" by (simp add: s'(5) s2_def)
  have pde: "pde_present s' d' i' \<longleftrightarrow> pde_present s d' i' \<and> (d', i') \<noteq> (d, i)"
    "\<not> (d' = d \<and> i' = i) \<Longrightarrow> pt_frame s' d' i' = pt_frame s d' i'" for d' i'
    by (auto simp: pde_present_def pt_frame_def pm)
  have tb: "tables D s' = tables D s - {t}"
    using tables_okD(2) [OF vm_invD(4) [OF inv], of d i] d pde
    by (auto simp: tables_def t_def) (metis pde(2))+
  have at: "pte_at s' d' i' j' = (if d' = d \<and> i' = i then None else pte_at s d' i' j')"
    if "d' \<in> D" "i' < 955" for d' i' j'
  proof -
    have "pde_present s d' i' \<Longrightarrow> pt_frame s d' i' \<noteq> d"
      using tablesI [OF that] tables_okD(1) [OF vm_invD(4) [OF inv]] d(1) by auto
    then show ?thesis using pde [of d' i'] by (auto simp: pte_at_def pm)
  qed
  then have at': "pte_at s' d' i' j' = pte_at s d' i' j'" if "d' \<in> D" "i' < 955" "j' < 1024" for d' i' j'
    using that em by auto
  have mp: "mappers D s' p = mappers D s p" for p using at' by (auto simp: mappers_def)
  have nm: "\<not> mappable D s t" using tt by (simp add: mappable_def)
  have ma: "mappable D s' p" if "mappable D s p" for p
    using that nm by (auto simp: mappable_def mp tb s'(3,4,6))
  have un: "tables_ok D s'" unfolding tables_ok_def tb
    using tables_okD [OF vm_invD(4) [OF inv]] pde by (auto; metis)
  have vm: "vm_inv D s'"
    unfolding vm_inv_def
  proof (intro conjI)
    show "alloc_inv s'" "finite D" "tables_ok D s'" using s'(2) vm_invD(3) [OF inv] un by simp_all
    show "pse_support s' \<noteq> 1" using s'(7) vm_invD(2) [OF inv] by (simp add: kern_same_def)
    show "\<forall>f \<in> D \<union> tables D s'. f < npages s' \<and> f \<notin> set (free_pages s') \<and> pp_ref (pages s' f) = 1"
      using vm_invD(5-8,12) [OF inv] tf(4) by (auto simp: tb s'(3,4,6))
    show "\<forall>p. mappers D s' p \<noteq> {} \<longrightarrow> mappable D s' p" using ma vm_invD(9) [OF inv] by (simp add: mp)
    show "\<forall>p. p \<notin> set (free_pages s') \<longrightarrow> pp_link (pages s' p) = None"
      using vm_invD(10) [OF inv] by (simp add: s'(3,4))
  qed
  have "keeps D s s'"
    unfolding keeps_def reserved_def tb s'(3,4) using tt d(1) by (auto simp: pm)
  then have "shrinks D s s'" unfolding shrinks_def using s'(7) d(1) by (auto simp: mp tb pm)
  then show ?thesis using s'(1) vm at' by (auto simp: pm)
qed

lemma unmap_pdes_spec:
  assumes d: "d \<in> D"
  shows "vm_inv D s \<Longrightarrow> set is \<subseteq> {..<955} \<Longrightarrow>
    \<exists>s'. unmap_pdes is d s = Inr s' \<and> vm_inv D s' \<and> shrinks D s s' \<and>
      (\<forall>i \<in> set is. \<not> pde_present s' d i) \<and> (\<forall>i. \<not> pde_present s d i \<longrightarrow> \<not> pde_present s' d i) \<and>
      (\<forall>d' \<in> D. d' \<noteq> d \<longrightarrow> (\<forall>i' < 955. \<forall>j' < 1024. pte_at s' d' i' j' = pte_at s d' i' j'))"
proof (induction "is" arbitrary: s)
  case Nil
  then show ?case by (simp add: shrinks_refl)
next
  case (Cons i "is")
  have i: "i < 955" using Cons.prems by simp
  show ?case
  proof (cases "pde_present s d i")
    case False
    then have "unmap_pdes (i # is) d s = unmap_pdes is d s" by (simp add: pde_present_def)
    then show ?thesis using Cons.IH [OF Cons.prems(1)] Cons.prems(2) False by (auto; metis)
  next
    case True
    let ?t = "pt_frame s d i"
    have tn: "?t < npages s" using vm_invD(7) [OF Cons.prems(1)] tablesI [OF d i True] by blast
    have js: "set [0..<1024] \<subseteq> {..<1024}" by auto
    obtain s1 where s1: "unmap_ptes [0..<1024] d i ?t s = Inr s1" "vm_inv D s1" "shrinks D s s1"
        "\<forall>d' \<in> D. pmem s1 d' = pmem s d'" "\<forall>d' \<in> D. \<forall>i' < 955. \<forall>j'. pte_at s1 d' i' j' =
         (if d' = d \<and> i' = i \<and> j' \<in> set [0..<1024] then None else pte_at s d' i' j')"
      using unmap_ptes_spec [OF d i Cons.prems(1) True js] by blast
    have fr: "pde_present s1 d i" "pt_frame s1 d i = ?t"
      using dir_frame_cong(2,3) [OF s1(4) d] True by simp_all
    obtain s2 where s2: "page_decref ?t (set_word d i 0 s1) = Inr s2" "vm_inv D s2" "shrinks D s1 s2"
        "\<forall>d' \<in> D. pmem s2 d' = (if d' = d then (pmem s1 d)(i := 0) else pmem s1 d')"
        "\<forall>d' \<in> D. \<forall>i' < 955. \<forall>j' < 1024. pte_at s2 d' i' j' = pte_at s1 d' i' j'"
      using drop_table [OF s1(2) d i fr(1)] s1(5) d i fr(2) by auto
    obtain s' where s': "unmap_pdes is d s2 = Inr s'" "vm_inv D s'" "shrinks D s2 s'"
        "\<forall>i \<in> set is. \<not> pde_present s' d i" "\<forall>i. \<not> pde_present s2 d i \<longrightarrow> \<not> pde_present s' d i"
        "\<forall>d' \<in> D. d' \<noteq> d \<longrightarrow> (\<forall>i' < 955. \<forall>j' < 1024. pte_at s' d' i' j' = pte_at s2 d' i' j')"
      using Cons.IH [OF s2(2)] Cons.prems(2) by auto
    have pd: "pde_present s2 d k \<longleftrightarrow> pde_present s d k \<and> k \<noteq> i" for k
      using s2(4) s1(4) d by (simp add: pde_present_def)
    have k: "Suc (unat (PTX (NOT 0))) = 1024" by (simp add: unat_PTX unsigned_minus_1_eq_mask mask_eq_exp_minus_1)
    have n1: "npages s1 = npages s" using s1(3) by (simp add: shrinks_def kern_same_def)
    have pa: "pa2page (PTE_ADDR (pmem s d i)) (set_word d i 0 s1) = Inr ?t"
      using tn n1 by (simp add: pa2page_def pt_frame_def)
    have ka: "kaddr_frame (PTE_ADDR (pmem s d i)) s = Inr ?t"
      using tn by (simp add: kaddr_frame_ok pt_frame_def)
    have "unmap_pdes (i # is) d s = Inr s'"
      using True s1(1) s2(1) s'(1) unfolding unmap_pdes.simps k by (simp add: pde_present_def Let_def ka pa del: upt_Suc)
    moreover have "shrinks D s s'" using shrinks_trans [OF shrinks_trans [OF s1(3) s2(3)] s'(3)] .
    moreover have "\<forall>d' \<in> D. d' \<noteq> d \<longrightarrow> (\<forall>i' < 955. \<forall>j' < 1024. pte_at s' d' i' j' = pte_at s d' i' j')"
      using s'(6) s2(5) s1(5) by simp
    ultimately show ?thesis using s'(2,4,5) pd by auto
  qed
qed

lemma drop_dir:
  assumes inv: "vm_inv D s" and d: "d \<in> D" and em: "\<And>i. i < 955 \<Longrightarrow> \<not> pde_present s d i"
  shows "\<exists>s'. page_decref d s = Inr s' \<and> vm_inv (D - {d}) s' \<and> kern_same s s' \<and> pmem s' = pmem s \<and>
     free_pages s' = d # free_pages s \<and> (\<forall>p. p \<noteq> d \<longrightarrow> pages s' p = pages s p)"
proof -
  have df: "d < npages s" "d \<notin> set (free_pages s)" "pp_ref (pages s d) = 1"
    using vm_invD(5,6,12) [OF inv] d by auto
  have lk: "pp_link (pages s d) = None" using vm_invD(10) [OF inv df(2)] .
  obtain s' where s': "page_decref d s = Inr s'" "alloc_inv s'" "free_pages s' = d # free_pages s"
      "pages s' = (pages s)(d := \<lparr>pp_link = page_free_list s, pp_ref = 0\<rparr>)" "pmem s' = pmem s"
      "npages s' = npages s" "kern_same s s'"
    using page_decref_last [of s d] vm_invD(1) [OF inv] df lk by (auto simp: kern_same_def)
  note V = view_cong [OF s'(5)]
  have tb: "tables (D - {d}) s' = tables D s" using em unfolding tables_def V by blast
  have "pte_at s d i j = None" if "i < 955" for i j using em that by (simp add: pte_at_def)
  then have mp: "mappers (D - {d}) s' p = mappers D s p" for p by (auto simp: mappers_def V)
  have nt: "d \<notin> tables D s" using tables_okD(1) [OF vm_invD(4) [OF inv]] d by auto
  have un: "tables_ok (D - {d}) s'"
    unfolding tables_ok_def V tb [unfolded V] using tables_okD [OF vm_invD(4) [OF inv]] by blast
  have ma: "mappable (D - {d}) s' p" if "mappable D s p" for p
    using that d by (auto simp: mappable_def mp tb s'(3,4,6))
  have "vm_inv (D - {d}) s'"
    unfolding vm_inv_def
  proof (intro conjI)
    show "alloc_inv s'" "finite (D - {d})" "tables_ok (D - {d}) s'" using s'(2) vm_invD(3) [OF inv] un by simp_all
    show "pse_support s' \<noteq> 1" using s'(7) vm_invD(2) [OF inv] by (simp add: kern_same_def)
    show "\<forall>f \<in> (D - {d}) \<union> tables (D - {d}) s'. f < npages s' \<and> f \<notin> set (free_pages s') \<and> pp_ref (pages s' f) = 1"
      using vm_invD(5-8,12) [OF inv] nt by (auto simp: tb s'(3,4,6))
    show "\<forall>p. mappers (D - {d}) s' p \<noteq> {} \<longrightarrow> mappable (D - {d}) s' p"
      using ma vm_invD(9) [OF inv] by (simp add: mp)
    show "\<forall>p. p \<notin> set (free_pages s') \<longrightarrow> pp_link (pages s' p) = None"
      using vm_invD(10) [OF inv] by (simp add: s'(3,4))
  qed
  with s' show ?thesis by simp
qed

lemma kern_ok_shrinks:
  assumes k: "kern_ok D s" and sh: "shrinks D s s'"
  shows "kern_ok D s'"
proof -
  have ks: "kern_pgdir s' = kern_pgdir s" "npages s' = npages s" using sh by (simp_all add: shrinks_def kern_same_def)
  have m: "mappers D s' (kern_pgdir s) = {}" using sh k unfolding shrinks_def kern_ok_def by (metis subset_empty)
  have "reserved D s' (kern_pgdir s)" "pmem s' (kern_pgdir s) = pmem s (kern_pgdir s)"
    using sh k m by (auto simp: shrinks_def keeps_def kern_ok_def)
  then show ?thesis using k m unfolding kern_ok_def ks by (simp add: pde_present_def)
qed

section \<open>Environment identifiers\<close>

lemma generation_div: "unat (w AND NOT (of_nat NENV - 1) :: u32) = unat w div 1024 * 1024"
proof -
  have "w AND NOT (of_nat NENV - 1) = push_bit 10 (drop_bit 10 w)"
    by (rule bit_word_eqI) (auto simp: NENV_def mask_numerals bit_simps)
  also have "unat \<dots> = unat (drop_bit 10 w) * 1024"
  proof -
    have "unat (drop_bit 10 w) < 4194304"
      using unat_u32_less [of w] by (simp add: unat_drop_bit_u32 less_mult_imp_div_less)
    then show ?thesis by (simp add: push_bit_eq_mult unat_word_ariths)
  qed
  finally show ?thesis by (simp add: unat_drop_bit_u32)
qed

lemma sint_pos_iff: "0 < sint (w :: u32) \<longleftrightarrow> 0 < unat w \<and> unat w < 2147483648"
proof -
  have shift: "(x + 2147483648) mod 4294967296 = (if x < 2147483648 then x + 2147483648 else x - 2147483648)"
    if "0 \<le> x" "x < 4294967296" for x :: int
    using that mod_add_self2 [of "x - 2147483648" 4294967296] by (auto simp: mod_pos_pos_trivial add.commute)
  have "sint w = (uint w + 2147483648) mod 4294967296 - 2147483648"
    by (simp add: sint_uint signed_take_bit_eq_take_bit_shift take_bit_eq_mod)
  then have "sint w = (if uint w < 2147483648 then uint w else uint w - 4294967296)"
    using shift [of "uint w"] uint_lt2p [of w] by (simp split: if_splits)
  then have "0 < sint w \<longleftrightarrow> 0 < uint w \<and> uint w < 2147483648" using uint_lt2p [of w] by auto
  moreover have "uint w = int (unat w)" by simp
  ultimately show ?thesis by linarith
qed

lemma unat_or_low:
  fixes a :: u32
  assumes "unat a mod 1024 = 0" and e: "e < 1024"
  shows "unat (a OR of_nat e) = unat a + e"
proof -
  have "a AND NOT (of_nat NENV - 1) = a"
    using assms(1) by (simp add: word_unat_eq_iff generation_div minus_mod_eq_div_mult [symmetric])
  moreover have "a AND NOT (of_nat NENV - 1) = push_bit 10 (drop_bit 10 a)"
    by (rule bit_word_eqI) (auto simp: NENV_def mask_numerals bit_simps)
  ultimately have a: "a = push_bit 10 (drop_bit 10 a)" by simp
  have el: "(of_nat e :: u32) = take_bit 10 (of_nat e)"
    using e by (simp add: word_unat_eq_iff take_bit_eq_mod unat_mod unat_of_nat)
  have "a AND of_nat e = 0"
    by (subst a, subst el, rule bit_word_eqI) (auto simp: bit_simps)
  then have "a OR of_nat e = a + of_nat e" by (rule disjunctive_add_eq_or [symmetric])
  moreover have "unat a + e < 4294967296"
  proof -
    obtain m where m: "unat a = 1024 * m" using assms(1) by (auto simp: mod_eq_0_iff_dvd elim!: dvdE)
    then have "m \<le> 4194303" using unat_u32_less [of a] by simp
    then show ?thesis using m e by simp
  qed
  ultimately show ?thesis using e by (simp add: unat_word_ariths unat_of_nat)
qed

lemma new_env_id:
  assumes e: "e < NENV" and old: "old = 0 \<or> ENVX old = e \<and> 0 < sint old"
  shows "ENVX (new_env_id old e) = e" and "0 < sint (new_env_id old e)" and "new_env_id old e \<noteq> old"
proof -
  define g where "g = (old + push_bit ENVGENSHIFT 1) AND NOT (of_nat NENV - 1)"
  define h where "h = (if sint g \<le> 0 then 4096 else g)"
  have ex: "ENVX w = unat w mod 1024" for w
    using unat_and_mask_u32 [of w 10] by (simp add: ENVX_def NENV_def mask_numerals)
  have e2: "e < 1024" using e by (simp add: NENV_def)
  have o: "unat old < 2147483648" "unat old mod 1024 = e \<or> unat old = 0"
    using old by (auto simp: sint_pos_iff ex)
  have g: "unat g = (unat old + 4096) div 1024 * 1024"
    unfolding g_def generation_div using o(1) by (simp add: unat_word_ariths ENVGENSHIFT_def)
  have h: "unat h = (if unat old + 4096 < 2147483648 then (unat old + 4096) div 1024 * 1024 else 4096)"
    unfolding h_def using sint_pos_iff [of g] g by (auto simp: not_less)
  have h10: "unat h mod 1024 = 0" by (simp add: h)
  have id: "new_env_id old e = h OR of_nat e"
    by (simp add: new_env_id_def h_def g_def Let_def ENVGENSHIFT_def)
  have u: "unat (new_env_id old e) = unat h + e"
    unfolding id using h10 e2 by (rule unat_or_low)
  show "ENVX (new_env_id old e) = e" 
    unfolding ex u using h10 e2 by (auto simp: mod_eq_0_iff_dvd elim!: dvdE)
  define q r where "q = unat old div 1024" and "r = unat old mod 1024"
  have qr: "unat old = 1024 * q + r" "r < 1024" "r = e \<or> unat old = 0" using o(2) by (auto simp: q_def r_def)
  have "unat old + 4096 = r + (q + 4) * 1024" using qr(1) by simp
  then have "(unat old + 4096) div 1024 = q + 4" using qr(2) by simp
  then have h2: "unat h = (if unat old + 4096 < 2147483648 then (q + 4) * 1024 else 4096)"
    unfolding h by simp
  have "unat h + e < 2147483648 \<and> 0 < unat h"
  proof (cases "unat old + 4096 < 2147483648")
    case True
    then have "(q + 4) * 1024 < 2097152 * 1024" using qr(1) by simp
    then have "q + 4 \<le> 2097151" by simp
    then have "(q + 4) * 1024 \<le> 2147482624" by simp
    then show ?thesis using True h2 e2 by simp
  next
    case False
    then show ?thesis using h2 e2 by simp
  qed
  then show "0 < sint (new_env_id old e)" unfolding sint_pos_iff u by simp
  have "unat h + e \<noteq> unat old"
  proof (cases "unat old + 4096 < 2147483648")
    case True
    then show ?thesis using h2 qr(1,3) e2 by auto
  next
    case False
    then show ?thesis using h2 e2 by simp
  qed
  then have "unat (new_env_id old e) \<noteq> unat old" unfolding u .
  then show "new_env_id old e \<noteq> old" by auto
qed

end
