(* ===== verification/EnvInv.thy ===== *)
theory EnvInv
  imports Envs
begin

text \<open>
  The invariant \<open>kinv\<close> that the environment table, the page tables of the live environments,
  the reference counters and the free lists satisfy together, and its preservation by the
  operations of \<^verbatim>\<open>kern/env.c\<close>.
\<close>


section \<open>The invariant of the environment table\<close>

definition free_envs :: "kstate \<Rightarrow> nat list" where
  "free_envs s = collect NENV (\<lambda>e. env_link (envs s e)) (env_free_list s)"

definition live :: "kstate \<Rightarrow> nat \<Rightarrow> bool" where
  "live s e \<longleftrightarrow> e < NENV \<and> env_status (envs s e) \<noteq> ENV_FREE"

definition dirs :: "kstate \<Rightarrow> nat set" where
  "dirs s = {d. \<exists>e. live s e \<and> env_pgdir (envs s e) = Some d}"

definition env_inv :: "kstate \<Rightarrow> bool" where
  "env_inv s \<longleftrightarrow>
     chain (\<lambda>e. env_link (envs s e)) (env_free_list s) (free_envs s) \<and>
     set (free_envs s) = {e. e < NENV \<and> \<not> live s e} \<and>
     (\<forall>e < NENV. env_id (envs s e) = 0 \<or> ENVX (env_id (envs s e)) = e \<and> 0 < sint (env_id (envs s e))) \<and>
     (\<forall>e. live s e \<longrightarrow> env_id (envs s e) \<noteq> 0 \<and> env_pgdir (envs s e) \<noteq> None) \<and>
     (\<forall>e e'. live s e \<and> live s e' \<and> env_pgdir (envs s e) = env_pgdir (envs s e') \<longrightarrow> e = e')"

text \<open>The invariant of the kernel: the table, the address spaces of the live environments, the kernel's own directory.\<close>

definition kinv :: "kstate \<Rightarrow> bool" where
  "kinv s \<longleftrightarrow> env_inv s \<and> vm_inv (dirs s) s \<and> kern_ok (dirs s) s"

lemma env_invD:
  assumes "env_inv s"
  shows "chain (\<lambda>e. env_link (envs s e)) (env_free_list s) (free_envs s)"
    "set (free_envs s) = {e. e < NENV \<and> \<not> live s e}"
    "e < NENV \<Longrightarrow> env_id (envs s e) = 0 \<or> ENVX (env_id (envs s e)) = e \<and> 0 < sint (env_id (envs s e))"
    "live s e \<Longrightarrow> env_id (envs s e) \<noteq> 0" "live s e \<Longrightarrow> \<exists>d. env_pgdir (envs s e) = Some d"
    "live s e \<Longrightarrow> live s e' \<Longrightarrow> env_pgdir (envs s e) = env_pgdir (envs s e') \<Longrightarrow> e = e'"
proof -
  note i = assms [unfolded env_inv_def]
  show "chain (\<lambda>e. env_link (envs s e)) (env_free_list s) (free_envs s)" using i by (elim conjE)
  show "set (free_envs s) = {e. e < NENV \<and> \<not> live s e}" using i by (elim conjE)
  show "e < NENV \<Longrightarrow> env_id (envs s e) = 0 \<or> ENVX (env_id (envs s e)) = e \<and> 0 < sint (env_id (envs s e))"
    using i by (elim conjE) simp
  show "live s e \<Longrightarrow> env_id (envs s e) \<noteq> 0" using i by (elim conjE) simp
  show "live s e \<Longrightarrow> \<exists>d. env_pgdir (envs s e) = Some d" using i by (elim conjE) simp
  show "live s e \<Longrightarrow> live s e' \<Longrightarrow> env_pgdir (envs s e) = env_pgdir (envs s e') \<Longrightarrow> e = e'"
    using i by (elim conjE) (drule spec, drule spec, erule mp, simp)
qed

lemma kinvD:
  assumes "kinv s"
  shows "env_inv s" "vm_inv (dirs s) s" "kern_ok (dirs s) s" "alloc_inv s"
  using assms vm_invD(1) [of "dirs s" s] by (simp_all add: kinv_def)

lemma dirsI: "live s e \<Longrightarrow> env_pgdir (envs s e) = Some d \<Longrightarrow> d \<in> dirs s"
  by (auto simp: dirs_def)

lemma ENVX_mod: "ENVX w = unat w mod 1024"
  using unat_and_mask_u32 [of w 10] by (simp add: ENVX_def NENV_def mask_numerals)

lemma ENVX_less: "ENVX w < NENV"
  by (simp add: ENVX_mod NENV_def)

lemma free_envs_eqI:
  assumes "chain (\<lambda>e. env_link (envs s e)) (env_free_list s) xs" and "\<forall>e \<in> set xs. e < NENV"
  shows "free_envs s = xs"
  unfolding free_envs_def
  using assms by (intro collect_chain distinct_bounded_length chain_distinct) auto

lemma env_cong:
  assumes "envs s' = envs s" and "env_free_list s' = env_free_list s"
  shows "free_envs s' = free_envs s" "live s' e = live s e" "dirs s' = dirs s" "env_inv s' = env_inv s"
proof -
  show f: "free_envs s' = free_envs s" and l: "live s' e = live s e" for e
    using assms by (simp_all add: free_envs_def live_def)
  show "dirs s' = dirs s" "env_inv s' = env_inv s" using assms by (simp_all add: dirs_def env_inv_def f l)
qed

text \<open>Updates that leave the table's structure alone.\<close>

definition soft :: "(Env \<Rightarrow> Env) \<Rightarrow> Env \<Rightarrow> bool" where
  "soft g v \<longleftrightarrow> env_link (g v) = env_link v \<and> env_id (g v) = env_id v \<and> env_pgdir (g v) = env_pgdir v \<and>
     (env_status (g v) = ENV_FREE \<longleftrightarrow> env_status v = ENV_FREE)"

lemma soft_cong:
  assumes "soft g (envs s e)"
  shows "free_envs (upd_env e g s) = free_envs s" "live (upd_env e g s) e' = live s e'"
    "dirs (upd_env e g s) = dirs s" "env_inv (upd_env e g s) = env_inv s"
    "env_id (envs (upd_env e g s) e') = env_id (envs s e')"
    "env_pgdir (envs (upd_env e g s) e') = env_pgdir (envs s e')"
proof -
  let ?s = "upd_env e g s"
  have s: "env_link (envs ?s x) = env_link (envs s x)" "env_id (envs ?s x) = env_id (envs s x)"
    "env_pgdir (envs ?s x) = env_pgdir (envs s x)"
    "env_status (envs ?s x) = ENV_FREE \<longleftrightarrow> env_status (envs s x) = ENV_FREE" for x
    using assms by (simp_all add: soft_def)
  show f: "free_envs ?s = free_envs s" and l: "live ?s e' = live s e'" for e'
    unfolding free_envs_def live_def s by simp_all
  show "dirs ?s = dirs s" "env_inv ?s = env_inv s"
    unfolding dirs_def env_inv_def f l s by simp_all
  show "env_id (envs ?s e') = env_id (envs s e')" "env_pgdir (envs ?s e') = env_pgdir (envs s e')"
    by (simp_all only: s)
qed

lemma kinv_soft: "soft g (envs s e) \<Longrightarrow> kinv s \<Longrightarrow> kinv (upd_env e g s)"
  by (simp add: kinv_def soft_cong kern_ok_def)

lemma kinv_cong:
  assumes "mem_eq s s'" "envs s' = envs s" "env_free_list s' = env_free_list s" "kern_pgdir s' = kern_pgdir s"
  shows "kinv s' = kinv s"
  by (simp add: kinv_def env_cong [OF assms(2,3)] mem_eq_cong [OF assms(1)] kern_ok_def assms(4))

lemma kinv_writes [simp]:
  "kinv (s\<lparr>cr3 := x\<rparr>) = kinv s" "kinv (s\<lparr>curenv := c\<rparr>) = kinv s" "kinv (s\<lparr>cpu_status := st\<rparr>) = kinv s"
  "kinv (s\<lparr>kernel_locked := b\<rparr>) = kinv s" "kinv (s\<lparr>ticks := w\<rparr>) = kinv s" "kinv (s\<lparr>user_mem_check_addr := w\<rparr>) = kinv s"
  by (rule kinv_cong; simp add: mem_eq_def)+

lemma kern_ok_keeps:
  assumes k: "kern_ok D s" and "keeps D s s'" "kern_same s s'" and m: "mappers D s' (kern_pgdir s) = {}"
  shows "kern_ok D s'"
  using assms unfolding kern_ok_def keeps_def kern_same_def by (simp add: pde_present_def)

section \<open>Initialisation\<close>

lemma fold_init_env:
  "envs (fold init_env [0..<n] s) = (\<lambda>e. if e < n
     then (envs s e)\<lparr>env_status := ENV_FREE, env_id := 0, env_link := Some (e + 1)\<rparr> else envs s e)"
  "env_free_list (fold init_env [0..<n] s) = env_free_list s"
  by (induction n) (auto simp: init_env_def fun_eq_iff less_Suc_eq)

lemma chain_upt:
  assumes "\<And>e. e < n \<Longrightarrow> link e = (if Suc e < n then Some (Suc e) else None)" and "k < n"
  shows "chain link (Some k) [k..<n]"
  using assms(2)
proof (induction "n - k" arbitrary: k)
  case 0
  then show ?case by simp
next
  case (Suc m)
  show ?case
  proof (cases "Suc k < n")
    case True
    then show ?thesis using Suc assms(1) [of k] by (simp add: upt_conv_Cons)
  next
    case False
    then have "n = Suc k" using Suc.prems by simp
    then show ?thesis using assms(1) [of k] by simp
  qed
qed

lemma env_init_spec:
  assumes "env_status (envs s (NENV - 1)) = ENV_FREE"
  shows "env_inv (env_init s)" and "free_envs (env_init s) = [0..<NENV]" and "dirs (env_init s) = {}"
proof -
  let ?s = "env_init s"
  have N: "0 < NENV" by (simp add: NENV_def)
  have e: "envs ?s = (\<lambda>e. if e < NENV - 1
       then (envs s e)\<lparr>env_status := ENV_FREE, env_id := 0, env_link := Some (e + 1)\<rparr>
       else if e = NENV - 1 then (envs s e)\<lparr>env_link := None, env_id := 0\<rparr> else envs s e)"
    by (auto simp: env_init_def Let_def fold_init_env)
  have fl: "env_free_list ?s = Some 0" by (simp add: env_init_def Let_def fold_init_env)
  have ch: "chain (\<lambda>e. env_link (envs ?s e)) (env_free_list ?s) [0..<NENV]"
    unfolding fl by (rule chain_upt) (use N in \<open>auto simp: e\<close>)
  then show f: "free_envs ?s = [0..<NENV]" by (rule free_envs_eqI) simp
  have "env_status (envs ?s e) = ENV_FREE \<and> env_id (envs ?s e) = 0" if "e < NENV" for e
    using that assms by (cases "e = NENV - 1") (auto simp: e)
  then have l: "\<not> live ?s e" and i: "e < NENV \<Longrightarrow> env_id (envs ?s e) = 0" for e by (auto simp: live_def)
  then show "dirs ?s = {}" by (simp add: dirs_def)
  have "set [0..<NENV] = {e. e < NENV \<and> \<not> live ?s e}" using l by auto
  then show "env_inv ?s" unfolding env_inv_def f using ch l i by simp
qed

section \<open>Allocation\<close>

definition new_env :: "nat \<Rightarrow> u32 \<Rightarrow> nat \<Rightarrow> Env \<Rightarrow> Env" where
  "new_env e parent p v = v\<lparr>env_pgdir := Some p, env_id := new_env_id (env_id v) e,
     env_parent_id := parent, env_type := ENV_TYPE_USER, env_status := ENV_RUNNABLE, env_runs := 0,
     env_priority := 0, env_tf := fresh_tf, env_pgfault_upcall := 0, env_ipc_recving := False\<rparr>"

lemma free_list_Cons:
  assumes "env_inv s" and "env_free_list s = Some e"
  shows "\<exists>es. free_envs s = e # es \<and> chain (\<lambda>e. env_link (envs s e)) (env_link (envs s e)) es"
    and "e < NENV" and "\<not> live s e"
proof -
  obtain es where es: "free_envs s = e # es" "chain (\<lambda>e. env_link (envs s e)) (env_link (envs s e)) es"
    using env_invD(1) [OF assms(1)] assms(2) by (cases "free_envs s") auto
  then show "\<exists>es. free_envs s = e # es \<and> chain (\<lambda>e. env_link (envs s e)) (env_link (envs s e)) es" by blast
  have "e \<in> set (free_envs s)" using es(1) by simp
  then show "e < NENV" "\<not> live s e" using env_invD(2) [OF assms(1)] by auto
qed

lemma env_alloc_eqs:
  assumes k: "kinv s"
  shows "env_free_list s = None \<Longrightarrow> env_alloc parent s = Inr (- E_NO_FREE_ENV, None, s)"
    and "env_free_list s = Some e \<Longrightarrow> free_pages s = [] \<Longrightarrow> env_alloc parent s = Inr (- E_NO_MEM, None, s)"
    and "env_free_list s = Some e \<Longrightarrow> free_pages s = p # ps \<Longrightarrow> env_alloc parent s =
      Inr (0, Some e, (upd_env e (new_env e parent p)
        (set_page p (user_dir s p) (set_pp_ref p 1 (popped ALLOC_ZERO p s))))
          \<lparr>env_free_list := env_link (envs s e)\<rparr>)"
proof -
  note E = env_setup_vm_eqs [OF kinvD(2,3) [OF k]]
  show "env_free_list s = None \<Longrightarrow> env_alloc parent s = Inr (- E_NO_FREE_ENV, None, s)"
    by (simp add: env_alloc_def)
  show "env_free_list s = Some e \<Longrightarrow> free_pages s = [] \<Longrightarrow> env_alloc parent s = Inr (- E_NO_MEM, None, s)"
    by (simp add: env_alloc_def E(1) E_NO_MEM_def)
  assume "env_free_list s = Some e" "free_pages s = p # ps"
  then show "env_alloc parent s =
      Inr (0, Some e, (upd_env e (new_env e parent p)
        (set_page p (user_dir s p) (set_pp_ref p 1 (popped ALLOC_ZERO p s))))
          \<lparr>env_free_list := env_link (envs s e)\<rparr>)"
    by (simp add: env_alloc_def E(2) Let_def) (simp add: upd_env_def new_env_def comp_def)
qed

lemma env_alloc_table:
  assumes inv: "env_inv s" and fl: "env_free_list s = Some e" and p: "p \<notin> dirs s"
    and s': "envs s' = (envs s)(e := new_env e parent p (envs s e))" "env_free_list s' = env_link (envs s e)"
  shows "env_inv s'" and "dirs s' = insert p (dirs s)" and "live s' x \<longleftrightarrow> live s x \<or> x = e"
proof -
  obtain es where es: "free_envs s = e # es" "chain (\<lambda>e. env_link (envs s e)) (env_link (envs s e)) es"
    using free_list_Cons(1) [OF inv fl] by blast
  note e = free_list_Cons(2,3) [OF inv fl]
  have fs: "set (free_envs s) = {x. x < NENV \<and> \<not> live s x}" by (rule env_invD(2) [OF inv])
  have d: "distinct (e # es)" using chain_distinct [OF env_invD(1) [OF inv]] es(1) by simp
  have lk: "env_link (envs s' x) = env_link (envs s x)" for x by (simp add: s'(1) new_env_def)
  have ch: "chain (\<lambda>e. env_link (envs s' e)) (env_free_list s') es" unfolding lk s'(2) using es(2) .
  have f: "free_envs s' = es" using ch by (rule free_envs_eqI) (use fs es(1) in auto)
  show l: "live s' x \<longleftrightarrow> live s x \<or> x = e" for x using e by (auto simp: live_def s'(1) new_env_def)
  show "dirs s' = insert p (dirs s)"
    using e unfolding dirs_def l by (auto simp: s'(1) new_env_def)
  have id: "ENVX (env_id (envs s' e)) = e" "0 < sint (env_id (envs s' e))" 
    using new_env_id(1,2) [OF e(1) env_invD(3) [OF inv e(1)]] by (simp_all add: s'(1) new_env_def)
  have old: "x \<noteq> e \<Longrightarrow> envs s' x = envs s x" for x by (simp add: s'(1))
  have new: "env_pgdir (envs s' e) = Some p" by (simp add: s'(1) new_env_def)
  have np: "live s x \<Longrightarrow> env_pgdir (envs s x) \<noteq> Some p" for x using p dirsI by blast
  show "env_inv s'" unfolding env_inv_def f
  proof (intro conjI allI impI)
    show "chain (\<lambda>e. env_link (envs s' e)) (env_free_list s') es" by (rule ch)
    show "set es = {x. x < NENV \<and> \<not> live s' x}" using fs es(1) d l by auto
    show "env_id (envs s' x) = 0 \<or> ENVX (env_id (envs s' x)) = x \<and> 0 < sint (env_id (envs s' x))"
      if "x < NENV" for x using that id old env_invD(3) [OF inv that] by (cases "x = e") auto
    show "env_id (envs s' x) \<noteq> 0" "env_pgdir (envs s' x) \<noteq> None" if "live s' x" for x
      using that l id(2) new old env_invD(4,5) [OF inv, of x] by (cases "x = e"; auto)+
    show "x = y" if "live s' x \<and> live s' y \<and> env_pgdir (envs s' x) = env_pgdir (envs s' y)" for x y
      using that l [of x] l [of y] new old [of x] old [of y] np [of x] np [of y] env_invD(6) [OF inv, of x y]
      by (cases "x = e"; cases "y = e") auto
  qed
qed

text \<open>The state of the CPU, which no operation on environments or memory changes.\<close>

definition cpu_same :: "kstate \<Rightarrow> kstate \<Rightarrow> bool" where
  "cpu_same s s' \<longleftrightarrow> kernel_locked s' = kernel_locked s \<and> cpu_status s' = cpu_status s \<and> ticks s' = ticks s"

lemma cpu_same_trans: "cpu_same s s1 \<Longrightarrow> cpu_same s1 s2 \<Longrightarrow> cpu_same s s2"
  by (simp add: cpu_same_def)

lemma kern_same_cpu: "kern_same s s' \<Longrightarrow> cpu_same s s'"
  by (simp add: kern_same_def cpu_same_def)

lemma env_alloc_spec:
  assumes k: "kinv s"
  shows "env_free_list s = None \<and> env_alloc parent s = Inr (- E_NO_FREE_ENV, None, s) \<or>
    env_free_list s \<noteq> None \<and> free_pages s = [] \<and> env_alloc parent s = Inr (- E_NO_MEM, None, s) \<or>
    (\<exists>e p s'. env_alloc parent s = Inr (0, Some e, s') \<and> kinv s' \<and> e < NENV \<and> \<not> live s e \<and>
       env_free_list s = Some e \<and> p \<notin> dirs s \<and> dirs s' = insert p (dirs s) \<and>
       envs s' = (envs s)(e := new_env e parent p (envs s e)) \<and> curenv s' = curenv s \<and> cr3 s' = cr3 s \<and>
       cpu_same s s' \<and> same_view (dirs s) s s' \<and> (\<forall>i < 955. \<not> pde_present s' p i) \<and>
       (\<forall>q. mappable (dirs s) s q \<longrightarrow> mappable (dirs s') s' q))"
proof (cases "env_free_list s")
  case None
  then show ?thesis using env_alloc_eqs(1) [OF k] by simp
next
  case (Some e)
  show ?thesis
  proof (cases "free_pages s")
    case Nil
    then show ?thesis using env_alloc_eqs(2) [OF k Some] Some by simp
  next
    case (Cons p ps)
    define t where "t = set_page p (user_dir s p) (set_pp_ref p 1 (popped ALLOC_ZERO p s))"
    define s' where "s' = (upd_env e (new_env e parent p) t)\<lparr>env_free_list := env_link (envs s e)\<rparr>"
    note N = new_dir [OF kinvD(2,3) [OF k] Cons, folded t_def]
    have r: "env_alloc parent s = Inr (0, Some e, s')"
      using env_alloc_eqs(3) [OF k Some Cons] by (simp add: s'_def t_def)
    have p: "p \<notin> dirs s" using vm_invD(6) [OF kinvD(2) [OF k], of p] Cons by auto
    have ks: "envs t = envs s" "curenv t = curenv s" "cr3 t = cr3 s" "kern_pgdir t = kern_pgdir s"
      using N(6) by (simp_all add: kern_same_def)
    have s': "envs s' = (envs s)(e := new_env e parent p (envs s e))" "env_free_list s' = env_link (envs s e)"
      by (simp_all add: s'_def ks)
    note T = env_alloc_table [OF kinvD(1) [OF k] Some p s']
    have m: "mem_eq t s'" by (simp add: mem_eq_def s'_def)
    have kp: "kern_pgdir s' = kern_pgdir t" by (simp add: s'_def)
    have "kinv s'" unfolding kinv_def T(2) mem_eq_cong [OF m] using T(1) N(1,2)
      by (simp add: kern_ok_def mem_eq_cong [OF m] kp)
    moreover have "curenv s' = curenv s" "cr3 s' = cr3 s" by (simp_all add: s'_def ks)
    moreover have "cpu_same s s'" using kern_same_cpu [OF N(6)] by (simp add: s'_def cpu_same_def)
    ultimately show ?thesis
      using r T(2) N(4,5,8) s'(1) p free_list_Cons(2,3) [OF kinvD(1) [OF k] Some] Some mem_eq_cong [OF m]
      by auto
  qed
qed

section \<open>Freeing\<close>

lemma env_free_table:
  assumes inv: "env_inv s" and e: "live s e" and d: "env_pgdir (envs s e) = Some d"
    and s': "envs s' = (envs s)(e := v)" "env_free_list s' = Some e"
    and v: "env_status v = ENV_FREE" "env_link v = env_free_list s" "env_id v = env_id (envs s e)"
  shows "env_inv s'" and "dirs s' = dirs s - {d}" and "live s' x \<longleftrightarrow> live s x \<and> x \<noteq> e"
proof -
  have fs: "set (free_envs s) = {x. x < NENV \<and> \<not> live s x}" by (rule env_invD(2) [OF inv])
  have eN: "e < NENV" and ef: "e \<notin> set (free_envs s)" using e fs by (auto simp: live_def)
  show l: "live s' x \<longleftrightarrow> live s x \<and> x \<noteq> e" for x by (auto simp: live_def s'(1) v(1))
  have "env_link (envs s' x) = env_link (envs s x)" if "x \<in> set (free_envs s)" for x
    using that ef by (auto simp: s'(1))
  from chain_cong [OF this] have "chain (\<lambda>x. env_link (envs s' x)) (env_free_list s) (free_envs s)"
    using env_invD(1) [OF inv] by simp
  then have ch: "chain (\<lambda>x. env_link (envs s' x)) (env_free_list s') (e # free_envs s)"
    by (simp add: s' v(2))
  have f: "free_envs s' = e # free_envs s" using ch by (rule free_envs_eqI) (use fs eN in auto)
  have inj: "live s x \<Longrightarrow> env_pgdir (envs s x) = Some d \<Longrightarrow> x = e" for x
    using env_invD(6) [OF inv _ e, of x] d by simp
  show "dirs s' = dirs s - {d}"
  proof (intro set_eqI iffI)
    fix y assume "y \<in> dirs s'"
    then obtain x where x: "live s x" "x \<noteq> e" "env_pgdir (envs s x) = Some y"
      unfolding dirs_def l by (auto simp: s'(1))
    then have "y \<noteq> d" using inj by blast
    then show "y \<in> dirs s - {d}" using dirsI [OF x(1,3)] by simp
  next
    fix y assume y: "y \<in> dirs s - {d}"
    then obtain x where x: "live s x" "env_pgdir (envs s x) = Some y" unfolding dirs_def by blast
    then have "x \<noteq> e" using y d by auto
    then show "y \<in> dirs s'" using x by (intro dirsI [of s' x]) (simp_all add: l s'(1))
  qed
  show "env_inv s'" unfolding env_inv_def f
  proof (intro conjI allI impI)
    show "chain (\<lambda>e. env_link (envs s' e)) (env_free_list s') (e # free_envs s)" by (rule ch)
    show "set (e # free_envs s) = {x. x < NENV \<and> \<not> live s' x}" using fs l eN by auto
    show "env_id (envs s' x) = 0 \<or> ENVX (env_id (envs s' x)) = x \<and> 0 < sint (env_id (envs s' x))"
      if "x < NENV" for x using env_invD(3) [OF inv that] v(3) by (cases "x = e") (auto simp: s'(1))
    show "env_id (envs s' x) \<noteq> 0" "env_pgdir (envs s' x) \<noteq> None" if "live s' x" for x
      using that l env_invD(4,5) [OF inv, of x] by (auto simp: s'(1))
    show "x = y" if "live s' x \<and> live s' y \<and> env_pgdir (envs s' x) = env_pgdir (envs s' y)" for x y
      using that l [of x] l [of y] env_invD(6) [OF inv, of x y] by (auto simp: s'(1))
  qed
qed

lemma kern_ok_drop:
  assumes k: "kern_ok D s" and ks: "kern_same s s'" and pm: "pmem s' = pmem s"
    and fp: "free_pages s' = d # free_pages s" and d: "d \<in> D"
  shows "kern_ok (D - {d}) s'"
proof -
  note V = view_cong [OF pm]
  have "tables (D - {d}) s' \<subseteq> tables D s" "mappers (D - {d}) s' p \<subseteq> mappers D s p" for p
    by (auto simp: tables_def mappers_def V)
  then show ?thesis using k ks d unfolding kern_ok_def reserved_def fp V
    by (auto simp: kern_same_def V)
qed

lemma frame_kva_ok:
  fixes s :: kstate
  shows "d < npages s \<Longrightarrow> npages s \<le> 65536 \<Longrightarrow> PADDR (frame_kva d) = Inr (page2pa d)"
  using PADDR_page2kva [of d s] by (simp add: page2kva_def frame_kva_def KADDR_def unat_PGNUM_page2pa)

lemma env_free_spec:
  assumes k: "kinv s" and e: "live s e"
  shows "\<exists>d s'. env_pgdir (envs s e) = Some d \<and> env_free e s = Inr s' \<and> kinv s' \<and>
    dirs s' = dirs s - {d} \<and> (\<forall>x. live s' x \<longleftrightarrow> live s x \<and> x \<noteq> e) \<and>
    (\<forall>x. x \<noteq> e \<longrightarrow> envs s' x = envs s x) \<and> env_id (envs s' e) = env_id (envs s e) \<and>
    env_free_list s' = Some e \<and> curenv s' = curenv s \<and> cpu_same s s' \<and> d \<in> set (free_pages s') \<and>
    (\<forall>d' \<in> dirs s'. \<forall>i < 955. \<forall>j < 1024. pte_at s' d' i j = pte_at s d' i j)"
proof -
  obtain d where d: "env_pgdir (envs s e) = Some d" using env_invD(5) [OF kinvD(1) [OF k] e] by blast
  have dD: "d \<in> dirs s" using e d by (rule dirsI)
  define s0 where "s0 = (if Some e = curenv s then s\<lparr>cr3 := kern_pgdir s\<rparr> else s)"
  have s0: "vm_inv (dirs s) s0" "kern_ok (dirs s) s0" "envs s0 = envs s" "env_free_list s0 = env_free_list s"
      "curenv s0 = curenv s" "\<And>d i j. pte_at s0 d i j = pte_at s d i j"
    using kinvD(2,3) [OF k] by (simp_all add: s0_def kern_ok_def)
  define L where "L = [0..<955::nat]"
  have L: "set L = {..<955}" unfolding L_def set_upt by (rule lessThan_atLeast0 [symmetric])
  then have ns: "set L \<subseteq> {..<955}" by simp
  obtain s1 where s1: "unmap_pdes L d s0 = Inr s1" "vm_inv (dirs s) s1" "shrinks (dirs s) s0 s1"
      "\<forall>i < 955. \<not> pde_present s1 d i"
      "\<forall>d' \<in> dirs s. d' \<noteq> d \<longrightarrow> (\<forall>i' < 955. \<forall>j' < 1024. pte_at s1 d' i' j' = pte_at s0 d' i' j')"
    using unmap_pdes_spec [OF dD s0(1) ns] unfolding L by blast
  define s2 where "s2 = upd_env e (\<lambda>v. v\<lparr>env_pgdir := None\<rparr>) s1"
  have k1: "envs s1 = envs s" "env_free_list s1 = env_free_list s" "curenv s1 = curenv s"
    using s1(3) s0 by (simp_all add: shrinks_def kern_same_def)
  have "vm_inv (dirs s) s2" "\<And>i. i < 955 \<Longrightarrow> \<not> pde_present s2 d i" using s1(2,4) by (simp_all add: s2_def)
  then obtain s3 where s3: "page_decref d s2 = Inr s3" "vm_inv (dirs s - {d}) s3" "kern_same s2 s3"
      "pmem s3 = pmem s2" "free_pages s3 = d # free_pages s2"
    using drop_dir [of "dirs s" s2 d] dD by blast
  define s' where "s' = (upd_env e (\<lambda>v. v\<lparr>env_status := ENV_FREE, env_link := env_free_list s3\<rparr>) s3)
             \<lparr>env_free_list := Some e\<rparr>"
  have dn: "d < npages s2" "npages s2 \<le> 65536"
    using vm_invD(5,13) [OF s1(2)] dD by (simp_all add: s2_def)
  have dir: "env_dir e s0 = Inr d" by (simp add: env_dir_def s0(3) d)
  have pa: "PADDR (frame_kva d) = Inr (page2pa d)" "pa2page (page2pa d) s2 = Inr d"
    using dn frame_kva_ok [OF dn] by (simp_all add: pa2page_def unat_PGNUM_page2pa)
  have run: "env_free e s = Inr s'"
    unfolding env_free_def s0_def [symmetric] Let_def unat_PDX_UTOP L_def [symmetric]
    using s1(1) s3(1) pa by (simp add: dir s2_def s'_def)
  have "cpu_same s0 s1" "cpu_same s2 s3" using s1(3) s3(3) by (simp_all add: shrinks_def kern_same_cpu)
  then have cs: "cpu_same s s'" by (simp add: s0_def s2_def s'_def cpu_same_def split: if_splits)
  have k3: "envs s3 = (envs s)(e := (envs s e)\<lparr>env_pgdir := None\<rparr>)" "env_free_list s3 = env_free_list s"
      "curenv s3 = curenv s" using s3(3) k1 by (simp_all add: kern_same_def s2_def)
  note T = env_free_table [OF kinvD(1) [OF k] e d, of s'
      "(envs s e)\<lparr>env_pgdir := None, env_status := ENV_FREE, env_link := env_free_list s\<rparr>"]
  have s': "envs s' = (envs s)(e := (envs s e)\<lparr>env_pgdir := None, env_status := ENV_FREE, env_link := env_free_list s\<rparr>)"
      "env_free_list s' = Some e" by (simp_all add: s'_def k3)
  have m: "mem_eq s3 s'" by (simp add: mem_eq_def s'_def)
  have "kern_ok (dirs s) s2" using kern_ok_shrinks [OF s0(2) s1(3)] by (simp add: s2_def kern_ok_def)
  then have "kern_ok (dirs s - {d}) s3" by (rule kern_ok_drop [OF _ s3(3,4,5) dD])
  then have "kinv s'"
    unfolding kinv_def using T(1,2) s' s3(2)
    by (simp add: mem_eq_cong [OF m] kern_ok_def) (simp add: s'_def)
  moreover have "pte_at s' d' i j = pte_at s d' i j" if "d' \<in> dirs s'" "i < 955" "j < 1024" for d' i j
    using that T(2) s' s1(5) s0(6) view_cong(3) [OF s3(4)] by (simp add: mem_eq_cong [OF m]) (simp add: s2_def)
  ultimately show ?thesis
    using d run T(2,3) s' k3(3) s3(5) mem_eq_cong(1) [OF m] cs
    by (intro exI [of _ d] exI [of _ s']) (simp add: s'_def)
qed

end
