(* ===== verification/Sched.thy ===== *)
theory Sched
  imports EnvInv
begin

text \<open>
  Giving the CPU away: \<^verbatim>\<open>env_run\<close>, \<^verbatim>\<open>env_pop_tf\<close> and \<^verbatim>\<open>env_destroy\<close> of
  \<^verbatim>\<open>kern/env.c\<close>, the round-robin scheduler of \<^verbatim>\<open>kern/sched.c\<close>,
  \<^verbatim>\<open>user_mem_assert\<close> of \<^verbatim>\<open>kern/pmap.c\<close> and the clock of \<^verbatim>\<open>kern/time.c\<close>.
  A kernel function that may not return to its caller gives an \<open>outcome\<close>: a
  value, an environment that now runs in user mode, a halted CPU, or the kernel monitor.
  The round-robin variant is the one the build selects (\<^verbatim>\<open>SCHED_CHALLANGE\<close> is not
  defined).
\<close>

datatype 'a outcome = Ret 'a | Run nat | Halt | Monitor

definition bindO ::
  "('a outcome \<times> kstate) exec \<Rightarrow> ('a \<Rightarrow> kstate \<Rightarrow> ('b outcome \<times> kstate) exec) \<Rightarrow> ('b outcome \<times> kstate) exec" where
  "bindO m f = bindE m (\<lambda>(r, s).
     case r of Ret x \<Rightarrow> f x s | Run e \<Rightarrow> Inr (Run e, s) | Halt \<Rightarrow> Inr (Halt, s) | Monitor \<Rightarrow> Inr (Monitor, s))"

lemma bindO_simps [simp]:
  "bindO (Inl p) f = Inl p"
  "bindO (Inr (Ret x, s)) f = f x s"
  "bindO (Inr (Run e, s)) f = Inr (Run e, s)"
  "bindO (Inr (Halt, s)) f = Inr (Halt, s)"
  "bindO (Inr (Monitor, s)) f = Inr (Monitor, s)"
  by (simp_all add: bindO_def)

section \<open>Running an environment\<close>

text \<open>The big kernel lock of \<^verbatim>\<open>kern/spinlock.c\<close>, as the only CPU sees it; theory \<open>Spinlock\<close> has several CPUs.\<close>

definition lock_kernel :: "kstate \<Rightarrow> kstate exec" where
  "lock_kernel s =
     (if kernel_locked s then Inl (Panic ''CPU cannot acquire kernel_lock: already holding'')
      else Inr (s\<lparr>kernel_locked := True\<rparr>))"

definition unlock_kernel :: "kstate \<Rightarrow> kstate exec" where
  "unlock_kernel s =
     (if kernel_locked s then Inr (s\<lparr>kernel_locked := False\<rparr>) else Inl (Panic ''spin_unlock''))"

definition env_pop_tf :: "nat \<Rightarrow> kstate \<Rightarrow> ('a outcome \<times> kstate) exec" where
  "env_pop_tf e s = Inr (Run e, upd_env e (\<lambda>v. v\<lparr>env_cpunum := cpunum s\<rparr>) s)"

definition env_run :: "nat option \<Rightarrow> kstate \<Rightarrow> ('a outcome \<times> kstate) exec" where
  "env_run p s =
     (case p of
        None \<Rightarrow> Inl (Panic ''env_run failed'')
      | Some e \<Rightarrow>
          let s1 = (case curenv s of
                      None \<Rightarrow> s
                    | Some c \<Rightarrow> if env_status (envs s c) = ENV_RUNNING
                               then upd_env c (\<lambda>v. v\<lparr>env_status := ENV_RUNNABLE\<rparr>) s else s);
              s2 = upd_env e (\<lambda>v. v\<lparr>env_status := ENV_RUNNING, env_runs := env_runs v + 1\<rparr>)
                     (s1\<lparr>curenv := Some e\<rparr>)
          in case env_pgdir (envs s2 e) of
               None \<Rightarrow> Inl (Panic ''PADDR called with invalid kva'')
             | Some d \<Rightarrow> bindE (unlock_kernel (s2\<lparr>cr3 := d\<rparr>)) (env_pop_tf e))"

section \<open>The scheduler\<close>

primrec any_user_env :: "nat list \<Rightarrow> kstate \<Rightarrow> bool" where
  "any_user_env [] s = False"
| "any_user_env (i # is) s =
     (if (env_status (envs s i) = ENV_RUNNABLE \<or> env_status (envs s i) = ENV_RUNNING \<or>
          env_status (envs s i) = ENV_NOT_RUNNABLE \<or> env_status (envs s i) = ENV_DYING) \<and>
         env_type (envs s i) = ENV_TYPE_USER
      then True else any_user_env is s)"

definition sched_halt :: "kstate \<Rightarrow> ('a outcome \<times> kstate) exec" where
  "sched_halt s =
     (if \<not> any_user_env [0..<NENV] s then Inr (Monitor, s)
      else bindE (unlock_kernel (s\<lparr>curenv := None, cr3 := kern_pgdir s, cpu_status := CPU_HALTED\<rparr>))
             (\<lambda>s1. Inr (Halt, s1)))"

text \<open>The scan for a runnable environment, over the indices in the order they are tried.\<close>

primrec find_runnable :: "nat list \<Rightarrow> kstate \<Rightarrow> nat option" where
  "find_runnable [] s = None"
| "find_runnable (i # is) s =
     (if env_status (envs s i) = ENV_RUNNABLE then Some i else find_runnable is s)"

definition sched_start :: "kstate \<Rightarrow> nat" where
  "sched_start s = (case curenv s of None \<Rightarrow> 0 | Some c \<Rightarrow> ENVX (env_id (envs s c)) + 1)"

definition sched_yield :: "kstate \<Rightarrow> ('a outcome \<times> kstate) exec" where
  "sched_yield s =
     (case find_runnable (map (\<lambda>j. (sched_start s + j) mod NENV) [0..<NENV]) s of
        Some i \<Rightarrow> env_run (Some i) s
      | None \<Rightarrow>
          (case curenv s of
             Some c \<Rightarrow> if env_status (envs s c) = ENV_RUNNING then env_run (Some c) s else sched_halt s
           | None \<Rightarrow> sched_halt s))"

section \<open>Destroying an environment\<close>

definition env_destroy :: "nat \<Rightarrow> kstate \<Rightarrow> (unit outcome \<times> kstate) exec" where
  "env_destroy e s =
     (if env_status (envs s e) = ENV_RUNNING \<and> curenv s \<noteq> Some e
      then Inr (Ret (), upd_env e (\<lambda>v. v\<lparr>env_status := ENV_DYING\<rparr>) s)
      else bindE (env_free e s) (\<lambda>s1.
             if curenv s1 = Some e then sched_yield (s1\<lparr>curenv := None\<rparr>)
             else Inr (Ret (), s1)))"

definition user_mem_assert :: "nat \<Rightarrow> u32 \<Rightarrow> u32 \<Rightarrow> u32 \<Rightarrow> kstate \<Rightarrow> (unit outcome \<times> kstate) exec" where
  "user_mem_assert env va len perm s =
     bindE (env_dir env s) (\<lambda>d.
     bindE (user_mem_check d va len (perm OR PTE_U) s) (\<lambda>(r, s1).
       if r < 0 then env_destroy env s1 else Inr (Ret (), s1)))"

section \<open>The clock\<close>

definition time_init :: "kstate \<Rightarrow> kstate" where
  "time_init s = s\<lparr>ticks := 0\<rparr>"

definition time_tick :: "kstate \<Rightarrow> kstate exec" where
  "time_tick s =
     (let t = ticks s + 1
      in if t * 10 < t then Inl (Panic ''time_tick: time overflowed'') else Inr (s\<lparr>ticks := t\<rparr>))"

definition time_msec :: "kstate \<Rightarrow> u32" where
  "time_msec s = ticks s * 10"

section \<open>Preservation of the kernel invariant\<close>

text \<open>Inside the kernel: the CPU is up and holds the lock, and \<^verbatim>\<open>curenv\<close> is alive if there is one.\<close>

definition cur_ok :: "kstate \<Rightarrow> bool" where
  "cur_ok s \<longleftrightarrow> kernel_locked s \<and> cpu_status s = CPU_STARTED \<and> (\<forall>c. curenv s = Some c \<longrightarrow> live s c)"

text \<open>What holds when the kernel leaves a function in each of the four ways.\<close>

definition out_ok :: "'a outcome \<Rightarrow> kstate \<Rightarrow> bool" where
  "out_ok r s \<longleftrightarrow> kinv s \<and>
     (case r of
        Ret _ \<Rightarrow> cur_ok s
      | Run e \<Rightarrow> curenv s = Some e \<and> live s e \<and> env_status (envs s e) = ENV_RUNNING \<and>
               env_pgdir (envs s e) = Some (cr3 s) \<and> \<not> kernel_locked s \<and> cpu_status s = CPU_STARTED
      | Halt \<Rightarrow> curenv s = None \<and> cr3 s = kern_pgdir s \<and> cpu_status s = CPU_HALTED \<and> \<not> kernel_locked s
      | Monitor \<Rightarrow> True)"

lemma find_runnable_eq: "find_runnable is s = List.find (\<lambda>i. env_status (envs s i) = ENV_RUNNABLE) is"
  by (induction "is") simp_all

lemma live_updates [simp]:
  "live (s\<lparr>cr3 := x\<rparr>) e = live s e" "live (s\<lparr>curenv := c\<rparr>) e = live s e"
  "live (s\<lparr>kernel_locked := b\<rparr>) e = live s e" "live (s\<lparr>cpu_status := t\<rparr>) e = live s e"
  "live (s\<lparr>user_mem_check_addr := w\<rparr>) e = live s e" "live (s\<lparr>ticks := w\<rparr>) e = live s e"
  by (simp_all add: live_def)

lemma env_run_spec:
  assumes k: "kinv s" and c: "cur_ok s" and e: "live s e"
  shows "\<exists>s'. env_run (Some e) s = Inr (Run e, s') \<and> out_ok (Run e) s' \<and>
     (\<forall>x. live s' x = live s x) \<and> (\<forall>x. env_id (envs s' x) = env_id (envs s x)) \<and>
     env_runs (envs s' e) = env_runs (envs s e) + 1 \<and>
     (\<forall>x. x \<noteq> e \<and> Some x \<noteq> curenv s \<longrightarrow> envs s' x = envs s x) \<and>
     (\<forall>x. curenv s = Some x \<and> x \<noteq> e \<and> env_status (envs s x) = ENV_RUNNING \<longrightarrow>
        env_status (envs s' x) = ENV_RUNNABLE)"
proof -
  define s1 where "s1 = (case curenv s of None \<Rightarrow> s
      | Some c \<Rightarrow> if env_status (envs s c) = ENV_RUNNING
                 then upd_env c (\<lambda>v. v\<lparr>env_status := ENV_RUNNABLE\<rparr>) s else s)"
  have s1: "kinv s1" "\<forall>x. live s1 x = live s x" "\<forall>x. env_id (envs s1 x) = env_id (envs s x)"
    "env_runs (envs s1 e) = env_runs (envs s e)"
    "\<forall>x. Some x \<noteq> curenv s \<longrightarrow> envs s1 x = envs s x"
    "\<forall>x. curenv s = Some x \<and> env_status (envs s x) = ENV_RUNNING \<longrightarrow> env_status (envs s1 x) = ENV_RUNNABLE"
    using k by (auto simp: s1_def soft_def soft_cong kinv_soft live_def split: option.split)
  define s2 where "s2 = upd_env e (\<lambda>v. v\<lparr>env_status := ENV_RUNNING, env_runs := env_runs v + 1\<rparr>)
                     (s1\<lparr>curenv := Some e\<rparr>)"
  have e1: "live s1 e" using s1(2) e by simp
  have soft: "soft (\<lambda>v. v\<lparr>env_status := ENV_RUNNING, env_runs := env_runs v + 1\<rparr>) (envs (s1\<lparr>curenv := Some e\<rparr>) e)"
    using e1 by (simp add: soft_def live_def)
  have s2: "kinv s2" "\<forall>x. live s2 x = live s x" "\<forall>x. env_id (envs s2 x) = env_id (envs s x)"
    using kinv_soft [OF soft] s1 by (simp_all add: s2_def soft_cong [OF soft])
  obtain d where d: "env_pgdir (envs s2 e) = Some d"
    using env_invD(5) [OF kinvD(1) [OF s2(1)], of e] s2(2) e by auto
  have lk: "kernel_locked s2" "cpu_status s2 = CPU_STARTED"
    using c by (auto simp: s2_def s1_def cur_ok_def split: option.split)
  define s3 where "s3 = s2\<lparr>cr3 := d, kernel_locked := False\<rparr>"
  define s' where "s' = upd_env e (\<lambda>v. v\<lparr>env_cpunum := cpunum s3\<rparr>) s3"
  have soft3: "soft (\<lambda>v. v\<lparr>env_cpunum := cpunum s3\<rparr>) (envs s3 e)" by (simp add: soft_def)
  have run: "env_run (Some e) s = Inr (Run e, s')"
    unfolding env_run_def Let_def option.case s1_def [symmetric] s2_def [symmetric]
    using d lk by (simp add: s'_def s3_def env_pop_tf_def unlock_kernel_def)
  have k': "kinv s'" using kinv_soft [OF soft3] s2(1) by (simp add: s'_def s3_def)
  have l': "\<forall>x. live s' x = live s x" "\<forall>x. env_id (envs s' x) = env_id (envs s x)"
    using s2(2,3) by (simp_all add: s'_def soft_cong [OF soft3]) (simp_all add: s3_def)
  have ok: "out_ok (Run e) s'"
    using k' l' e d lk by (simp add: out_ok_def) (simp add: s'_def s3_def s2_def)
  have old: "envs s' x = (if x = e then envs s' e else envs s1 x)" for x
    by (simp add: s'_def s3_def s2_def)
  have "env_runs (envs s' e) = env_runs (envs s e) + 1"
    using s1(4) by (simp add: s'_def s3_def s2_def)
  moreover have "envs s' x = envs s x" if "x \<noteq> e \<and> Some x \<noteq> curenv s" for x
    using that s1(5) old [of x] by simp
  moreover have "env_status (envs s' x) = ENV_RUNNABLE"
    if "curenv s = Some x \<and> x \<noteq> e \<and> env_status (envs s x) = ENV_RUNNING" for x
    using that s1(6) old [of x] by simp
  ultimately show ?thesis using run ok l' by (intro exI [of _ s'] conjI) simp_all
qed

lemma sched_halt_ok:
  assumes "kinv s" and "cur_ok s"
  shows "\<exists>r s'. sched_halt s = Inr (r, s') \<and> out_ok r s' \<and> (r = Halt \<or> r = Monitor)"
  using assms by (simp add: sched_halt_def out_ok_def unlock_kernel_def cur_ok_def)

lemma sched_yield_spec:
  assumes k: "kinv s" and c: "cur_ok s"
  shows "\<exists>(r :: 'a outcome) s'. sched_yield s = Inr (r, s') \<and> out_ok r s' \<and> (\<forall>x. r \<noteq> Ret x)"
proof -
  have run: "\<exists>s'. env_run (Some e) s = Inr (Run e :: 'a outcome, s') \<and> out_ok (Run e :: 'a outcome) s'" if "live s e" for e
    using env_run_spec [OF k c that] by blast
  show ?thesis
  proof (cases "find_runnable (map (\<lambda>j. (sched_start s + j) mod NENV) [0..<NENV]) s")
    case (Some i)
    then have "i < NENV" "env_status (envs s i) = ENV_RUNNABLE"
      unfolding find_runnable_eq by (auto simp: find_Some_iff NENV_def)
    then have "live s i" by (simp add: live_def)
    from run [OF this] Some show ?thesis by (auto simp: sched_yield_def)
  next
    case None
    show ?thesis
    proof (cases "\<exists>x. curenv s = Some x \<and> env_status (envs s x) = ENV_RUNNING")
      case True
      then obtain x where x: "curenv s = Some x" "env_status (envs s x) = ENV_RUNNING" by blast
      then have "live s x" using c by (simp add: cur_ok_def)
      from run [OF this] None x show ?thesis by (auto simp: sched_yield_def)
    next
      case False
      then have "(sched_yield s :: ('a outcome \<times> kstate) exec) = sched_halt s" using None by (auto simp: sched_yield_def split: option.split)
      then show ?thesis using sched_halt_ok [OF k c] by force
    qed
  qed
qed

lemma env_destroy_spec:
  assumes k: "kinv s" and c: "cur_ok s" and e: "live s e"
  shows "\<exists>r s'. env_destroy e s = Inr (r, s') \<and> out_ok r s' \<and>
     (\<forall>x. r = Ret x \<longrightarrow> curenv s' = curenv s \<and> curenv s \<noteq> Some e) "
proof (cases "env_status (envs s e) = ENV_RUNNING \<and> curenv s \<noteq> Some e")
  case True
  have soft: "soft (\<lambda>v. v\<lparr>env_status := ENV_DYING\<rparr>) (envs s e)" using e by (simp add: soft_def live_def)
  show ?thesis using True kinv_soft [OF soft k] c
    by (simp add: env_destroy_def out_ok_def cur_ok_def soft_cong [OF soft])
next
  case False
  obtain s1 where s1: "env_free e s = Inr s1" "kinv s1" "\<forall>x. live s1 x \<longleftrightarrow> live s x \<and> x \<noteq> e"
      "curenv s1 = curenv s" "cpu_same s s1"
    using env_free_spec [OF k e] by blast
  have cs: "kernel_locked s1" "cpu_status s1 = CPU_STARTED" using s1(5) c by (simp_all add: cpu_same_def cur_ok_def)
  show ?thesis
  proof (cases "curenv s = Some e")
    case True
    have "kinv (s1\<lparr>curenv := None\<rparr>)" "cur_ok (s1\<lparr>curenv := None\<rparr>)" using s1(2) cs by (simp_all add: cur_ok_def)
    from sched_yield_spec [OF this] show ?thesis using False s1(1,4) True by (auto simp: env_destroy_def)
  next
    case False2: False
    then show ?thesis using False s1(1-4) cs c by (auto simp: env_destroy_def out_ok_def cur_ok_def)
  qed
qed

end
