(* ===== verification/Syscalls.thy ===== *)
theory Syscalls
  imports Sched
begin

text \<open>
  The system calls of \<^verbatim>\<open>kern/syscall.c\<close> that work on environments, address spaces and
  IPC. A handler gets the arguments the dispatcher takes from the trap frame; \<open>curenv\<close> is
  the caller. Those that talk to a device are with the device's model.
\<close>

section \<open>Reading a trap frame from user memory\<close>

definition load_u32 :: "u32 \<Rightarrow> kstate \<Rightarrow> u32 exec" where
  "load_u32 va s =
     bindE (load_byte va s) (\<lambda>b0. bindE (load_byte (va + 1) s) (\<lambda>b1.
     bindE (load_byte (va + 2) s) (\<lambda>b2. bindE (load_byte (va + 3) s) (\<lambda>b3.
       Inr (ucast b0 OR push_bit 8 (ucast b1) OR push_bit 16 (ucast b2) OR push_bit 24 (ucast b3))))))"

primrec load_words :: "nat \<Rightarrow> u32 \<Rightarrow> kstate \<Rightarrow> u32 list exec" where
  "load_words 0 va s = Inr []"
| "load_words (Suc n) va s = bindE (load_u32 va s) (\<lambda>w. bindE (load_words n (va + 4) s) (\<lambda>ws. Inr (w # ws)))"

definition tf_of_words :: "u32 list \<Rightarrow> Trapframe" where
  "tf_of_words w =
     \<lparr>tf_regs = \<lparr>reg_edi = w ! 0, reg_esi = w ! 1, reg_ebp = w ! 2, reg_oesp = w ! 3,
                 reg_ebx = w ! 4, reg_edx = w ! 5, reg_ecx = w ! 6, reg_eax = w ! 7\<rparr>,
      tf_es = ucast (w ! 8), tf_ds = ucast (w ! 9), tf_trapno = w ! 10, tf_err = w ! 11,
      tf_eip = w ! 12, tf_cs = ucast (w ! 13), tf_eflags = w ! 14, tf_esp = w ! 15, tf_ss = ucast (w ! 16)\<rparr>"

definition load_tf :: "u32 \<Rightarrow> kstate \<Rightarrow> Trapframe exec" where
  "load_tf va s = bindE (load_words 17 va s) (\<lambda>w. Inr (tf_of_words w))"

section \<open>Environments\<close>

definition cur :: "kstate \<Rightarrow> nat exec" where
  "cur s = (case curenv s of None \<Rightarrow> Inl null_deref | Some c \<Rightarrow> Inr c)"

text \<open>\<open>envid2env\<close> with its result stored in a local pointer that is then dereferenced.\<close>

definition with_env ::
  "u32 \<Rightarrow> bool \<Rightarrow> kstate \<Rightarrow> (int \<Rightarrow> ('a outcome \<times> kstate) exec) \<Rightarrow> (nat \<Rightarrow> ('a outcome \<times> kstate) exec)
     \<Rightarrow> ('a outcome \<times> kstate) exec" where
  "with_env envid checkperm s bad ok =
     bindE (envid2env envid checkperm s) (\<lambda>(r, p).
       if r < 0 then bad r else case p of None \<Rightarrow> Inl null_deref | Some e \<Rightarrow> ok e)"

definition sys_getenvid :: "kstate \<Rightarrow> (int outcome \<times> kstate) exec" where
  "sys_getenvid s = bindE (cur s) (\<lambda>c. Inr (Ret (sint (env_id (envs s c))), s))"

definition sys_env_destroy :: "u32 \<Rightarrow> kstate \<Rightarrow> (int outcome \<times> kstate) exec" where
  "sys_env_destroy envid s =
     with_env envid True s (\<lambda>r. Inr (Ret r, s)) (\<lambda>e. bindO (env_destroy e s) (\<lambda>_ s1. Inr (Ret 0, s1)))"

definition sys_yield :: "kstate \<Rightarrow> (int outcome \<times> kstate) exec" where
  "sys_yield s = sched_yield s"

definition sys_exofork :: "kstate \<Rightarrow> (int outcome \<times> kstate) exec" where
  "sys_exofork s =
     bindE (cur s) (\<lambda>c.
     bindE (env_alloc (env_id (envs s c)) s) (\<lambda>(res, p, s1).
       if res < 0 then Inr (Ret res, s1)
       else case p of
         None \<Rightarrow> Inl null_deref
       | Some e \<Rightarrow>
           let tf = env_tf (envs s1 c);
               s2 = upd_env e (\<lambda>v. v\<lparr>env_status := ENV_NOT_RUNNABLE,
                      env_tf := tf\<lparr>tf_regs := (tf_regs tf)\<lparr>reg_eax := 0\<rparr>\<rparr>\<rparr>) s1
           in Inr (Ret (sint (env_id (envs s2 e))), s2)))"

text \<open>The \<^verbatim>\<open>int\<close> status argument, decoded; only two values pass the test.\<close>

definition status_of_int :: "u32 \<Rightarrow> env_status option" where
  "status_of_int n =
     (if n = 0 then Some ENV_FREE else if n = 1 then Some ENV_DYING else if n = 2 then Some ENV_RUNNABLE
      else if n = 3 then Some ENV_RUNNING else if n = 4 then Some ENV_NOT_RUNNABLE else None)"

definition sys_env_set_status :: "u32 \<Rightarrow> u32 \<Rightarrow> kstate \<Rightarrow> (int outcome \<times> kstate) exec" where
  "sys_env_set_status envid status s =
     (case status_of_int status of
        Some st \<Rightarrow>
          if st \<noteq> ENV_RUNNABLE \<and> st \<noteq> ENV_NOT_RUNNABLE then Inr (Ret (- E_INVAL), s)
          else with_env envid True s (\<lambda>_. Inr (Ret (- E_BAD_ENV), s))
                 (\<lambda>e. Inr (Ret 0, upd_env e (\<lambda>v. v\<lparr>env_status := st\<rparr>) s))
      | None \<Rightarrow> Inr (Ret (- E_INVAL), s))"

definition sys_env_set_trapframe :: "u32 \<Rightarrow> u32 \<Rightarrow> kstate \<Rightarrow> (int outcome \<times> kstate) exec" where
  "sys_env_set_trapframe envid tf s =
     with_env envid True s (\<lambda>_. Inr (Ret (- E_BAD_ENV), s)) (\<lambda>e.
       bindO (user_mem_assert e tf 68 PTE_W s) (\<lambda>_ s1.
       bindE (load_tf tf s1) (\<lambda>t.
         let t' = t\<lparr>tf_cs := tf_cs t OR 3,
                    tf_eflags := (tf_eflags t OR FL_IF) AND NOT FL_IOPL_3\<rparr>
         in Inr (Ret 0, upd_env e (\<lambda>v. v\<lparr>env_tf := t'\<rparr>) s1))))"

definition sys_env_set_pgfault_upcall :: "u32 \<Rightarrow> u32 \<Rightarrow> kstate \<Rightarrow> (int outcome \<times> kstate) exec" where
  "sys_env_set_pgfault_upcall envid func s =
     with_env envid True s (\<lambda>_. Inr (Ret (- E_BAD_ENV), s))
       (\<lambda>e. Inr (Ret 0, upd_env e (\<lambda>v. v\<lparr>env_pgfault_upcall := func\<rparr>) s))"

definition sys_change_priority :: "u8 \<Rightarrow> kstate \<Rightarrow> (int outcome \<times> kstate) exec" where
  "sys_change_priority p s =
     (if p > 20 then Inr (Ret (- E_INVAL), s)
      else bindE (cur s) (\<lambda>c. Inr (Ret 0, upd_env c (\<lambda>v. v\<lparr>env_priority := p\<rparr>) s)))"

primrec type_taken :: "nat list \<Rightarrow> EnvType \<Rightarrow> kstate \<Rightarrow> bool" where
  "type_taken [] type s = False"
| "type_taken (i # is) type s = (if env_type (envs s i) = type then True else type_taken is type s)"

definition type_of_int :: "u32 \<Rightarrow> EnvType option" where
  "type_of_int n =
     (if n = 0 then Some ENV_TYPE_USER else if n = 1 then Some ENV_TYPE_FS else if n = 2 then Some ENV_TYPE_NS
      else if n = 3 then Some ENV_TYPE_OUT_NS else if n = 4 then Some ENV_TYPE_IN_NS else None)"

definition sys_env_set_type :: "u32 \<Rightarrow> kstate \<Rightarrow> (int outcome \<times> kstate) exec" where
  "sys_env_set_type type s =
     (case type_of_int type of
        Some t \<Rightarrow>
          if t \<noteq> ENV_TYPE_OUT_NS \<and> t \<noteq> ENV_TYPE_IN_NS then Inr (Ret (- E_INVAL), s)
          else if type_taken [0..<NENV] t s then Inr (Ret (- E_BAD_ENV), s)
          else bindE (cur s) (\<lambda>c. Inr (Ret 0, upd_env c (\<lambda>v. v\<lparr>env_type := t\<rparr>) s))
      | None \<Rightarrow> Inr (Ret (- E_INVAL), s))"

definition sys_time_msec :: "kstate \<Rightarrow> (int outcome \<times> kstate) exec" where
  "sys_time_msec s = Inr (Ret (sint (time_msec s)), s)"

section \<open>Address spaces\<close>

text \<open>The permission test shared by the mapping calls.\<close>

definition bad_perm :: "u32 \<Rightarrow> bool" where
  "bad_perm perm \<longleftrightarrow> perm AND PTE_U = 0 \<or> perm AND PTE_P = 0 \<or> perm AND NOT PTE_SYSCALL \<noteq> 0"

definition bad_va :: "u32 \<Rightarrow> bool" where
  "bad_va va \<longleftrightarrow> va \<ge> UTOP \<or> PGOFF va \<noteq> 0"

definition sys_page_alloc :: "u32 \<Rightarrow> u32 \<Rightarrow> u32 \<Rightarrow> kstate \<Rightarrow> (int outcome \<times> kstate) exec" where
  "sys_page_alloc envid va perm s =
     with_env envid True s (\<lambda>_. Inr (Ret (- E_BAD_ENV), s)) (\<lambda>e.
       if bad_va va \<or> bad_perm perm then Inr (Ret (- E_INVAL), s)
       else bindE (page_alloc ALLOC_ZERO s) (\<lambda>(page, s1).
         case page of
           None \<Rightarrow> Inr (Ret (- E_NO_MEM), s1)
         | Some p \<Rightarrow>
             bindE (env_dir e s1) (\<lambda>d.
             bindE (page_insert d p va perm s1) (\<lambda>(r, s2).
               if r < 0 then bindE (page_free p s2) (\<lambda>s3. Inr (Ret (- E_NO_MEM), s3))
               else Inr (Ret 0, s2)))))"

definition sys_page_map ::
  "u32 \<Rightarrow> u32 \<Rightarrow> u32 \<Rightarrow> u32 \<Rightarrow> u32 \<Rightarrow> kstate \<Rightarrow> (int outcome \<times> kstate) exec" where
  "sys_page_map srcenvid srcva dstenvid dstva perm s =
     with_env srcenvid True s (\<lambda>_. Inr (Ret (- E_BAD_ENV), s)) (\<lambda>src.
     with_env dstenvid True s (\<lambda>_. Inr (Ret (- E_BAD_ENV), s)) (\<lambda>dst.
       if bad_va srcva \<or> bad_va dstva \<or> bad_perm perm then Inr (Ret (- E_INVAL), s)
       else bindE (env_dir src s) (\<lambda>sd. bindE (page_lookup sd srcva s) (\<lambda>r.
         case r of
           None \<Rightarrow> Inr (Ret (- E_INVAL), s)
         | Some (page, f, k) \<Rightarrow>
             if pmem s f k AND PTE_W = 0 \<and> perm AND PTE_W \<noteq> 0 then Inr (Ret (- E_INVAL), s)
             else bindE (env_dir dst s) (\<lambda>dd. bindE (page_insert dd page dstva perm s) (\<lambda>(r, s1).
                    if r < 0 then Inr (Ret (- E_NO_MEM), s1) else Inr (Ret 0, s1)))))))"

definition sys_page_unmap :: "u32 \<Rightarrow> u32 \<Rightarrow> kstate \<Rightarrow> (int outcome \<times> kstate) exec" where
  "sys_page_unmap envid va s =
     with_env envid True s (\<lambda>_. Inr (Ret (- E_BAD_ENV), s)) (\<lambda>e.
       if bad_va va then Inr (Ret (- E_INVAL), s)
       else bindE (env_dir e s) (\<lambda>d. bindE (page_remove d va s) (\<lambda>s1. Inr (Ret 0, s1))))"

section \<open>Inter-process communication\<close>

definition ipc_deliver :: "nat \<Rightarrow> u32 \<Rightarrow> kstate \<Rightarrow> (int outcome \<times> kstate) exec" where
  "ipc_deliver e val s =
     bindE (cur s) (\<lambda>c.
       let from = env_id (envs s c)
       in Inr (Ret 0, upd_env e (\<lambda>v. v\<lparr>env_ipc_recving := False, env_ipc_from := from, env_ipc_value := val,
                 env_status := ENV_RUNNABLE,
                 env_tf := (env_tf v)\<lparr>tf_regs := (tf_regs (env_tf v))\<lparr>reg_eax := 0\<rparr>\<rparr>\<rparr>) s))"

definition sys_ipc_try_send :: "u32 \<Rightarrow> u32 \<Rightarrow> u32 \<Rightarrow> u32 \<Rightarrow> kstate \<Rightarrow> (int outcome \<times> kstate) exec" where
  "sys_ipc_try_send envid val srcva perm s =
     with_env envid False s (\<lambda>_. Inr (Ret (- E_BAD_ENV), s)) (\<lambda>e.
       if \<not> env_ipc_recving (envs s e) then Inr (Ret (- E_IPC_NOT_RECV), s)
       else if srcva < UTOP then
         (if PGOFF srcva \<noteq> 0 \<or> bad_perm perm then Inr (Ret (- E_INVAL), s)
          else bindE (cur s) (\<lambda>c. bindE (env_dir c s) (\<lambda>cd. bindE (page_lookup cd srcva s) (\<lambda>r.
            case r of
              None \<Rightarrow> Inr (Ret (- E_INVAL), s)
            | Some (page, f, k) \<Rightarrow>
                if perm AND PTE_W \<noteq> 0 \<and> pmem s f k AND PTE_W = 0 then Inr (Ret (- E_INVAL), s)
                else if env_ipc_dstva (envs s e) < UTOP then
                  bindE (env_dir e s) (\<lambda>d.
                  bindE (page_insert d page (env_ipc_dstva (envs s e)) perm s) (\<lambda>(r, s1).
                    if r < 0 then Inr (Ret (- E_NO_MEM), s1)
                    else ipc_deliver e val (upd_env e (\<lambda>v. v\<lparr>env_ipc_perm := perm\<rparr>) s1)))
                else ipc_deliver e val s))))
       else ipc_deliver e val (upd_env e (\<lambda>v. v\<lparr>env_ipc_perm := 0\<rparr>) s))"

definition sys_ipc_recv :: "u32 \<Rightarrow> kstate \<Rightarrow> (int outcome \<times> kstate) exec" where
  "sys_ipc_recv dstva s =
     (if dstva < UTOP \<and> PGOFF dstva \<noteq> 0 then Inr (Ret (- E_INVAL), s)
      else bindE (cur s) (\<lambda>c.
             sched_yield (upd_env c (\<lambda>v. v\<lparr>env_ipc_dstva := dstva, env_ipc_recving := True,
                            env_status := ENV_NOT_RUNNABLE\<rparr>) s)))"

end
