(* ===== verification/SyscallInv.thy ===== *)
theory SyscallInv
  imports Syscalls
begin

text \<open>
  Every system call keeps the kernel invariant: whatever the arguments, the handler does not
  panic and leaves the environment table, the page tables, the reference counters and the free
  lists consistent.
\<close>


section \<open>Writes to pages, allocation and release under the invariant\<close>

lemma view_elsewhere:
  assumes "\<And>f. f \<in> D \<union> tables D s \<Longrightarrow> pmem t f = pmem s f"
  shows "tables D t = tables D s" and "tables_ok D s \<Longrightarrow> tables_ok D t" and "same_view D s t"
    and "mappers D t = mappers D s"
proof -
  have d: "pde_present t d i = pde_present s d i" "pt_frame t d i = pt_frame s d i" if "d \<in> D" for d i
    using assms [of d] that by (simp_all add: pde_present_def pt_frame_def)
  show tb: "tables D t = tables D s" using dir_frame_cong(1) [of D t s] assms by simp
  show sv: "same_view D s t"
    unfolding same_view_def
  proof (intro ballI allI impI)
    fix d i j assume "d \<in> D" "i < (955 :: nat)"
    then show "pte_at t d i j = pte_at s d i j"
      using assms [of "pt_frame s d i"] tablesI [of d D i s] d
      by (cases "pde_present s d i") (simp_all add: pte_at_def)
  qed
  then show "mappers D t = mappers D s" by (rule mappers_cong)
  assume ok: "tables_ok D s"
  show "tables_ok D t" unfolding tables_ok_def tb
  proof (intro conjI allI impI)
    show "tables D s \<inter> D = {}" using tables_okD(1) [OF ok] .
    fix d i d' i'
    assume "d \<in> D \<and> i < 955 \<and> pde_present t d i \<and> d' \<in> D \<and> i' < 955 \<and> pde_present t d' i' \<and>
      pt_frame t d i = pt_frame t d' i'"
    then show "d = d'" "i = i'" using tables_okD(2) [OF ok, of d i d' i'] d [of d i] d [of d' i'] by auto
  qed
qed

lemma popped_inv:
  fixes fl :: u32
  assumes inv: "vm_inv D s" and fp: "free_pages s = p # ps"
  defines "t \<equiv> popped fl p s"
  shows "vm_inv D t" and "free_pages t = ps" and "same_view D s t" and "mappers D t p = {}" and "mappable D t p"
    and "kern_same s t" and "keeps D s t"
    and "\<And>q. mappable D s q \<Longrightarrow> mappable D t q \<and> pages t q = pages s q"
proof -
  note A = page_alloc_Cons [OF vm_invD(1) [OF inv] fp, of fl]
  have pf: "p \<in> set (free_pages s)" "p \<notin> set ps"
    using fp alloc_inv_distinct [OF vm_invD(1) [OF inv]] by auto
  have p: "p \<notin> D" "p \<notin> tables D s" using vm_invD(6,8) [OF inv, of p] pf(1) by auto
  show f: "free_pages t = ps" using A(3) by (simp add: t_def)
  have pm: "f \<in> D \<union> tables D s \<Longrightarrow> pmem t f = pmem s f" for f using p by (auto simp: t_def)
  note V = view_elsewhere [of D s t, OF pm]
  have tb: "tables D t = tables D s" by (rule V(1))
  show sv: "same_view D s t" by (rule V(3))
  have mp: "mappers D t = mappers D s" by (rule V(4))
  have pg: "q \<noteq> p \<Longrightarrow> pages t q = pages s q" for q by (simp add: t_def)
  have m0: "mappers D s p = {}" using vm_invD(9) [OF inv, of p] pf(1) by (auto simp: mappable_def)
  then show "mappers D t p = {}" by (simp add: mp)
  have r: "p < npages s" "pp_ref (pages s p) = 0" using A(4) by (auto simp: releasable_def t_def)
  show "kern_same s t" by (simp add: kern_same_def t_def)
  show mt: "mappable D t p" unfolding mappable_def mp tb f using r p pf(2) m0 by (simp add: t_def)
  show m: "mappable D s q \<Longrightarrow> mappable D t q \<and> pages t q = pages s q" for q
  proof -
    assume q: "mappable D s q"
    then have "q \<noteq> p" using pf(1) by (auto simp: mappable_def)
    then show ?thesis using q fp pg unfolding mappable_def mp tb f by (simp add: t_def)
  qed
  show "keeps D s t" unfolding keeps_def reserved_def tb f mp using fp pg by (auto simp: t_def)
  show "vm_inv D t" unfolding vm_inv_def
  proof (intro conjI)
    show "alloc_inv t" using A(2) by (simp add: t_def)
    show "pse_support t \<noteq> 1" "finite D" "tables_ok D t"
      using vm_invD(2,3,4) [OF inv] V(2) by (simp_all add: t_def)
    show "\<forall>f \<in> D \<union> tables D t. f < npages t \<and> f \<notin> set (free_pages t) \<and> pp_ref (pages t f) = 1"
      using vm_invD(5-8,12) [OF inv] p fp unfolding tb f by (auto simp: t_def)
    show "\<forall>q. mappers D t q \<noteq> {} \<longrightarrow> mappable D t q" using m vm_invD(9) [OF inv] by (simp add: mp)
    show "\<forall>q. q \<notin> set (free_pages t) \<longrightarrow> pp_link (pages t q) = None"
      using vm_invD(10) [OF inv] fp unfolding f by (auto simp: t_def)
  qed
qed

lemma freed_inv:
  assumes inv: "vm_inv D s" and p: "mappable D s p" and m0: "mappers D s p = {}"
  shows "\<exists>s'. page_free p s = Inr s' \<and> vm_inv D s' \<and> kern_same s s' \<and> pmem s' = pmem s \<and>
     free_pages s' = p # free_pages s \<and> (\<forall>q. q \<noteq> p \<longrightarrow> pages s' q = pages s q)"
proof -
  have pd: "p < npages s" "p \<notin> set (free_pages s)" "p \<notin> D" "p \<notin> tables D s" "unat (pp_ref (pages s p)) = 0"
    using p m0 by (simp_all add: mappable_def)
  then have rel: "releasable s p" using vm_invD(10) [OF inv, of p]
    by (simp add: releasable_def unat_eq_zero)
  define s' where "s' = (set_pp_link p (page_free_list s) s)\<lparr>page_free_list := Some p\<rparr>"
  note F = page_free_ok [OF vm_invD(1) [OF inv] rel, folded s'_def]
  have pm: "pmem s' = pmem s" by (simp add: s'_def)
  note V = view_cong [OF pm]
  have pg: "q \<noteq> p \<Longrightarrow> pages s' q = pages s q" for q by (simp add: s'_def)
  have m: "mappable D s' q" if "mappers D s q \<noteq> {}" for q
  proof -
    have "q \<noteq> p" using that m0 by auto
    then show ?thesis using vm_invD(9) [OF inv that] pg unfolding mappable_def V F(3) by (simp add: s'_def)
  qed
  have "vm_inv D s'" unfolding vm_inv_def
  proof (intro conjI)
    show "alloc_inv s'" by (rule F(2))
    show "pse_support s' \<noteq> 1" "finite D" using vm_invD(2,3) [OF inv] by (simp_all add: s'_def)
    show "tables_ok D s'" using vm_invD(4) [OF inv] by (simp add: V)
    show "\<forall>f \<in> D \<union> tables D s'. f < npages s' \<and> f \<notin> set (free_pages s') \<and> pp_ref (pages s' f) = 1"
      using vm_invD(5-8,12) [OF inv] pd unfolding V F(3) by (auto simp: s'_def)
    show "\<forall>q. mappers D s' q \<noteq> {} \<longrightarrow> mappable D s' q" using m by (simp add: V)
    show "\<forall>q. q \<notin> set (free_pages s') \<longrightarrow> pp_link (pages s' q) = None"
      using vm_invD(10) [OF inv] unfolding F(3) by (auto simp: s'_def)
  qed
  then show ?thesis using F(1,3) pg pm by (auto simp: s'_def kern_same_def)
qed

section \<open>Kernel-level contracts\<close>

definition sys_ok :: "('a outcome \<times> kstate) exec \<Rightarrow> bool" where
  "sys_ok m \<longleftrightarrow> (\<exists>r s. m = Inr (r, s) \<and> out_ok r s)"

text \<open>The state in which a system call starts.\<close>

definition in_call :: "kstate \<Rightarrow> nat \<Rightarrow> bool" where
  "in_call s c \<longleftrightarrow> kinv s \<and> cur_ok s \<and> curenv s = Some c"

lemma in_callD: "in_call s c \<Longrightarrow> kinv s" "in_call s c \<Longrightarrow> cur_ok s" "in_call s c \<Longrightarrow> curenv s = Some c"
  "in_call s c \<Longrightarrow> live s c" "in_call s c \<Longrightarrow> cur s = Inr c"
  by (auto simp: in_call_def cur_ok_def cur_def)

lemma cur_ok_same:
  "cur_ok s \<Longrightarrow> curenv s' = curenv s \<Longrightarrow> cpu_same s s' \<Longrightarrow> (\<And>e. live s e \<Longrightarrow> live s' e) \<Longrightarrow> cur_ok s'"
  by (simp add: cur_ok_def cpu_same_def)

lemma sys_ok_Ret: "kinv s \<Longrightarrow> cur_ok s \<Longrightarrow> sys_ok (Inr (Ret x, s))"
  by (simp add: sys_ok_def out_ok_def)

lemma sys_ok_soft:
  assumes "in_call s c" and "soft g (envs s e)"
  shows "sys_ok (Inr (Ret x, upd_env e g s))"
  using assms by (intro sys_ok_Ret) (auto simp: in_call_def kinv_soft cur_ok_def soft_cong)

lemma live_dir:
  assumes "kinv s" and "live s e"
  obtains d where "env_dir e s = Inr d" "d \<in> dirs s" "env_pgdir (envs s e) = Some d"
  using env_invD(5) [OF kinvD(1) [OF assms(1)] assms(2)] dirsI [OF assms(2)] that by (auto simp: env_dir_def)

lemma envid2env_spec:
  assumes "in_call s c"
  shows "(\<exists>e. envid2env envid checkperm s = Inr (0, Some e) \<and> live s e \<and>
            (if envid = 0 then e = c else env_id (envs s e) = envid \<and>
               (checkperm \<longrightarrow> e = c \<or> env_parent_id (envs s e) = env_id (envs s c)))) \<or>
         envid2env envid checkperm s = Inr (- E_BAD_ENV, None) \<and> envid \<noteq> 0 \<and>
            \<not> (\<exists>e. live s e \<and> env_id (envs s e) = envid \<and>
                 (checkperm \<longrightarrow> e = c \<or> env_parent_id (envs s e) = env_id (envs s c)))"
proof (cases "envid = 0")
  case True
  then show ?thesis using in_callD(3,4) [OF assms] by (simp add: envid2env_def)
next
  case False
  let ?e = "ENVX envid"
  have u: "e = ?e" if "live s e" "env_id (envs s e) = envid" for e
    using env_invD(3) [OF kinvD(1) [OF in_callD(1) [OF assms]], of e] that False by (auto simp: live_def)
  have lv: "live s ?e \<longleftrightarrow> env_status (envs s ?e) \<noteq> ENV_FREE" by (simp add: live_def ENVX_less)
  show ?thesis
  proof (cases "live s ?e \<and> env_id (envs s ?e) = envid \<and>
      (checkperm \<longrightarrow> ?e = c \<or> env_parent_id (envs s ?e) = env_id (envs s c))")
    case True
    then show ?thesis using False lv in_callD(3) [OF assms] by (auto simp: envid2env_def Let_def)
  next
    case bad: False
    then have "envid2env envid checkperm s = Inr (- E_BAD_ENV, None)"
      using False lv in_callD(3) [OF assms] by (auto simp: envid2env_def Let_def)
    moreover have "\<not> (\<exists>e. live s e \<and> env_id (envs s e) = envid \<and>
        (checkperm \<longrightarrow> e = c \<or> env_parent_id (envs s e) = env_id (envs s c)))"
      using bad u by metis
    ultimately show ?thesis using False by blast
  qed
qed

lemma with_env_ok:
  assumes "in_call s c" and "sys_ok (bad (- E_BAD_ENV))" and "\<And>e. live s e \<Longrightarrow> sys_ok (ok e)"
  shows "sys_ok (with_env envid checkperm s bad ok)"
  using envid2env_spec [OF assms(1), of envid checkperm] assms(2,3)
  by (auto simp: with_env_def E_BAD_ENV_def)

text \<open>A change of the address spaces alone.\<close>

lemma kinv_vm:
  assumes "kinv s" and "vm_inv (dirs s) s'" and ks: "kern_same s s'" and "keeps (dirs s) s s'"
    and "mappers (dirs s) s' (kern_pgdir s) = {}"
  shows "kinv s'" and "dirs s' = dirs s" and "live s' e = live s e" and "curenv s' = curenv s"
    and "envs s' = envs s"
proof -
  have e: "envs s' = envs s" "env_free_list s' = env_free_list s" using ks by (simp_all add: kern_same_def)
  note E = env_cong [OF e]
  show "kinv s'" unfolding kinv_def E
    using assms kern_ok_keeps [OF kinvD(3) [OF assms(1)] assms(4) ks assms(5)] kinvD(1) by blast
  show "dirs s' = dirs s" "live s' e = live s e" "envs s' = envs s" by (simp_all add: E e)
  show "curenv s' = curenv s" using ks by (simp add: kern_same_def)
qed

lemma page_insert_kinv:
  assumes k: "kinv s" and d: "d \<in> dirs s" and va: "va < UTOP" and pp: "mappable (dirs s) s pp"
    and perm: "perm AND NOT 0xFFF = 0" and c: "card (mappers (dirs s) s pp) < 65535" and ne: "pp \<noteq> kern_pgdir s"
  shows "\<exists>r s'. page_insert d pp va perm s = Inr (r, s') \<and> kinv s' \<and> dirs s' = dirs s \<and>
     (\<forall>e. live s' e = live s e) \<and> curenv s' = curenv s \<and> envs s' = envs s \<and> kern_same s s' \<and>
     mappable (dirs s) s' pp \<and>
     (r = - E_NO_MEM \<and> s' = s \<and> free_pages s = [] \<or> r = 0 \<and>
       upd_view (dirs s) s s' d (unat (PDX va)) (unat (PTX va)) (Some (page2pa pp OR perm OR PTE_P)))"
proof -
  let ?i = "unat (PDX va)" and ?j = "unat (PTX va)" and ?v = "page2pa pp OR perm OR PTE_P"
  have i: "?i < 955" using va by (simp add: user_va_iff)
  obtain r s' where r: "page_insert d pp va perm s = Inr (r, s')" "vm_inv (dirs s) s'" "kern_same s s'"
      "mappable (dirs s) s' pp" "keeps (dirs s) s s'"
      "r = - E_NO_MEM \<and> s' = s \<and> free_pages s = [] \<or> r = 0 \<and> upd_view (dirs s) s s' d ?i ?j (Some ?v)"
    using page_insert_spec [OF kinvD(2) [OF k] d va pp perm c] by blast
  have p20: "pp < 1048576" using pp vm_invD(11) [OF kinvD(2) [OF k]] by (simp add: mappable_def)
  have m0: "mappers (dirs s) s (kern_pgdir s) = {}" using kinvD(3) [OF k] by (simp add: kern_ok_def)
  have "mappers (dirs s) s' (kern_pgdir s) = {}"
    using r(6)
  proof
    assume "r = 0 \<and> upd_view (dirs s) s s' d ?i ?j (Some ?v)"
    then show ?thesis
      using mappers_upd_view [of "dirs s" s s' d ?i ?j "Some ?v" "kern_pgdir s", OF _ d i PTX_bound] m0
        leaf_flags(2) [OF p20 perm] ne by auto
  qed (use m0 in simp)
  from kinv_vm [OF k r(2,3,5) this] show ?thesis using r by blast
qed

lemma bad_permD: "\<not> bad_perm perm \<Longrightarrow> perm AND NOT 0xFFF = 0"
proof -
  assume "\<not> bad_perm perm"
  then have z: "perm AND NOT PTE_SYSCALL = 0" by (simp add: bad_perm_def)
  show ?thesis unfolding low_bits_iff
  proof (intro allI impI notI)
    fix n :: nat assume n: "12 \<le> n" and b: "bit perm n"
    have "n < 32" using bit_imp_le_length [OF b] by simp
    moreover have "PTE_SYSCALL AND NOT 0xFFF = 0" by (simp add: PTE_SYSCALL_def jos_const)
    then have "\<not> bit PTE_SYSCALL n" using n unfolding low_bits_iff by blast
    ultimately have "bit (perm AND NOT PTE_SYSCALL) n" using b by (simp add: bit_simps)
    then show False using z by simp
  qed
qed

section \<open>The handlers\<close>

lemma sys_getenvid_ok: "in_call s c \<Longrightarrow> sys_ok (sys_getenvid s)"
  by (simp add: sys_getenvid_def in_callD sys_ok_Ret)

lemma sys_yield_ok: "in_call s c \<Longrightarrow> sys_ok (sys_yield s)"
  using sched_yield_spec [OF in_callD(1,2)] unfolding sys_ok_def sys_yield_def by blast

lemma sys_env_destroy_ok:
  assumes "in_call s c"
  shows "sys_ok (sys_env_destroy envid s)"
  unfolding sys_env_destroy_def
proof (rule with_env_ok [OF assms])
  show "sys_ok (Inr (Ret (- E_BAD_ENV), s))" using assms by (simp add: in_callD sys_ok_Ret)
  fix e assume "live s e"
  then obtain r s' where r: "env_destroy e s = Inr (r, s')" "out_ok r s'"
    using env_destroy_spec [OF in_callD(1,2) [OF assms]] by blast
  then show "sys_ok (bindO (env_destroy e s) (\<lambda>_ s1. Inr (Ret 0, s1)))"
    by (cases r) (auto simp: sys_ok_def out_ok_def)
qed

lemma sys_exofork_ok:
  assumes c: "in_call s c"
  shows "sys_ok (sys_exofork s)"
proof -
  note k = in_callD(1) [OF c]
  let ?id = "env_id (envs s c)"
  consider (none) "env_alloc ?id s = Inr (- E_NO_FREE_ENV, None, s)"
    | (nomem) "env_alloc ?id s = Inr (- E_NO_MEM, None, s)"
    | (ok) e p s1 where "env_alloc ?id s = Inr (0, Some e, s1)" "kinv s1" "\<not> live s e"
        "envs s1 = (envs s)(e := new_env e ?id p (envs s e))" "curenv s1 = curenv s" "e < NENV" "cpu_same s s1"
    using env_alloc_spec [OF k, of ?id] by blast
  then show ?thesis
  proof cases
    case none
    then show ?thesis using c by (simp add: sys_exofork_def in_callD E_NO_FREE_ENV_def sys_ok_Ret)
  next
    case nomem
    then show ?thesis using c by (simp add: sys_exofork_def in_callD E_NO_MEM_def sys_ok_Ret)
  next
    case ok
    have "c \<noteq> e" using ok(3) in_callD(4) [OF c] by auto
    then have "live s1 c" using ok(4) in_callD(4) [OF c] by (simp add: live_def)
    then have c1: "in_call s1 c" using ok(2,5,7) in_callD(2,3) [OF c] by (simp add: in_call_def cur_ok_def cpu_same_def)
    have "soft (\<lambda>v. v\<lparr>env_status := ENV_NOT_RUNNABLE, env_tf := t\<rparr>) (envs s1 e)" for t
      by (simp add: soft_def ok(4) new_env_def)
    from sys_ok_soft [OF c1 this] show ?thesis
      using ok(1) c by (simp add: sys_exofork_def in_callD Let_def)
  qed
qed

lemma sys_env_set_status_ok:
  assumes c: "in_call s c"
  shows "sys_ok (sys_env_set_status envid status s)"
proof -
  have "sys_ok (with_env envid True s (\<lambda>_. Inr (Ret (- E_BAD_ENV), s))
      (\<lambda>e. Inr (Ret 0, upd_env e (\<lambda>v. v\<lparr>env_status := st\<rparr>) s)))"
    if "st = ENV_RUNNABLE \<or> st = ENV_NOT_RUNNABLE" for st
    using that c by (intro with_env_ok [OF c] sys_ok_soft [OF c]) (auto simp: in_callD sys_ok_Ret soft_def live_def)
  then show ?thesis using c
    by (auto simp: sys_env_set_status_def in_callD sys_ok_Ret split: option.split)
qed

lemma sys_env_set_pgfault_upcall_ok:
  assumes c: "in_call s c"
  shows "sys_ok (sys_env_set_pgfault_upcall envid func s)"
  unfolding sys_env_set_pgfault_upcall_def using c
  by (intro with_env_ok [OF c] sys_ok_soft [OF c]) (auto simp: in_callD sys_ok_Ret soft_def)

lemma sys_change_priority_ok:
  assumes c: "in_call s c"
  shows "sys_ok (sys_change_priority p s)"
  using c sys_ok_soft [OF c, of "\<lambda>v. v\<lparr>env_priority := p\<rparr>" c]
  by (auto simp: sys_change_priority_def in_callD sys_ok_Ret soft_def)

lemma sys_env_set_type_ok:
  assumes c: "in_call s c"
  shows "sys_ok (sys_env_set_type ty s)"
  using c sys_ok_soft [OF c, of "\<lambda>v. v\<lparr>env_type := t\<rparr>" c for t]
  by (auto simp: sys_env_set_type_def in_callD sys_ok_Ret soft_def split: option.split)

lemma sys_time_msec_ok: "in_call s c \<Longrightarrow> sys_ok (sys_time_msec s)"
  by (simp add: sys_time_msec_def in_callD sys_ok_Ret)

lemma bad_vaD: "\<not> bad_va va \<Longrightarrow> va < UTOP"
  by (simp add: bad_va_def not_le)

lemma sys_page_unmap_ok:
  assumes c: "in_call s c"
  shows "sys_ok (sys_page_unmap envid va s)"
  unfolding sys_page_unmap_def
proof (rule with_env_ok [OF c])
  show b: "sys_ok (Inr (Ret x, s))" for x :: int using c by (simp add: in_callD sys_ok_Ret)
  fix e assume e: "live s e"
  note k = in_callD(1) [OF c]
  obtain d where d: "env_dir e s = Inr d" "d \<in> dirs s" using live_dir [OF k e] .
  show "sys_ok (if bad_va va then Inr (Ret (- E_INVAL), s)
      else bindE (env_dir e s) (\<lambda>d. bindE (page_remove d va s) (\<lambda>s1. Inr (Ret 0, s1))))"
  proof (cases "bad_va va")
    case False
    note va = bad_vaD [OF False]
    obtain s1 where s1: "page_remove d va s = Inr s1" "vm_inv (dirs s) s1" "kern_same s s1" "keeps (dirs s) s s1"
        "upd_view (dirs s) s s1 d (unat (PDX va)) (unat (PTX va)) None"
      using page_remove_spec [OF kinvD(2) [OF k] d(2) va] by blast
    have "mappers (dirs s) s1 (kern_pgdir s) = {}"
      using mappers_upd_view [OF s1(5) d(2) _ PTX_bound, of "kern_pgdir s"] kinvD(3) [OF k] va
      by (simp add: kern_ok_def user_va_iff)
    note K = kinv_vm [OF k s1(2,3,4) this]
    have "cur_ok s1" using cur_ok_same [OF in_callD(2) [OF c]] kern_same_cpu [OF s1(3)] K by simp
    then show ?thesis using False d(1) s1(1) K(1) by (simp add: sys_ok_Ret)
  qed (use b in simp)
qed

text \<open>A page that some user address maps can be mapped once more.\<close>

lemma mapped_page:
  assumes k: "kinv s" and d: "d \<in> dirs s" and va: "va < UTOP"
    and l: "page_lookup d va s = Inr (Some (pp, f, j))"
  shows "mappable (dirs s) s pp" and "pp \<noteq> kern_pgdir s"
    and "pte_at s d (unat (PDX va)) (unat (PTX va)) = Some (pmem s f j)" and "pp = unat (PGNUM (pmem s f j))"
proof -
  obtain e where e: "pte_at s d (unat (PDX va)) (unat (PTX va)) = Some e" "pp = unat (PGNUM e)"
      "f = pt_frame s d (unat (PDX va))" "j = unat (PTX va)"
    using l page_lookup_spec [OF kinvD(2) [OF k] d va] by (auto split: option.splits)
  then have "e = pmem s f j" by (simp add: pte_at_def split: if_splits)
  then show "pte_at s d (unat (PDX va)) (unat (PTX va)) = Some (pmem s f j)" "pp = unat (PGNUM (pmem s f j))"
    using e by simp_all
  have "(d, unat (PDX va), unat (PTX va)) \<in> mappers (dirs s) s pp"
    using e d va PTX_bound [of va] by (simp add: mappers_def user_va_iff)
  then have m: "mappers (dirs s) s pp \<noteq> {}" by blast
  then show "mappable (dirs s) s pp" by (rule vm_invD(9) [OF kinvD(2) [OF k]])
  show "pp \<noteq> kern_pgdir s" using m kinvD(3) [OF k] by (auto simp: kern_ok_def)
qed

definition refs_small :: "kstate \<Rightarrow> bool" where
  "refs_small s \<longleftrightarrow> (\<forall>p. card (mappers (dirs s) s p) < 65535)"

lemma sys_page_map_ok:
  assumes c: "in_call s c" and small: "refs_small s"
  shows "sys_ok (sys_page_map srcenvid srcva dstenvid dstva perm s)"
  unfolding sys_page_map_def
proof (rule with_env_ok [OF c], goal_cases)
  case 1
  show ?case using c by (simp add: in_callD sys_ok_Ret)
next
  case (2 src)
  show ?case
  proof (rule with_env_ok [OF c], goal_cases)
    case 1
    show ?case using c by (simp add: in_callD sys_ok_Ret)
  next
    case (2 dst)
    note k = in_callD(1) [OF c]
    have b: "sys_ok (Inr (Ret x, s))" for x :: int using c by (simp add: in_callD sys_ok_Ret)
    obtain sd where sd: "env_dir src s = Inr sd" "sd \<in> dirs s" using live_dir [OF k \<open>live s src\<close>] .
    obtain dd where dd: "env_dir dst s = Inr dd" "dd \<in> dirs s" using live_dir [OF k \<open>live s dst\<close>] .
    show ?case
    proof (cases "bad_va srcva \<or> bad_va dstva \<or> bad_perm perm")
      case False
      then have va: "srcva < UTOP" "dstva < UTOP" and p: "perm AND NOT 0xFFF = 0"
        using bad_vaD bad_permD by auto
      obtain r where r: "page_lookup sd srcva s = Inr r"
        using page_lookup_spec [OF kinvD(2) [OF k] sd(2) va(1)] by blast
      show ?thesis
      proof (cases r)
        case None
        then show ?thesis using False sd r b by simp
      next
        case (Some x)
        obtain pp f j where x: "x = (pp, f, j)" by (cases x)
        note M = mapped_page(1,2) [OF k sd(2) va(1), of pp f j]
        have "card (mappers (dirs s) s pp) < 65535" using small by (simp add: refs_small_def)
        then obtain q s1 where "page_insert dd pp dstva perm s = Inr (q, s1)" "kinv s1"
            "\<forall>e. live s1 e = live s e" "curenv s1 = curenv s" "cpu_same s s1"
          using page_insert_kinv [OF k dd(2) va(2) _ p] M r Some x kern_same_cpu by blast
        then show ?thesis using False sd dd r Some x b cur_ok_same [OF in_callD(2) [OF c], of s1]
          by (auto simp: sys_ok_Ret)
      qed
    qed (use b in simp)
  qed
qed

lemma kinv_popped:
  assumes k: "kinv s" and fp: "free_pages s = p # ps"
  shows "kinv (popped fl p s)" and "dirs (popped fl p s) = dirs s" and "live (popped fl p s) e = live s e"
    and "p \<noteq> kern_pgdir s"
proof -
  note P = popped_inv [OF kinvD(2) [OF k] fp, where fl = fl]
  have "mappers (dirs s) (popped fl p s) (kern_pgdir s) = {}"
    using mappers_cong [OF P(3)] kinvD(3) [OF k] by (simp add: kern_ok_def)
  note K = kinv_vm [OF k P(1,6,7) this]
  show "kinv (popped fl p s)" "dirs (popped fl p s) = dirs s" "live (popped fl p s) e = live s e" by (rule K)+
  show "p \<noteq> kern_pgdir s" using kinvD(3) [OF k] fp by (auto simp: kern_ok_def reserved_def)
qed

lemma kinv_page_free:
  assumes k: "kinv s" and p: "mappable (dirs s) s p" and m: "mappers (dirs s) s p = {}" and ne: "p \<noteq> kern_pgdir s"
  shows "\<exists>s'. page_free p s = Inr s' \<and> kinv s' \<and> (\<forall>e. live s' e = live s e) \<and> curenv s' = curenv s \<and> cpu_same s s'"
proof -
  obtain s' where s': "page_free p s = Inr s'" "vm_inv (dirs s) s'" "kern_same s s'" "pmem s' = pmem s"
      "free_pages s' = p # free_pages s" "\<forall>q. q \<noteq> p \<longrightarrow> pages s' q = pages s q"
    using freed_inv [OF kinvD(2) [OF k] p m] by blast
  note V = view_cong [OF s'(4)]
  have e: "envs s' = envs s" "env_free_list s' = env_free_list s" using s'(3) by (simp_all add: kern_same_def)
  note E = env_cong [OF e]
  have "kern_ok (dirs s) s'" using kinvD(3) [OF k] ne s'(3) unfolding kern_ok_def reserved_def V s'(5)
    by (simp add: kern_same_def V)
  then have "kinv s'" unfolding kinv_def E using kinvD(1) [OF k] s'(2) by blast
  then show ?thesis using s'(1,3) kern_same_cpu [OF s'(3)] by (auto simp: E kern_same_def)
qed

lemma sys_page_alloc_ok:
  assumes c: "in_call s c"
  shows "sys_ok (sys_page_alloc envid va perm s)"
  unfolding sys_page_alloc_def
proof (rule with_env_ok [OF c])
  show b: "sys_ok (Inr (Ret x, s))" for x :: int using c by (simp add: in_callD sys_ok_Ret)
  fix e assume e: "live s e"
  note k = in_callD(1) [OF c]
  show "sys_ok (if bad_va va \<or> bad_perm perm then Inr (Ret (- E_INVAL), s)
       else bindE (page_alloc ALLOC_ZERO s) (\<lambda>(page, s1).
         case page of
           None \<Rightarrow> Inr (Ret (- E_NO_MEM), s1)
         | Some p \<Rightarrow>
             bindE (env_dir e s1) (\<lambda>d.
             bindE (page_insert d p va perm s1) (\<lambda>(r, s2).
               if r < 0 then bindE (page_free p s2) (\<lambda>s3. Inr (Ret (- E_NO_MEM), s3))
               else Inr (Ret 0, s2)))))"
  proof (cases "bad_va va \<or> bad_perm perm")
    case False
    then have va: "va < UTOP" and p: "perm AND NOT 0xFFF = 0" using bad_vaD bad_permD by auto
    show ?thesis
    proof (cases "free_pages s")
      case Nil
      then show ?thesis using False b page_alloc_empty [OF kinvD(4) [OF k] Nil, of ALLOC_ZERO] by simp
    next
      case (Cons p ps)
      define t where "t = popped ALLOC_ZERO p s"
      note K = kinv_popped(1-3) [OF k Cons, where fl = ALLOC_ZERO, folded t_def]
      note P = popped_inv [OF kinvD(2) [OF k] Cons, where fl = ALLOC_ZERO, folded t_def]
      have cu: "curenv t = curenv s" "kern_pgdir t = kern_pgdir s" using P(6) by (simp_all add: kern_same_def)
      have ct: "cur_ok t" using cur_ok_same [OF in_callD(2) [OF c]] kern_same_cpu [OF P(6)] K(3) cu by simp
      have et: "live t e" using e K(3) by simp
      obtain d where d: "env_dir e t = Inr d" "d \<in> dirs t" using live_dir [OF K(1) et] .
      have pt: "mappable (dirs t) t p" "card (mappers (dirs t) t p) < 65535" "p \<noteq> kern_pgdir t"
        using P(4,5) K(2) kinv_popped(4) [OF k Cons] cu by simp_all
      obtain r s2 where r: "page_insert d p va perm t = Inr (r, s2)" "kinv s2"
          "\<forall>e. live s2 e = live t e" "curenv s2 = curenv t" "cpu_same t s2" "r = - E_NO_MEM \<and> s2 = t \<or> r = 0"
        using page_insert_kinv [OF K(1) d(2) va pt(1) \<open>perm AND NOT 0xFFF = 0\<close> pt(2,3)] kern_same_cpu by blast
      obtain s3 where s3: "page_free p t = Inr s3" "kinv s3" "\<forall>e. live s3 e = live t e" "curenv s3 = curenv t" "cpu_same t s3"
        using kinv_page_free [OF K(1) pt(1) _ pt(3)] P(4) K(2) by auto
      have al: "page_alloc ALLOC_ZERO s = Inr (Some p, t)"
        using page_alloc_Cons(1) [OF kinvD(4) [OF k] Cons] by (simp add: t_def)
      show ?thesis using r(6)
      proof
        assume "r = - E_NO_MEM \<and> s2 = t"
        then show ?thesis using False al d(1) r(1) s3 cur_ok_same [OF ct, of s3]
          by (simp add: E_NO_MEM_def sys_ok_Ret)
      next
        assume "r = 0"
        then show ?thesis using False al d(1) r cur_ok_same [OF ct, of s2] by (simp add: sys_ok_Ret)
      qed
    qed
  qed (use b in simp)
qed

lemma ipc_deliver_ok:
  assumes c: "in_call s c" and e: "live s e"
  shows "sys_ok (ipc_deliver e val s)"
  unfolding ipc_deliver_def in_callD(5) [OF c] bindE_simps Let_def
  by (rule sys_ok_soft [OF c]) (use e in \<open>simp add: soft_def live_def\<close>)

lemma in_call_soft:
  assumes c: "in_call s c" and "soft g (envs s e)"
  shows "in_call (upd_env e g s) c" and "live (upd_env e g s) x = live s x"
  using assms by (simp_all add: in_call_def kinv_soft soft_cong cur_ok_def)

lemma sys_ipc_try_send_ok:
  assumes c: "in_call s c" and small: "refs_small s"
  shows "sys_ok (sys_ipc_try_send envid val srcva perm s)"
  unfolding sys_ipc_try_send_def
proof (rule with_env_ok [OF c], goal_cases)
  case 1
  show ?case using c by (simp add: in_callD sys_ok_Ret)
next
  case (2 e)
  note k = in_callD(1) [OF c] and cc = in_callD(5) [OF c]
  have b: "sys_ok (Inr (Ret x, s))" for x :: int using c by (simp add: in_callD sys_ok_Ret)
  have sp: "soft (\<lambda>v. v\<lparr>env_ipc_perm := w\<rparr>) v" for w v by (simp add: soft_def)
  have deliver: "sys_ok (ipc_deliver e val (upd_env e (\<lambda>v. v\<lparr>env_ipc_perm := w\<rparr>) t))"
    if "in_call t c" "live t e" for t w
    using ipc_deliver_ok [OF in_call_soft(1) [OF that(1) sp]] in_call_soft(2) [OF that(1) sp] that(2) by blast
  obtain cd where cd: "env_dir c s = Inr cd" "cd \<in> dirs s" using live_dir [OF k in_callD(4) [OF c]] .
  obtain ed where ed: "env_dir e s = Inr ed" "ed \<in> dirs s" using live_dir [OF k \<open>live s e\<close>] .
  show ?case
  proof (cases "env_ipc_recving (envs s e) \<and> srcva < UTOP \<and> \<not> (PGOFF srcva \<noteq> 0 \<or> bad_perm perm)")
    case False
    then show ?thesis using b deliver [OF c \<open>live s e\<close>] by auto
  next
    case True
    then have va: "srcva < UTOP" and p: "perm AND NOT 0xFFF = 0" using bad_permD by auto
    obtain r where r: "page_lookup cd srcva s = Inr r"
      using page_lookup_spec [OF kinvD(2) [OF k] cd(2) va] by blast
    show ?thesis
    proof (cases r)
      case None
      then show ?thesis using True cd r b by (simp add: cc)
    next
      case (Some x)
      obtain pp f j where x: "x = (pp, f, j)" by (cases x)
      note M = mapped_page(1,2) [OF k cd(2) va, of pp f j]
      have small': "card (mappers (dirs s) s pp) < 65535" using small by (simp add: refs_small_def)
      have ins: "sys_ok (bindE (page_insert ed pp dst perm s) (\<lambda>(r, s1).
          if r < 0 then Inr (Ret (- E_NO_MEM), s1)
          else ipc_deliver e val (upd_env e (\<lambda>v. v\<lparr>env_ipc_perm := perm\<rparr>) s1)))" if dst: "dst < UTOP" for dst
      proof -
        obtain q s1 where q: "page_insert ed pp dst perm s = Inr (q, s1)" "kinv s1"
            "\<forall>e. live s1 e = live s e" "curenv s1 = curenv s" "cpu_same s s1"
          using page_insert_kinv [OF k ed(2) dst _ p small'] M r Some x kern_same_cpu by blast
        have c1: "in_call s1 c" using q cur_ok_same [OF in_callD(2) [OF c], of s1] in_callD(3) [OF c] by (simp add: in_call_def)
        show ?thesis using q deliver [OF c1] \<open>live s e\<close> c1 by (simp add: in_callD sys_ok_Ret)
      qed
      show ?thesis using True cd r Some x ed b ins ipc_deliver_ok [OF c \<open>live s e\<close>] by (simp add: cc)
    qed
  qed
qed

lemma sys_ipc_recv_ok:
  assumes c: "in_call s c"
  shows "sys_ok (sys_ipc_recv dstva s)"
proof -
  have "soft (\<lambda>v. v\<lparr>env_ipc_dstva := dstva, env_ipc_recving := True, env_status := ENV_NOT_RUNNABLE\<rparr>) (envs s c)"
    using in_callD(4) [OF c] by (simp add: soft_def live_def)
  note c1 = in_call_soft(1) [OF c this]
  show ?thesis
    using sched_yield_spec [OF in_callD(1,2) [OF c1]] c unfolding sys_ipc_recv_def sys_ok_def
    by (auto simp: in_callD out_ok_def)
qed

end
