(* ===== verification/Fifo.thy ===== *)
theory Fifo
  imports Prelude
begin

text \<open>
  First-in first-out buffers. JOS has circular buffers with a read and a write position in
  the console, the mouse driver, the pipes and the descriptor rings of the network card. The
  locale \<open>fifo\<close> states what their clients rely on; that any interleaving of puts and gets
  which never overfills the buffer delivers in order is proved once. \<open>ring\<close> is the part of a
  circular array of size \<open>N\<close> between two positions, the contents in each of the instances.
\<close>

section \<open>Circular arrays\<close>

definition ring_len :: "nat \<Rightarrow> nat \<Rightarrow> nat \<Rightarrow> nat" where
  "ring_len N r w = (w + N - r) mod N"

definition ring :: "nat \<Rightarrow> (nat \<Rightarrow> 'a) \<Rightarrow> nat \<Rightarrow> nat \<Rightarrow> 'a list" where
  "ring N buf r w = map (\<lambda>i. buf ((r + i) mod N)) [0..<ring_len N r w]"

definition ring_next :: "nat \<Rightarrow> nat \<Rightarrow> nat" where
  "ring_next N p = (if p + 1 = N then 0 else p + 1)"

datatype 'a fifo_op = Put 'a | Get

text \<open>The values that the \<open>Get\<close>s of a sequence of operations obtain, with the state reached.\<close>

fun fifo_run :: "('a \<Rightarrow> 's \<Rightarrow> 's) \<Rightarrow> ('s \<Rightarrow> 'a option \<times> 's) \<Rightarrow> 'a fifo_op list \<Rightarrow> 's \<Rightarrow> 'a list \<times> 's" where
  "fifo_run put get [] s = ([], s)"
| "fifo_run put get (Put x # ops) s = fifo_run put get ops (put x s)"
| "fifo_run put get (Get # ops) s =
     (let (r, s1) = get s; (out, s2) = fifo_run put get ops s1
      in ((case r of None \<Rightarrow> out | Some x \<Rightarrow> x # out), s2))"

fun fifo_puts :: "'a fifo_op list \<Rightarrow> 'a list" where
  "fifo_puts [] = []"
| "fifo_puts (Put x # ops) = x # fifo_puts ops"
| "fifo_puts (Get # ops) = fifo_puts ops"

text \<open>Starting with \<open>n\<close> entries, no \<open>Put\<close> meets a buffer that already holds \<open>cap\<close>.\<close>

fun fifo_fits :: "nat \<Rightarrow> 'a fifo_op list \<Rightarrow> nat \<Rightarrow> bool" where
  "fifo_fits cap [] n \<longleftrightarrow> True"
| "fifo_fits cap (Put x # ops) n \<longleftrightarrow> n < cap \<and> fifo_fits cap ops (n + 1)"
| "fifo_fits cap (Get # ops) n \<longleftrightarrow> fifo_fits cap ops (n - 1)"

section \<open>The contract\<close>

locale fifo =
  fixes contents :: "'s \<Rightarrow> 'a list"
    and valid :: "'s \<Rightarrow> bool"
    and cap :: nat
    and put :: "'a \<Rightarrow> 's \<Rightarrow> 's"
    and get :: "'s \<Rightarrow> 'a option \<times> 's"
  assumes put_contents:
      "valid s \<Longrightarrow> length (contents s) < cap \<Longrightarrow> contents (put x s) = contents s @ [x]"
    and put_valid: "valid s \<Longrightarrow> length (contents s) < cap \<Longrightarrow> valid (put x s)"
    and get_empty: "valid s \<Longrightarrow> contents s = [] \<Longrightarrow> get s = (None, s)"
    and get_nonempty:
      "valid s \<Longrightarrow> contents s = x # q \<Longrightarrow>
         fst (get s) = Some x \<and> contents (snd (get s)) = q \<and> valid (snd (get s))"
begin

lemma in_order:
  assumes "valid s" and "fifo_fits cap ops (length (contents s))"
  shows "fst (fifo_run put get ops s) @ contents (snd (fifo_run put get ops s)) =
           contents s @ fifo_puts ops \<and> valid (snd (fifo_run put get ops s))"
  using assms
proof (induction ops arbitrary: s)
  case Nil
  then show ?case by simp
next
  case (Cons a ops)
  show ?case
  proof (cases a)
    case (Put x)
    with Cons.prems have len: "length (contents s) < cap" by simp
    note p = put_contents [OF Cons.prems(1) len, of x] put_valid [OF Cons.prems(1) len, of x]
    from Cons.IH [OF p(2)] show ?thesis using Cons.prems(2) Put p(1) by simp
  next
    case Get
    show ?thesis
    proof (cases "contents s")
      case Nil
      with get_empty [OF Cons.prems(1)] have "get s = (None, s)" by simp
      with Cons.IH [OF Cons.prems(1)] Cons.prems(2) Get Nil show ?thesis
        by (simp add: case_prod_beta Let_def)
    next
      case (Cons x q)
      note g = get_nonempty [OF Cons.prems(1) Cons]
      with Cons.IH [of "snd (get s)"] Cons.prems(2) Get Cons show ?thesis
        by (simp add: case_prod_beta Let_def)
    qed
  qed
qed

end

section \<open>Facts on circular arrays\<close>

lemma ring_len_less: "0 < N \<Longrightarrow> ring_len N r w < N"
  by (simp add: ring_len_def)

lemma length_ring [simp]: "length (ring N buf r w) = ring_len N r w"
  by (simp add: ring_def)

lemma ring_next_mod: "p < N \<Longrightarrow> ring_next N p = (p + 1) mod N"
  by (auto simp: ring_next_def)

lemma ring_next_less: "p < N \<Longrightarrow> ring_next N p < N"
  by (auto simp: ring_next_def)

lemma ring_len_alt:
  "r < N \<Longrightarrow> w < N \<Longrightarrow> ring_len N r w = (if r \<le> w then w - r else w + N - r)"
  by (auto simp: ring_len_def mod_if)

lemma ring_empty_iff: "r < N \<Longrightarrow> w < N \<Longrightarrow> ring N buf r w = [] \<longleftrightarrow> r = w"
  by (auto simp: ring_def ring_len_alt split: if_splits)

lemma ring_put:
  assumes "r < N" and "w < N" and "ring_len N r w < N - 1"
  shows "ring N (buf(w := x)) r (ring_next N w) = ring N buf r w @ [x]"
proof -
  have l: "ring_len N r (ring_next N w) = Suc (ring_len N r w)"
    using assms by (auto simp: ring_len_alt ring_next_def split: if_splits)
  have w: "(r + ring_len N r w) mod N = w"
    using assms by (auto simp: ring_len_alt)
  have "(r + i) mod N \<noteq> w" if "i < ring_len N r w" for i
    using that assms by (auto simp: ring_len_alt mod_if split: if_splits)
  then show ?thesis by (simp add: ring_def l w)
qed

text \<open>A put into a ring that holds \<open>N - 1\<close> entries makes the positions equal: everything is lost.\<close>

lemma ring_put_full:
  assumes "r < N" and "w < N" and "ring_len N r w = N - 1"
  shows "ring N (buf(w := x)) r (ring_next N w) = []"
proof -
  have "ring_next N w = r"
    using assms by (auto simp: ring_len_alt ring_next_def split: if_splits)
  with assms show ?thesis by (simp add: ring_empty_iff)
qed

lemma ring_get:
  assumes "r < N" and "w < N" and "r \<noteq> w"
  shows "ring N buf r w = buf r # ring N buf (ring_next N r) w"
proof -
  have l: "ring_len N r w = Suc (ring_len N (ring_next N r) w)"
    using assms by (auto simp: ring_len_alt ring_next_def split: if_splits)
  have "(r + Suc i) mod N = (ring_next N r + i) mod N" for i
    using assms(1) by (simp add: ring_next_mod mod_simps)
  then show ?thesis using assms(1)
    by (simp add: ring_def l map_upt_Suc del: upt_Suc)
qed

end
