(* ===== verification/Console.thy ===== *)
theory Console
  imports Fifo
begin

text \<open>
  The console driver of \<^verbatim>\<open>kern/console.c\<close>: the circular input buffer that keyboard and
  serial interrupts fill and \<^verbatim>\<open>cons_getc\<close> empties, the keyboard scan code translation and
  the text screen. The devices are input queues (what the keyboard controller and the UART
  would deliver next) and output sequences; busy-wait delays have no effect on the model.
\<close>

section \<open>State\<close>

definition CONSBUFSIZE :: nat where CONSBUFSIZE_def [jos_const]: "CONSBUFSIZE = 512"
definition CRT_ROWS :: nat where CRT_ROWS_def [jos_const]: "CRT_ROWS = 25"
definition CRT_COLS :: nat where CRT_COLS_def [jos_const]: "CRT_COLS = 80"
definition CRT_SIZE :: nat where CRT_SIZE_def [jos_const]: "CRT_SIZE = CRT_ROWS * CRT_COLS"

text \<open>A byte of the keyboard controller comes with bit 5 of the status port: set for mouse data.\<close>

record console =
  cons_buf :: "nat \<Rightarrow> u8"
  rpos :: nat
  wpos :: nat
  kbd_shift :: u32
  serial_exists :: bool
  crt_buf :: "nat \<Rightarrow> u16"
  crt_pos :: nat
  kbd_in :: "(bool \<times> u8) list"
  serial_in :: "u8 list"
  serial_out :: "u8 list"
  lpt_out :: "u8 list"
  cursor_regs :: "u8 \<times> u8"
  reboot :: bool

section \<open>Output\<close>

definition serial_putc :: "u32 \<Rightarrow> console \<Rightarrow> console" where
  "serial_putc c s = s\<lparr>serial_out := serial_out s @ [ucast c]\<rparr>"

definition lpt_putc :: "u32 \<Rightarrow> console \<Rightarrow> console" where
  "lpt_putc c s = s\<lparr>lpt_out := lpt_out s @ [ucast c]\<rparr>"

definition crt_scroll :: "console \<Rightarrow> console" where
  "crt_scroll s =
     (if crt_pos s \<ge> CRT_SIZE
      then s\<lparr>crt_buf := (\<lambda>i. if i < CRT_SIZE - CRT_COLS then crt_buf s (i + CRT_COLS)
                             else if i < CRT_SIZE then 0x0720 else crt_buf s i),
             crt_pos := crt_pos s - CRT_COLS\<rparr>
      else s)"

definition crt_cursor :: "console \<Rightarrow> console" where
  "crt_cursor s = s\<lparr>cursor_regs := (of_nat (crt_pos s div 256), of_nat (crt_pos s))\<rparr>"

text \<open>The position is a 16-bit variable; \<open>crt_newline\<close> is the case \<^verbatim>\<open>'\n'\<close>, \<open>crt_return\<close> the case \<^verbatim>\<open>'\r'\<close>.\<close>

definition crt_return :: "console \<Rightarrow> console" where
  "crt_return s = s\<lparr>crt_pos := crt_pos s - crt_pos s mod CRT_COLS\<rparr>"

definition crt_newline :: "console \<Rightarrow> console" where
  "crt_newline s = crt_return (s\<lparr>crt_pos := (crt_pos s + CRT_COLS) mod 65536\<rparr>)"

definition crt_char :: "u32 \<Rightarrow> console \<Rightarrow> console" where
  "crt_char c s = s\<lparr>crt_buf := (crt_buf s)(crt_pos s := ucast c), crt_pos := (crt_pos s + 1) mod 65536\<rparr>"

definition crt_backspace :: "u32 \<Rightarrow> console \<Rightarrow> console" where
  "crt_backspace c s =
     (if crt_pos s > 0
      then s\<lparr>crt_pos := crt_pos s - 1,
             crt_buf := (crt_buf s)(crt_pos s - 1 := ucast ((c AND NOT 0xFF) OR 32))\<rparr>
      else s)"

definition cga_attr :: "u32 \<Rightarrow> u32" where
  "cga_attr c = (if c AND NOT 0xFF = 0 then c OR 0x0700 else c)"

text \<open>
  \<^verbatim>\<open>cga_putc\<close> prints a tab by calling \<^verbatim>\<open>cons_putc\<close>, which calls \<^verbatim>\<open>cga_putc\<close> again, for five
  blanks. \<open>cga_plain\<close> is the function on every other character, where it does not recurse.
\<close>

definition cga_plain :: "u32 \<Rightarrow> console \<Rightarrow> console" where
  "cga_plain c0 s =
     (let c = cga_attr c0; ch = c AND 0xFF in
      crt_cursor (crt_scroll
        (if ch = 8 then crt_backspace c s
         else if ch = 10 then crt_newline s
         else if ch = 13 then crt_return s
         else crt_char c s)))"

definition cons_blank :: "console \<Rightarrow> console" where
  "cons_blank s = cga_plain 32 (lpt_putc 32 (serial_putc 32 s))"

definition cga_putc :: "u32 \<Rightarrow> console \<Rightarrow> console" where
  "cga_putc c s =
     (if c AND 0xFF = 9 then crt_cursor (crt_scroll ((cons_blank ^^ 5) s))
      else cga_plain c s)"

definition cons_putc :: "u32 \<Rightarrow> console \<Rightarrow> console" where
  "cons_putc c s = cga_putc c (lpt_putc c (serial_putc c s))"

definition cputchar :: "u32 \<Rightarrow> console \<Rightarrow> console" where
  "cputchar c s = cons_putc c s"

text \<open>A \<^verbatim>\<open>cprintf\<close> of a constant string.\<close>

definition cputs_string :: "string \<Rightarrow> console \<Rightarrow> console" where
  "cputs_string str s = fold (\<lambda>ch. cputchar (of_char ch)) str s"

section \<open>Keyboard\<close>

definition SHIFT :: u32 where SHIFT_def [jos_const]: "SHIFT = 1"
definition CTL :: u32 where CTL_def [jos_const]: "CTL = 2"
definition ALT :: u32 where ALT_def [jos_const]: "ALT = 4"
definition CAPSLOCK :: u32 where CAPSLOCK_def [jos_const]: "CAPSLOCK = 8"
definition NUMLOCK :: u32 where NUMLOCK_def [jos_const]: "NUMLOCK = 16"
definition SCROLLLOCK :: u32 where SCROLLLOCK_def [jos_const]: "SCROLLLOCK = 32"
definition E0ESC :: u32 where E0ESC_def [jos_const]: "E0ESC = 64"

definition KEY_HOME :: u8 where KEY_HOME_def [jos_const]: "KEY_HOME = 0xE0"
definition KEY_END :: u8 where KEY_END_def [jos_const]: "KEY_END = 0xE1"
definition KEY_UP :: u8 where KEY_UP_def [jos_const]: "KEY_UP = 0xE2"
definition KEY_DN :: u8 where KEY_DN_def [jos_const]: "KEY_DN = 0xE3"
definition KEY_LF :: u8 where KEY_LF_def [jos_const]: "KEY_LF = 0xE4"
definition KEY_RT :: u8 where KEY_RT_def [jos_const]: "KEY_RT = 0xE5"
definition KEY_PGUP :: u8 where KEY_PGUP_def [jos_const]: "KEY_PGUP = 0xE6"
definition KEY_PGDN :: u8 where KEY_PGDN_def [jos_const]: "KEY_PGDN = 0xE7"
definition KEY_INS :: u8 where KEY_INS_def [jos_const]: "KEY_INS = 0xE8"
definition KEY_DEL :: u8 where KEY_DEL_def [jos_const]: "KEY_DEL = 0xE9"

definition kr :: "string \<Rightarrow> u8 list" where
  "kr cs = map of_char cs"

definition table :: "u8 list \<Rightarrow> nat \<Rightarrow> u8" where
  "table xs i = (if i < length xs then xs ! i else 0)"

definition shiftcode :: "nat \<Rightarrow> u32" where
  "shiftcode = (\<lambda>_. 0)(0x1D := CTL, 0x2A := SHIFT, 0x36 := SHIFT, 0x38 := ALT, 0x9D := CTL, 0xB8 := ALT)"

definition togglecode :: "nat \<Rightarrow> u32" where
  "togglecode = (\<lambda>_. 0)(0x3A := CAPSLOCK, 0x45 := NUMLOCK, 0x46 := SCROLLLOCK)"

definition normalmap :: "nat \<Rightarrow> u8" where
  "normalmap = (table
     ([0, 0x1B] @ kr ''123456'' @
      kr ''7890-='' @ [8, 9] @
      kr ''qwertyui'' @
      kr ''op[]'' @ [10, 0] @ kr ''as'' @
      kr ''dfghjkl;'' @
      [39, 96, 0, 92] @ kr ''zxcv'' @
      kr ''bnm,./'' @ [0] @ kr ''*'' @
      [0, 32, 0, 0, 0, 0, 0, 0] @
      [0, 0, 0, 0, 0, 0, 0] @ kr ''7'' @
      kr ''89-456+1'' @
      kr ''230.'' @ [0, 0, 0, 0]))
     (0xC7 := KEY_HOME, 0x9C := 10, 0xB5 := 47, 0xC8 := KEY_UP, 0xC9 := KEY_PGUP, 0xCB := KEY_LF,
      0xCD := KEY_RT, 0xCF := KEY_END, 0xD0 := KEY_DN, 0xD1 := KEY_PGDN, 0xD2 := KEY_INS, 0xD3 := KEY_DEL)"

definition shiftmap :: "nat \<Rightarrow> u8" where
  "shiftmap = (table
     ([0, 27] @ kr ''!@#$%^'' @
      kr ''&*()_+'' @ [8, 9] @
      kr ''QWERTYUI'' @
      kr ''OP{}'' @ [10, 0] @ kr ''AS'' @
      kr ''DFGHJKL:'' @
      [34, 126, 0] @ kr ''|ZXCV'' @
      kr ''BNM<>?'' @ [0] @ kr ''*'' @
      [0, 32, 0, 0, 0, 0, 0, 0] @
      [0, 0, 0, 0, 0, 0, 0] @ kr ''7'' @
      kr ''89-456+1'' @
      kr ''230.'' @ [0, 0, 0, 0]))
     (0xC7 := KEY_HOME, 0x9C := 10, 0xB5 := 47, 0xC8 := KEY_UP, 0xC9 := KEY_PGUP, 0xCB := KEY_LF,
      0xCD := KEY_RT, 0xCF := KEY_END, 0xD0 := KEY_DN, 0xD1 := KEY_PGDN, 0xD2 := KEY_INS, 0xD3 := KEY_DEL)"

text \<open>\<^verbatim>\<open>C(x)\<close> is the control character of \<open>x\<close>.\<close>

definition kc :: "string \<Rightarrow> u8 list" where
  "kc cs = map (\<lambda>c. of_char c - 64) cs"

definition ctlmap :: "nat \<Rightarrow> u8" where
  "ctlmap = (table
     (replicate 16 0 @
      kc ''QWERTYUI'' @
      kc ''OP'' @ [0, 0, 13, 0] @ kc ''AS'' @
      kc ''DFGHJKL'' @ [0] @
      [0, 0, 0, 28] @ kc ''ZXCV'' @
      kc ''BNM'' @ [0, 0] @ kc ''/'' @ [0, 0]))
     (0x97 := KEY_HOME, 0xB5 := 47 - 64, 0xC8 := KEY_UP, 0xC9 := KEY_PGUP, 0xCB := KEY_LF,
      0xCD := KEY_RT, 0xCF := KEY_END, 0xD0 := KEY_DN, 0xD1 := KEY_PGDN, 0xD2 := KEY_INS, 0xD3 := KEY_DEL)"

definition charcode :: "nat \<Rightarrow> nat \<Rightarrow> u8" where
  "charcode k = (if k = 0 then normalmap else if k = 1 then shiftmap else ctlmap)"

text \<open>One byte from the keyboard: the character (0 for none) and the new state of the shift keys.\<close>

definition kbd_key :: "u8 \<Rightarrow> console \<Rightarrow> int \<times> console" where
  "kbd_key data0 s =
     (let shift = kbd_shift s in
      if data0 = 0xE0 then (0, s\<lparr>kbd_shift := shift OR E0ESC\<rparr>)
      else if data0 AND 0x80 \<noteq> 0 then
        (let data = (if shift AND E0ESC \<noteq> 0 then data0 else data0 AND 0x7F)
         in (0, s\<lparr>kbd_shift := shift AND NOT (shiftcode (unat data) OR E0ESC)\<rparr>))
      else
        let data = (if shift AND E0ESC \<noteq> 0 then data0 OR 0x80 else data0);
            shift1 = (if shift AND E0ESC \<noteq> 0 then shift AND NOT E0ESC else shift);
            shift2 = (shift1 OR shiftcode (unat data)) XOR togglecode (unat data);
            c0 = uint (charcode (unat (shift2 AND (CTL OR SHIFT))) (unat data));
            c = (if shift2 AND CAPSLOCK \<noteq> 0
                 then (if 97 \<le> c0 \<and> c0 \<le> 122 then c0 + (65 - 97)
                       else if 65 \<le> c0 \<and> c0 \<le> 90 then c0 + (97 - 65) else c0)
                 else c0);
            s1 = s\<lparr>kbd_shift := shift2\<rparr>
        in (c, if NOT shift2 AND (CTL OR ALT) = 0 \<and> c = uint KEY_DEL then (cputs_string (''Rebooting!'' @ [CHR 0x0A]) s1)\<lparr>reboot := True\<rparr> else s1))"

definition kbd_proc_data :: "console \<Rightarrow> int \<times> console" where
  "kbd_proc_data s =
     (case kbd_in s of
        [] \<Rightarrow> (- 1, s)
      | (mouse, data) # rest \<Rightarrow>
          if mouse then (- 1, s) else kbd_key data (s\<lparr>kbd_in := rest\<rparr>))"

definition serial_proc_data :: "console \<Rightarrow> int \<times> console" where
  "serial_proc_data s =
     (case serial_in s of [] \<Rightarrow> (- 1, s) | b # rest \<Rightarrow> (uint b, s\<lparr>serial_in := rest\<rparr>))"

section \<open>The input buffer\<close>

definition cons_put :: "int \<Rightarrow> console \<Rightarrow> console" where
  "cons_put c s =
     s\<lparr>cons_buf := (cons_buf s)(wpos s := word_of_int c),
       wpos := (if wpos s + 1 = CONSBUFSIZE then 0 else wpos s + 1)\<rparr>"

text \<open>
  The loop of \<^verbatim>\<open>cons_intr\<close> calls \<open>proc\<close> until it gives -1. Each of the two routines takes
  one byte off its device's queue when it gives another value, so the number of queued bytes
  bounds the number of rounds.
\<close>

primrec cons_intr :: "nat \<Rightarrow> (console \<Rightarrow> int \<times> console) \<Rightarrow> console \<Rightarrow> console" where
  "cons_intr 0 proc s = s"
| "cons_intr (Suc n) proc s =
     (let (c, s1) = proc s in
      if c = - 1 then s1
      else if c = 0 then cons_intr n proc s1
      else cons_intr n proc (cons_put c s1))"

definition serial_intr :: "console \<Rightarrow> console" where
  "serial_intr s = (if serial_exists s then cons_intr (length (serial_in s) + 1) serial_proc_data s else s)"

definition kbd_intr :: "console \<Rightarrow> console" where
  "kbd_intr s = cons_intr (length (kbd_in s) + 1) kbd_proc_data s"

text \<open>Taking the next byte off the buffer, the second half of \<^verbatim>\<open>cons_getc\<close>.\<close>

definition cons_take :: "console \<Rightarrow> u8 option \<times> console" where
  "cons_take s =
     (if rpos s \<noteq> wpos s
      then (Some (cons_buf s (rpos s)), s\<lparr>rpos := (if rpos s + 1 = CONSBUFSIZE then 0 else rpos s + 1)\<rparr>)
      else (None, s))"

definition cons_getc :: "console \<Rightarrow> int \<times> console" where
  "cons_getc s =
     (let (b, s2) = cons_take (kbd_intr (serial_intr s))
      in ((case b of Some x \<Rightarrow> uint x | None \<Rightarrow> 0), s2))"

definition cons_contents :: "console \<Rightarrow> u8 list" where
  "cons_contents s = ring CONSBUFSIZE (cons_buf s) (rpos s) (wpos s)"

definition cons_valid :: "console \<Rightarrow> bool" where
  "cons_valid s \<longleftrightarrow> rpos s < CONSBUFSIZE \<and> wpos s < CONSBUFSIZE"

primrec getc_many :: "nat \<Rightarrow> console \<Rightarrow> int list \<times> console" where
  "getc_many 0 s = ([], s)"
| "getc_many (Suc n) s =
     (let (c, s1) = cons_getc s; (cs, s2) = getc_many n s1 in (c # cs, s2))"

section \<open>The input buffer is a queue\<close>

lemma cons_put_ring: "cons_put c s = s\<lparr>cons_buf := (cons_buf s)(wpos s := word_of_int c), wpos := ring_next CONSBUFSIZE (wpos s)\<rparr>"
  by (simp add: cons_put_def ring_next_def)

lemma cons_contents_put:
  "cons_valid s \<Longrightarrow> length (cons_contents s) < CONSBUFSIZE - 1 \<Longrightarrow>
     cons_contents (cons_put c s) = cons_contents s @ [word_of_int c]"
  by (simp add: cons_contents_def cons_valid_def cons_put_ring ring_put)

lemma cons_valid_put: "cons_valid s \<Longrightarrow> cons_valid (cons_put c s)"
  by (simp add: cons_valid_def cons_put_ring ring_next_less)

lemma cons_take_empty: "cons_valid s \<Longrightarrow> cons_contents s = [] \<Longrightarrow> cons_take s = (None, s)"
  by (simp add: cons_contents_def cons_valid_def cons_take_def ring_empty_iff)

lemma cons_take_Cons:
  assumes "cons_valid s" and "cons_contents s = b # q"
  shows "\<exists>r. cons_take s = (Some b, s\<lparr>rpos := r\<rparr>) \<and> cons_contents (s\<lparr>rpos := r\<rparr>) = q \<and>
    cons_valid (s\<lparr>rpos := r\<rparr>)"
proof -
  have ne: "rpos s \<noteq> wpos s"
    using assms ring_empty_iff [of "rpos s" CONSBUFSIZE "wpos s" "cons_buf s"]
    by (simp add: cons_contents_def cons_valid_def)
  have "ring CONSBUFSIZE (cons_buf s) (rpos s) (wpos s) =
      cons_buf s (rpos s) # ring CONSBUFSIZE (cons_buf s) (ring_next CONSBUFSIZE (rpos s)) (wpos s)"
    using assms(1) ne by (intro ring_get) (simp_all add: cons_valid_def)
  with assms ne show ?thesis
    by (intro exI [of _ "ring_next CONSBUFSIZE (rpos s)"])
       (simp add: cons_contents_def cons_valid_def cons_take_def ring_next_less ring_next_def)
qed

interpretation cons_ring: fifo cons_contents cons_valid "CONSBUFSIZE - 1" "\<lambda>b. cons_put (uint b)" cons_take
proof unfold_locales
  fix s :: console and x :: u8 and q
  assume "cons_valid s" and "cons_contents s = x # q"
  from cons_take_Cons [OF this] show
    "fst (cons_take s) = Some x \<and> cons_contents (snd (cons_take s)) = q \<and> cons_valid (snd (cons_take s))"
    by auto
qed (simp_all add: cons_contents_put cons_valid_put cons_take_empty)

text \<open>What a serial interrupt appends: the bytes that are not zero.\<close>

lemma cons_contents_frame [simp]:
  "cons_contents (s\<lparr>serial_in := x\<rparr>) = cons_contents s"
  "cons_valid (s\<lparr>serial_in := x\<rparr>) = cons_valid s"
  "cons_contents (s\<lparr>kbd_in := y\<rparr>) = cons_contents s"
  "cons_valid (s\<lparr>kbd_in := y\<rparr>) = cons_valid s"
  by (simp_all add: cons_contents_def cons_valid_def)

lemma cons_put_devices [simp]:
  "serial_in (cons_put c s) = serial_in s" "kbd_in (cons_put c s) = kbd_in s"
  "serial_exists (cons_put c s) = serial_exists s"
  by (simp_all add: cons_put_def)

lemma serial_drain:
  assumes "cons_valid s" and "length (serial_in s) < n"
    and "length (cons_contents s) + length (filter (\<lambda>b. b \<noteq> 0) (serial_in s)) < CONSBUFSIZE"
  shows "let s' = cons_intr n serial_proc_data s in
    cons_valid s' \<and> serial_in s' = [] \<and> kbd_in s' = kbd_in s \<and> serial_exists s' = serial_exists s \<and>
    cons_contents s' = cons_contents s @ filter (\<lambda>b. b \<noteq> 0) (serial_in s)"
  using assms
proof (induction n arbitrary: s)
  case 0
  then show ?case by simp
next
  case (Suc n)
  show ?case
  proof (cases "serial_in s")
    case Nil
    with Suc.prems show ?thesis by (simp add: serial_proc_data_def)
  next
    case (Cons b bs)
    have nm: "uint b \<noteq> - 1" using uint_ge_0 [of b] by linarith
    show ?thesis
    proof (cases "b = 0")
      case True
      with Suc.IH [of "s\<lparr>serial_in := bs\<rparr>"] Suc.prems Cons show ?thesis
        by (simp add: serial_proc_data_def Let_def)
    next
      case False
      then have nz: "uint b \<noteq> 0" by (simp add: uint_0_iff)
      let ?s = "cons_put (uint b) (s\<lparr>serial_in := bs\<rparr>)"
      have c: "cons_contents ?s = cons_contents s @ [b]"
        using Suc.prems Cons False by (subst cons_contents_put) simp_all
      have "cons_intr (Suc n) serial_proc_data s = cons_intr n serial_proc_data ?s"
        using nm nz Cons by (simp add: serial_proc_data_def)
      with Suc.IH [of ?s] Suc.prems Cons c False show ?thesis
        by (simp add: Let_def cons_valid_put)
    qed
  qed
qed

lemma quiet_intr [simp]:
  "serial_in s = [] \<Longrightarrow> serial_intr s = s"
  "kbd_in s = [] \<Longrightarrow> kbd_intr s = s"
  by (simp_all add: serial_intr_def kbd_intr_def serial_proc_data_def kbd_proc_data_def)

lemma getc_many_quiet:
  "cons_valid s \<Longrightarrow> serial_in s = [] \<Longrightarrow> kbd_in s = [] \<Longrightarrow> cons_contents s = q \<Longrightarrow>
     fst (getc_many (length q + k) s) = map uint q @ replicate k 0"
proof (induction q arbitrary: s)
  case Nil
  then have "cons_getc s = (0, s)" by (simp add: cons_getc_def cons_take_empty)
  then have "fst (getc_many k s) = replicate k 0"
    by (induction k) (simp_all add: case_prod_beta Let_def)
  then show ?case by simp
next
  case (Cons b q)
  obtain r where "cons_take s = (Some b, s\<lparr>rpos := r\<rparr>)" "cons_contents (s\<lparr>rpos := r\<rparr>) = q"
    "cons_valid (s\<lparr>rpos := r\<rparr>)"
    using cons_take_Cons [OF Cons.prems(1,4)] by blast
  with Cons.IH [of "s\<lparr>rpos := r\<rparr>"] Cons.prems show ?case
    by (simp add: cons_getc_def case_prod_beta Let_def)
qed

lemma cons_getc_drained:
  assumes "serial_exists s" and "kbd_in s = []" and "s1 = serial_intr s" and "serial_in s1 = []"
    and "kbd_in s1 = []"
  shows "cons_getc s = cons_getc s1"
  using assms by (simp add: cons_getc_def)

section \<open>The screen\<close>

definition crt_ok :: "console \<Rightarrow> console \<Rightarrow> bool" where
  "crt_ok s s' \<longleftrightarrow> crt_pos s' < CRT_SIZE \<and> (\<forall>i \<ge> CRT_SIZE. crt_buf s' i = crt_buf s i)"

lemma crt_ok_trans: "crt_ok s s' \<Longrightarrow> crt_ok s' s'' \<Longrightarrow> crt_ok s s''"
  by (simp add: crt_ok_def)

lemma cga_plain_ok: "crt_pos s < CRT_SIZE \<Longrightarrow> crt_ok s (cga_plain c s)"
proof -
  assume p: "crt_pos s < CRT_SIZE"
  then have "crt_pos s < 2000" by (simp add: jos_const)
  moreover from this have "crt_pos s + 80 - (crt_pos s + 80) mod 80 < 2080" by simp
  ultimately show ?thesis
    by (auto simp: cga_plain_def crt_ok_def Let_def crt_cursor_def crt_scroll_def crt_backspace_def
        crt_newline_def crt_return_def crt_char_def jos_const)
qed

lemma cons_blank_ok: "crt_pos s < CRT_SIZE \<Longrightarrow> crt_ok s (cons_blank s)"
  using cga_plain_ok [of "lpt_putc 32 (serial_putc 32 s)" 32]
  by (simp add: cons_blank_def lpt_putc_def serial_putc_def crt_ok_def)

lemma cons_blanks_ok: "crt_pos s < CRT_SIZE \<Longrightarrow> crt_ok s ((cons_blank ^^ n) s)"
proof (induction n)
  case 0
  then show ?case by (simp add: crt_ok_def)
next
  case (Suc n)
  then have "crt_ok s ((cons_blank ^^ n) s)" by simp
  moreover from this have "crt_ok ((cons_blank ^^ n) s) (cons_blank ((cons_blank ^^ n) s))"
    by (intro cons_blank_ok) (simp add: crt_ok_def)
  ultimately show ?case using crt_ok_trans by fastforce
qed

lemma cga_putc_ok: "crt_pos s < CRT_SIZE \<Longrightarrow> crt_ok s (cga_putc c s)"
  using cons_blanks_ok [of s 5] cga_plain_ok [of s c]
  by (auto simp: cga_putc_def crt_ok_def crt_cursor_def crt_scroll_def)

section \<open>Properties\<close>

definition demo_cons :: console where
  "demo_cons = \<lparr>cons_buf = (\<lambda>_. 0), rpos = 511, wpos = 511, kbd_shift = 0, serial_exists = True,
     crt_buf = (\<lambda>_. 0), crt_pos = 1999, kbd_in = [], serial_in = [104, 105], serial_out = [],
     lpt_out = [], cursor_regs = (0, 0), reboot = False\<rparr>"



text \<open>
  When the input buffer holds 511 bytes, the next byte makes the write position catch up
  with the read position: all 512 bytes are lost at once.
\<close>

theorem cons_overrun_loses_all:
  assumes "cons_valid s" and "length (cons_contents s) = CONSBUFSIZE - 1"
  shows "cons_contents (cons_put c s) = [] \<and> fst (cons_take (cons_put c s)) = None"
proof -
  have e: "cons_contents (cons_put c s) = []"
    using assms by (simp add: cons_contents_def cons_valid_def cons_put_ring ring_put_full)
  then show ?thesis
    using cons_take_empty [OF cons_valid_put [OF assms(1)] e] by simp
qed

theorem cons_overrun_loses_all_witness:
  "cons_contents (cons_put 65 (demo_cons\<lparr>wpos := 510\<rparr>)) = []"
  by (rule cons_overrun_loses_all [THEN conjunct1])
     (simp_all add: demo_cons_def cons_valid_def cons_contents_def ring_len_def jos_const)

text \<open>
  Printing a character keeps the cursor on the 80 by 25 screen, and writes no cell beyond
  the screen.
\<close>

theorem cons_putc_on_screen:
  assumes "crt_pos s < CRT_SIZE"
  shows "crt_pos (cons_putc c s) < CRT_SIZE \<and>
         (\<forall>i. CRT_SIZE \<le> i \<longrightarrow> crt_buf (cons_putc c s) i = crt_buf s i)"
  using cga_putc_ok [of "lpt_putc c (serial_putc c s)" c] assms
  by (simp add: cons_putc_def crt_ok_def lpt_putc_def serial_putc_def)

theorem cons_putc_on_screen_witness:
  "crt_pos (cons_putc 10 demo_cons) < CRT_SIZE"
  using cons_putc_on_screen [of demo_cons 10] by (simp add: demo_cons_def jos_const)

end
