(* ===== verification/Vga.thy ===== *)
theory Vga
  imports Prelude "HOL-Library.Monad_Syntax"
begin

text \<open>
  Drawing on the 320x200 screen (\<^verbatim>\<open>kern/vga.c\<close>, \<^verbatim>\<open>inc/vga.h\<close>). The frame buffer is the byte
  memory at 0xf00A0000 .. 0xf00AFFFF. The drawing routines check only the upper end, so the
  outcome of a drawing routine is \<open>Inl a\<close> when it stores at an address \<open>a\<close> below the frame
  buffer (what such a store destroys is not modelled, the routine is stuck there), and
  \<open>Inr\<close> of the new screen otherwise. Loops over 16-bit counters that may run forever are
  partial functions: \<open>None\<close> is a routine that does not return.
\<close>

section \<open>Screen\<close>

definition SCREEN_BASE_ADDR :: u32 where SCREEN_BASE_ADDR_def [jos_const]: "SCREEN_BASE_ADDR = 0xf00A0000"
definition SCREEN_MAX_ADDR :: u32 where SCREEN_MAX_ADDR_def [jos_const]: "SCREEN_MAX_ADDR = 0xf00AFFFF"
definition SCREEN_WIDTH :: nat where SCREEN_WIDTH_def [jos_const]: "SCREEN_WIDTH = 320"
definition SCREEN_HEIGHT :: nat where SCREEN_HEIGHT_def [jos_const]: "SCREEN_HEIGHT = 200"

definition VGA_BLACK :: u32 where VGA_BLACK_def [jos_const]: "VGA_BLACK = 0"
definition VGA_BLUE :: u32 where VGA_BLUE_def [jos_const]: "VGA_BLUE = 1"
definition VGA_RED :: u32 where VGA_RED_def [jos_const]: "VGA_RED = 4"
definition VGA_GREY :: u32 where VGA_GREY_def [jos_const]: "VGA_GREY = 7"
definition VGA_WHITE :: u32 where VGA_WHITE_def [jos_const]: "VGA_WHITE = 15"
definition VGA_NO_COLOR :: u32 where VGA_NO_COLOR_def [jos_const]: "VGA_NO_COLOR = 16"

definition PICK_COLOR_SIZE :: nat where PICK_COLOR_SIZE_def [jos_const]: "PICK_COLOR_SIZE = 20"
definition PICK_NUM_COLORS :: nat where PICK_NUM_COLORS_def [jos_const]: "PICK_NUM_COLORS = 3"

type_synonym screen = "u32 \<Rightarrow> u8"

type_synonym 'a drawn = "u32 + 'a"

definition bindD :: "'a drawn \<Rightarrow> ('a \<Rightarrow> 'b drawn) \<Rightarrow> 'b drawn" where
  "bindD m f = (case m of Inl a \<Rightarrow> Inl a | Inr x \<Rightarrow> f x)"

definition pixel_addr :: "u32 \<Rightarrow> u32 \<Rightarrow> u32" where
  "pixel_addr x y = SCREEN_BASE_ADDR + of_nat SCREEN_WIDTH * y + x"

definition write_pixel :: "u32 \<Rightarrow> u32 \<Rightarrow> u8 \<Rightarrow> screen \<Rightarrow> screen drawn" where
  "write_pixel x y color scr =
     (let off = pixel_addr x y in
      if off < SCREEN_MAX_ADDR
      then (if off < SCREEN_BASE_ADDR then Inl off else Inr (scr(off := color)))
      else Inr scr)"

text \<open>The loops of the source over constant bounds, as folds that stop at a stray store.\<close>

primrec draw_each :: "('b \<Rightarrow> 'a \<Rightarrow> 'a drawn) \<Rightarrow> 'b list \<Rightarrow> 'a \<Rightarrow> 'a drawn" where
  "draw_each f [] scr = Inr scr"
| "draw_each f (p # ps) scr = bindD (f p scr) (draw_each f ps)"

definition clear_screen :: "screen \<Rightarrow> screen drawn" where
  "clear_screen scr =
     draw_each (\<lambda>y. draw_each (\<lambda>x. write_pixel (of_nat x) (of_nat y) (ucast VGA_BLACK)) [0..<SCREEN_WIDTH])
       [0..<SCREEN_HEIGHT] scr"

section \<open>Shapes\<close>

record draw_circle_t =
  circle_x :: u16
  circle_y :: u16
  circle_radius :: u16
  circle_fill :: u32

record draw_rectangle_t =
  rect_x :: u16
  rect_y :: u16
  rect_width :: u16
  rect_height :: u16
  rect_fill :: u32

partial_function (option) line_x :: "u16 \<Rightarrow> u16 \<Rightarrow> u16 \<Rightarrow> u8 \<Rightarrow> screen \<Rightarrow> screen drawn option" where
  "line_x i x2 y color scr =
     (if i \<le> x2
      then (case write_pixel (ucast i) (ucast y) color scr of
              Inl a \<Rightarrow> Some (Inl a)
            | Inr scr1 \<Rightarrow> line_x (i + 1) x2 y color scr1)
      else Some (Inr scr))"

partial_function (option) line_y :: "u16 \<Rightarrow> u16 \<Rightarrow> u16 \<Rightarrow> u8 \<Rightarrow> screen \<Rightarrow> screen drawn option" where
  "line_y i y2 xc color scr =
     (if i \<le> y2
      then (case write_pixel (ucast xc) (ucast i) color scr of
              Inl a \<Rightarrow> Some (Inl a)
            | Inr scr1 \<Rightarrow> line_y (i + 1) y2 xc color scr1)
      else Some (Inr scr))"

definition draw_line :: "u16 \<Rightarrow> u16 \<Rightarrow> u16 \<Rightarrow> u16 \<Rightarrow> u8 \<Rightarrow> screen \<Rightarrow> screen drawn option" where
  "draw_line x1 y1 x2 y2 border_color scr =
     (if y1 = y2 then line_x x1 x2 y1 border_color scr
      else if x1 = x2 then line_y y1 y2 x1 border_color scr
      else Some (Inr scr))"

text \<open>One drawing routine after another.\<close>

definition andthen :: "'a drawn option \<Rightarrow> ('a \<Rightarrow> 'a drawn option) \<Rightarrow> 'a drawn option" where
  "andthen m f = (case m of None \<Rightarrow> None | Some (Inl a) \<Rightarrow> Some (Inl a) | Some (Inr scr) \<Rightarrow> f scr)"

definition draw_dots :: "int \<Rightarrow> int \<Rightarrow> int \<Rightarrow> int \<Rightarrow> u8 \<Rightarrow> screen \<Rightarrow> screen drawn" where
  "draw_dots xc yc x y color scr =
     draw_each (\<lambda>(a, b). write_pixel (word_of_int a) (word_of_int b) color)
       [(xc + x, yc + y), (xc - x, yc + y), (xc + x, yc - y), (xc - x, yc - y),
        (xc + y, yc + x), (xc - y, yc + x), (xc + y, yc - x), (xc - y, yc - x)] scr"

definition fill_shape :: "int \<Rightarrow> int \<Rightarrow> int \<Rightarrow> int \<Rightarrow> u8 \<Rightarrow> screen \<Rightarrow> screen drawn option" where
  "fill_shape xc yc x y color scr =
     andthen (andthen (andthen
       (draw_line (word_of_int (xc - x + 1)) (word_of_int (yc + y - 1)) (word_of_int (xc + x - 1)) (word_of_int (yc + y - 1)) color scr)
       (draw_line (word_of_int (xc - x + 1)) (word_of_int (yc - y + 1)) (word_of_int (xc + x - 1)) (word_of_int (yc - y + 1)) color))
       (draw_line (word_of_int (xc - y + 1)) (word_of_int (yc + x - 1)) (word_of_int (xc + y - 1)) (word_of_int (yc + x - 1)) color))
       (draw_line (word_of_int (xc - y + 1)) (word_of_int (yc - x + 1)) (word_of_int (xc + y - 1)) (word_of_int (yc - x + 1)) color)"

definition dots_and_fill :: "int \<Rightarrow> int \<Rightarrow> int \<Rightarrow> int \<Rightarrow> u8 \<Rightarrow> u32 \<Rightarrow> screen \<Rightarrow> screen drawn option" where
  "dots_and_fill xc yc x y border_color fill_color scr =
     andthen (Some (draw_dots xc yc x y border_color scr))
       (\<lambda>scr1. if fill_color \<noteq> VGA_NO_COLOR then fill_shape xc yc x y (ucast fill_color) scr1
               else Some (Inr scr1))"

text \<open>
  The loop of \<^verbatim>\<open>draw_circle\<close>. The counters of a circle stay far inside the range of an
  \<^verbatim>\<open>int\<close> (the radius has 16 bits), so they are unbounded here.
\<close>

function circle_loop :: "draw_circle_t \<Rightarrow> u8 \<Rightarrow> int \<Rightarrow> int \<Rightarrow> int \<Rightarrow> screen \<Rightarrow> screen drawn option" where
  "circle_loop circle border_color x2 y2 d scr =
     (if y2 \<ge> x2
      then let x' = x2 + 1;
               y' = (if d > 0 then y2 - 1 else y2);
               d' = (if d > 0 then d + 4 * (x' - y') + 10 else d + 4 * x' + 6)
           in andthen (dots_and_fill (uint (circle_x circle)) (uint (circle_y circle)) x' y' border_color
                         (circle_fill circle) scr)
                (circle_loop circle border_color x' y' d')
      else Some (Inr scr))"
  by pat_completeness auto
termination
  by (relation "measure (\<lambda>(_, _, x2, y2, _). nat (y2 - x2 + 1))") auto

definition draw_circle :: "draw_circle_t \<Rightarrow> u8 \<Rightarrow> screen \<Rightarrow> screen drawn option" where
  "draw_circle circle border_color scr =
     (let r = uint (circle_radius circle)
      in andthen (dots_and_fill (uint (circle_x circle)) (uint (circle_y circle)) 0 r border_color
                    (circle_fill circle) scr)
           (circle_loop circle border_color 0 r (3 - 2 * r)))"

text \<open>The sum \<^verbatim>\<open>y + height\<close> in the loop condition is an \<^verbatim>\<open>int\<close>; the counter has 16 bits.\<close>

partial_function (option) rect_loop :: "u16 \<Rightarrow> draw_rectangle_t \<Rightarrow> screen \<Rightarrow> screen drawn option" where
  "rect_loop i r scr =
     (if uint i < uint (rect_y r) + uint (rect_height r)
      then (case draw_line (rect_x r + 1) i (rect_x r + rect_width r - 1) i (ucast (rect_fill r)) scr of
              None \<Rightarrow> None
            | Some (Inl a) \<Rightarrow> Some (Inl a)
            | Some (Inr scr1) \<Rightarrow> rect_loop (i + 1) r scr1)
      else Some (Inr scr))"

definition draw_rectangle :: "draw_rectangle_t \<Rightarrow> u8 \<Rightarrow> screen \<Rightarrow> screen drawn option" where
  "draw_rectangle r border_color scr =
     (let x = rect_x r; y = rect_y r; height = rect_height r; width = rect_width r in
      andthen (andthen (andthen (andthen
        (draw_line x y x (y + height) border_color scr)
        (draw_line x y (x + width) y border_color))
        (draw_line (x + width) y (x + width) (y + height) border_color))
        (draw_line x (y + height) (x + width) (y + height) border_color))
        (\<lambda>scr1. if rect_fill r \<noteq> VGA_NO_COLOR then rect_loop (y + 1) r scr1 else Some (Inr scr1)))"

text \<open>The variable \<^verbatim>\<open>d\<close> of \<^verbatim>\<open>draw_diamond\<close> is never read and left out.\<close>

partial_function (option) diamond_loop :: "u16 \<Rightarrow> u16 \<Rightarrow> draw_circle_t \<Rightarrow> u8 \<Rightarrow> screen \<Rightarrow> screen drawn option" where
  "diamond_loop x2 y2 diamond border_color scr =
     (if x2 \<le> y2
      then (case dots_and_fill (uint (circle_x diamond)) (uint (circle_y diamond)) (uint (x2 + 1)) (uint (y2 - 1))
                   border_color (circle_fill diamond) scr of
              None \<Rightarrow> None
            | Some (Inl a) \<Rightarrow> Some (Inl a)
            | Some (Inr scr1) \<Rightarrow> diamond_loop (x2 + 1) (y2 - 1) diamond border_color scr1)
      else Some (Inr scr))"

definition draw_diamond :: "draw_circle_t \<Rightarrow> u8 \<Rightarrow> screen \<Rightarrow> screen drawn option" where
  "draw_diamond diamond border_color scr =
     andthen (dots_and_fill (uint (circle_x diamond)) (uint (circle_y diamond)) 0 (uint (circle_radius diamond))
                border_color (circle_fill diamond) scr)
       (diamond_loop 0 (circle_radius diamond) diamond border_color)"

section \<open>The color picker\<close>

record picker =
  pick_screen :: screen
  color_loc :: "int \<times> int"
  color_pick_backup :: "nat \<Rightarrow> nat \<Rightarrow> u8"

definition write_pixel_ret :: "u32 \<Rightarrow> u32 \<Rightarrow> u8 \<Rightarrow> screen \<Rightarrow> (u8 \<times> screen) drawn" where
  "write_pixel_ret x y color scr =
     (let off = pixel_addr x y in
      if off < SCREEN_MAX_ADDR
      then (if off < SCREEN_BASE_ADDR then Inl off else Inr (scr off, scr(off := color)))
      else Inr (0, scr))"

definition pick_colors :: "u8 list" where
  "pick_colors = [ucast VGA_WHITE, ucast VGA_RED, ucast VGA_BLUE]"

definition pick_cells :: "(nat \<times> nat \<times> nat) list" where
  "pick_cells = List.product [0..<PICK_NUM_COLORS] (List.product [0..<PICK_COLOR_SIZE] [0..<PICK_COLOR_SIZE])"

definition pick_cell :: "int \<Rightarrow> int \<Rightarrow> nat \<times> nat \<times> nat \<Rightarrow> picker \<Rightarrow> picker drawn" where
  "pick_cell x y = (\<lambda>(c, i, j) p.
     bindD (write_pixel_ret (word_of_int (x + int (i + c * PICK_COLOR_SIZE))) (word_of_int (y + int j))
              (pick_colors ! c) (pick_screen p))
       (\<lambda>(old_color, scr). Inr (p\<lparr>pick_screen := scr,
          color_pick_backup := (\<lambda>b a. if b = j \<and> a = i + c * PICK_COLOR_SIZE then old_color
                                      else color_pick_backup p b a)\<rparr>)))"

definition draw_color_pick :: "int \<Rightarrow> int \<Rightarrow> picker \<Rightarrow> picker drawn" where
  "draw_color_pick x y p = draw_each (pick_cell x y) pick_cells (p\<lparr>color_loc := (x, y)\<rparr>)"

definition unpick_cell :: "nat \<times> nat \<times> nat \<Rightarrow> picker \<Rightarrow> picker drawn" where
  "unpick_cell = (\<lambda>(c, i, j) p.
     bindD (write_pixel (word_of_int (fst (color_loc p) + int (i + c * PICK_COLOR_SIZE)))
              (word_of_int (snd (color_loc p) + int j))
              (color_pick_backup p j (i + c * PICK_COLOR_SIZE)) (pick_screen p))
       (\<lambda>scr. Inr (p\<lparr>pick_screen := scr\<rparr>)))"

definition remove_color_pick :: "picker \<Rightarrow> picker drawn" where
  "remove_color_pick p =
     bindD (draw_each unpick_cell pick_cells p) (\<lambda>p1. Inr (p1\<lparr>color_loc := (0, 0)\<rparr>))"

section \<open>Pixels with 16-bit coordinates\<close>

definition addr :: "nat \<Rightarrow> nat \<Rightarrow> u32" where
  "addr x y = of_nat (0xf00A0000 + 320 * y + x)"

lemma addr_unat: "x < 65536 \<Longrightarrow> y < 65536 \<Longrightarrow> unat (addr x y) = 0xf00A0000 + 320 * y + x"
  unfolding addr_def unat_of_nat by (rule mod_less) simp

lemma pixel_addr_u16: "pixel_addr (ucast (x :: u16)) (ucast (y :: u16)) = addr (unat x) (unat y)"
  by (simp add: pixel_addr_def addr_def jos_const)

lemma u16_less: "unat (x :: u16) < 65536"
  using unsigned_less [of x] by simp

lemma addr_not_below: "x < 65536 \<Longrightarrow> y < 65536 \<Longrightarrow> \<not> addr x y < SCREEN_BASE_ADDR"
  by (simp add: word_less_nat_alt addr_unat jos_const)

lemma addr_inj:
  "x < 320 \<Longrightarrow> x' < 320 \<Longrightarrow> y < 65536 \<Longrightarrow> y' < 65536 \<Longrightarrow> addr x y = addr x' y' \<longleftrightarrow> x = x' \<and> y = y'"
proof -
  assume a: "x < 320" "x' < 320" "y < 65536" "y' < 65536"
  have "addr x y = addr x' y' \<longleftrightarrow> 320 * y + x = 320 * y' + x'"
    unfolding word_unat_eq_iff using a by (simp add: addr_unat)
  moreover have "(320 * y + x) mod 320 = x" "(320 * y + x) div 320 = y"
    "(320 * y' + x') mod 320 = x'" "(320 * y' + x') div 320 = y'"
    using a by simp_all
  ultimately show ?thesis by metis
qed

definition plot :: "u32 \<Rightarrow> u8 \<Rightarrow> screen \<Rightarrow> screen" where
  "plot a color scr = (if a < SCREEN_MAX_ADDR then scr(a := color) else scr)"

lemma write_pixel_u16 [simp]:
  "write_pixel (ucast (x :: u16)) (ucast (y :: u16)) color scr = Inr (plot (addr (unat x) (unat y)) color scr)"
  by (simp add: write_pixel_def pixel_addr_u16 addr_not_below u16_less plot_def Let_def)

section \<open>Lines\<close>

definition plots :: "u32 set \<Rightarrow> u8 \<Rightarrow> screen \<Rightarrow> screen" where
  "plots A color scr = (\<lambda>a. if a \<in> A \<and> a < SCREEN_MAX_ADDR then color else scr a)"

lemma plots_empty [simp]: "plots {} color scr = scr"
  by (simp add: plots_def)

lemma plots_plot: "plots A color (plot a color scr) = plots (insert a A) color scr"
  by (auto simp: plots_def plot_def)

lemma u16_Suc: "(i :: u16) \<le> k \<Longrightarrow> k < - 1 \<Longrightarrow> unat (i + 1) = unat i + 1"
proof -
  assume "i \<le> k" "k < - 1"
  then have "i \<noteq> - 1" by auto
  then show ?thesis by (metis Suc_eq_plus1 add.commute unatSuc add_eq_0_iff2 word_order.extremum_unique)
qed

lemma line_x_spec:
  assumes "x2 < - 1"
  shows "line_x i x2 y color scr =
    Some (Inr (plots ((\<lambda>x. addr x (unat y)) ` {unat i..unat x2}) color scr))"
proof (induction "unat x2 + 1 - unat i" arbitrary: i scr)
  case 0
  then have "\<not> i \<le> x2" by (simp add: word_le_nat_alt)
  with 0 show ?case by (subst line_x.simps) (simp add: word_le_nat_alt)
next
  case (Suc n)
  then have le: "i \<le> x2" by (simp add: word_le_nat_alt)
  note s = u16_Suc [OF le assms]
  have "{unat i..unat x2} = insert (unat i) {unat (i + 1)..unat x2}"
    using le by (auto simp: s word_le_nat_alt)
  moreover have "n = unat x2 + 1 - unat (i + 1)" using Suc.hyps(2) s by simp
  ultimately show ?case
    using le Suc.hyps(1) [of "i + 1"] by (subst line_x.simps) (simp add: plots_plot)
qed

lemma line_y_spec:
  assumes "y2 < - 1"
  shows "line_y i y2 x color scr =
    Some (Inr (plots (addr (unat x) ` {unat i..unat y2}) color scr))"
proof (induction "unat y2 + 1 - unat i" arbitrary: i scr)
  case 0
  then have "\<not> i \<le> y2" by (simp add: word_le_nat_alt)
  with 0 show ?case by (subst line_y.simps) (simp add: word_le_nat_alt)
next
  case (Suc n)
  then have le: "i \<le> y2" by (simp add: word_le_nat_alt)
  note s = u16_Suc [OF le assms]
  have "{unat i..unat y2} = insert (unat i) {unat (i + 1)..unat y2}"
    using le by (auto simp: s word_le_nat_alt)
  moreover have "n = unat y2 + 1 - unat (i + 1)" using Suc.hyps(2) s by simp
  ultimately show ?case
    using le Suc.hyps(1) [of "i + 1"] by (subst line_y.simps) (simp add: plots_plot)
qed

text \<open>A line that ends at coordinate 65535 never ends: the 16-bit counter cannot exceed it.\<close>

lemma line_x_hangs: "line_x i (- 1) y color scr = None"
proof -
  have "x2 \<noteq> - 1" if "line_x i x2 y color scr = Some r" for i x2 y color scr r
    using that by (rule line_x.raw_induct [where P = "\<lambda>_ k _ _ _ _. k \<noteq> - 1", rotated]) (auto split: if_splits)
  then show ?thesis by (metis not_None_eq)
qed

lemma line_y_hangs: "line_y i (- 1) x color scr = None"
proof -
  have "y2 \<noteq> - 1" if "line_y i y2 x color scr = Some r" for i y2 x color scr r
    using that by (rule line_y.raw_induct [where P = "\<lambda>_ k _ _ _ _. k \<noteq> - 1", rotated]) (auto split: if_splits)
  then show ?thesis by (metis not_None_eq)
qed

text \<open>What a straight line covers.\<close>

definition line_set :: "u16 \<Rightarrow> u16 \<Rightarrow> u16 \<Rightarrow> u16 \<Rightarrow> u32 set" where
  "line_set x1 y1 x2 y2 =
     (if y1 = y2 then (\<lambda>x. addr x (unat y1)) ` {unat x1..unat x2}
      else if x1 = x2 then addr (unat x1) ` {unat y1..unat y2} else {})"

lemma draw_line_spec:
  assumes "x2 < - 1" and "y2 < - 1"
  shows "draw_line x1 y1 x2 y2 color scr = Some (Inr (plots (line_set x1 y1 x2 y2) color scr))"
  using assms by (simp add: draw_line_def line_set_def line_x_spec line_y_spec)

lemma andthen_simps [simp]:
  "andthen None f = None" "andthen (Some (Inl a)) f = Some (Inl a)" "andthen (Some (Inr scr)) f = f scr"
  by (simp_all add: andthen_def)

lemma bindD_simps [simp]: "bindD (Inl a) f = Inl a" "bindD (Inr x) f = f x"
  by (simp_all add: bindD_def)

section \<open>Rectangles\<close>

definition px :: "screen \<Rightarrow> nat \<Rightarrow> nat \<Rightarrow> u8" where
  "px scr a b = scr (addr a b)"

lemma addr_max: "a < 320 \<Longrightarrow> b < 200 \<Longrightarrow> addr a b < SCREEN_MAX_ADDR"
  by (simp add: word_less_nat_alt addr_unat jos_const)

lemma px_plots: "a < 320 \<Longrightarrow> b < 200 \<Longrightarrow> px (plots A color scr) a b = (if addr a b \<in> A then color else px scr a b)"
  by (simp add: px_def plots_def addr_max)

lemma addr_in_row:
  "a < 320 \<Longrightarrow> b < 200 \<Longrightarrow> k < 320 \<Longrightarrow> y < 200 \<Longrightarrow> addr a b \<in> (\<lambda>x. addr x y) ` {i..k} \<longleftrightarrow> b = y \<and> i \<le> a \<and> a \<le> k"
  by (auto simp: addr_inj image_iff)

lemma addr_in_column:
  "a < 320 \<Longrightarrow> b < 200 \<Longrightarrow> x < 320 \<Longrightarrow> k < 200 \<Longrightarrow> addr a b \<in> addr x ` {i..k} \<longleftrightarrow> a = x \<and> i \<le> b \<and> b \<le> k"
  by (auto simp: addr_inj image_iff)

lemma u16_small: "unat (k :: u16) < 65535 \<Longrightarrow> k < - 1"
  by (simp add: word_less_nat_alt unsigned_minus_1_eq_mask mask_eq_exp_minus_1)

lemma px_line:
  assumes "unat x1 < 320" and "unat x2 < 320" and "unat y1 < 200" and "unat y2 < 200" and "x1 = x2 \<or> y1 = y2"
  shows "\<exists>scr'. draw_line x1 y1 x2 y2 color scr = Some (Inr scr') \<and>
    (\<forall>a b. a < 320 \<longrightarrow> b < 200 \<longrightarrow> px scr' a b =
       (if unat x1 \<le> a \<and> a \<le> unat x2 \<and> unat y1 \<le> b \<and> b \<le> unat y2 then color else px scr a b))"
proof (intro exI conjI allI impI)
  show "draw_line x1 y1 x2 y2 color scr = Some (Inr (plots (line_set x1 y1 x2 y2) color scr))"
    using assms by (intro draw_line_spec u16_small) auto
  fix a b :: nat assume "a < 320" "b < 200"
  with assms show "px (plots (line_set x1 y1 x2 y2) color scr) a b =
     (if unat x1 \<le> a \<and> a \<le> unat x2 \<and> unat y1 \<le> b \<and> b \<le> unat y2 then color else px scr a b)"
    by (auto simp: px_plots line_set_def addr_in_row addr_in_column)
qed

lemma uint_less_sum: "uint (i :: u16) < uint (y :: u16) + uint (h :: u16) \<longleftrightarrow> unat i < unat y + unat h"
  unfolding uint_nat by linarith

lemma rect_loop_spec:
  assumes "unat (rect_x r) + unat (rect_width r) < 320" and "unat (rect_y r) + unat (rect_height r) < 200"
    and "0 < unat (rect_width r)" and "unat i \<le> 200"
  shows "\<exists>scr'. rect_loop i r scr = Some (Inr scr') \<and>
    (\<forall>a b. a < 320 \<longrightarrow> b < 200 \<longrightarrow> px scr' a b =
       (if unat (rect_x r) < a \<and> a < unat (rect_x r) + unat (rect_width r) \<and>
           unat i \<le> b \<and> b < unat (rect_y r) + unat (rect_height r) then ucast (rect_fill r) else px scr a b))"
  using assms(4)
proof (induction "unat (rect_y r) + unat (rect_height r) - unat i" arbitrary: i scr)
  case 0
  then have "rect_loop i r scr = Some (Inr scr)" by (subst rect_loop.simps) (simp add: uint_less_sum)
  with 0 show ?case by fastforce
next
  case (Suc n)
  let ?x1 = "rect_x r + 1" and ?x2 = "rect_x r + rect_width r - 1"
  have xw: "unat (rect_x r + rect_width r) = unat (rect_x r) + unat (rect_width r)"
    using assms(1) by (simp add: unat_word_ariths)
  then have x: "unat ?x1 = unat (rect_x r) + 1" "unat ?x2 = unat (rect_x r) + unat (rect_width r) - 1"
    using assms(1,3) by (simp_all add: unat_word_ariths(1) unat_sub_if' )
  have i1: "unat (i + 1) = unat i + 1" using Suc.hyps(2) assms(2) by (simp add: unat_word_ariths)
  obtain scr1 where 1: "draw_line ?x1 i ?x2 i (ucast (rect_fill r)) scr = Some (Inr scr1)"
    "\<And>a b. a < 320 \<Longrightarrow> b < 200 \<Longrightarrow> px scr1 a b =
       (if unat ?x1 \<le> a \<and> a \<le> unat ?x2 \<and> unat i \<le> b \<and> b \<le> unat i then ucast (rect_fill r) else px scr a b)"
  proof -
    have "unat ?x1 < 320" "unat ?x2 < 320" using x assms(1,3) by linarith+
    moreover have "unat i < 200" using Suc.hyps(2) assms(2) by linarith
    ultimately show ?thesis using px_line [of ?x1 ?x2 i i] that by blast
  qed
  obtain scr2 where 2: "rect_loop (i + 1) r scr1 = Some (Inr scr2)"
    "\<And>a b. a < 320 \<Longrightarrow> b < 200 \<Longrightarrow> px scr2 a b =
       (if unat (rect_x r) < a \<and> a < unat (rect_x r) + unat (rect_width r) \<and>
           unat (i + 1) \<le> b \<and> b < unat (rect_y r) + unat (rect_height r) then ucast (rect_fill r) else px scr1 a b)"
  proof -
    have "n = unat (rect_y r) + unat (rect_height r) - unat (i + 1)" "unat (i + 1) \<le> 200"
      using Suc.hyps(2) i1 assms(2) by linarith+
    from Suc.hyps(1) [OF this] show ?thesis using that by blast
  qed
  have lt: "unat i < unat (rect_y r) + unat (rect_height r)" using Suc.hyps(2) by linarith
  then have "rect_loop i r scr = Some (Inr scr2)"
    using 1(1) 2(1) by (subst rect_loop.simps) (simp add: uint_less_sum)
  then show ?case
    by (intro exI conjI allI impI, assumption) (use lt assms(3) in \<open>auto simp: 1(2) 2(2) i1 x\<close>)
qed

section \<open>Clearing the screen and the color picker\<close>

lemma draw_each_Inr:
  "(\<And>p s. p \<in> set ps \<Longrightarrow> f p s = Inr (g p s)) \<Longrightarrow> draw_each f ps s = Inr (fold g ps s)"
  by (induction ps arbitrary: s) auto

lemma write_pixel_nat:
  assumes "x < 65536" and "y < 65536"
  shows "write_pixel (of_nat x) (of_nat y) color scr = Inr (plot (addr x y) color scr)"
proof -
  have "pixel_addr (of_nat x) (of_nat y) = addr x y"
    by (simp add: pixel_addr_def addr_def jos_const)
  then show ?thesis using assms by (simp add: write_pixel_def addr_not_below plot_def Let_def)
qed

lemma fold_plot: "fold (\<lambda>p. plot (f p) color) ps scr = plots (f ` set ps) color scr"
proof (induction ps arbitrary: scr)
  case (Cons p ps)
  then show ?case by (simp add: plots_plot)
qed simp

lemma fold_plots: "fold (\<lambda>p. plots (F p) color) ps scr = plots (\<Union>p \<in> set ps. F p) color scr"
proof (induction ps arbitrary: scr)
  case (Cons p ps)
  have "plots A color (plots B color scr) = plots (B \<union> A) color scr" for A B
    by (auto simp: plots_def)
  with Cons show ?case by simp
qed simp

lemma clear_screen_spec:
  "clear_screen scr = Inr (plots (\<Union>y \<in> {0..<SCREEN_HEIGHT}. (\<lambda>x. addr x y) ` {0..<SCREEN_WIDTH}) 0 scr)"
proof -
  have row: "draw_each (\<lambda>x. write_pixel (of_nat x) (of_nat y) (ucast VGA_BLACK)) [0..<SCREEN_WIDTH] s =
      Inr (plots ((\<lambda>x. addr x y) ` {0..<SCREEN_WIDTH}) 0 s)" if "y < SCREEN_HEIGHT" for y s
  proof -
    have "draw_each (\<lambda>x. write_pixel (of_nat x) (of_nat y) (ucast VGA_BLACK)) [0..<SCREEN_WIDTH] s =
        Inr (fold (\<lambda>x. plot (addr x y) (ucast VGA_BLACK)) [0..<SCREEN_WIDTH] s)"
      using that by (intro draw_each_Inr write_pixel_nat) (auto simp: SCREEN_WIDTH_def SCREEN_HEIGHT_def)
    then show ?thesis by (simp add: fold_plot VGA_BLACK_def)
  qed
  have "clear_screen scr =
      Inr (fold (\<lambda>y. plots ((\<lambda>x. addr x y) ` {0..<SCREEN_WIDTH}) 0) [0..<SCREEN_HEIGHT] scr)"
    unfolding clear_screen_def by (rule draw_each_Inr) (simp add: row)
  then show ?thesis by (simp add: fold_plots)
qed

text \<open>The cell \<open>(c, i, j)\<close> of the picker at \<open>(x, y)\<close> lies on pixel \<open>cell_addr x y (c, i, j)\<close>.\<close>

definition cell_addr :: "nat \<Rightarrow> nat \<Rightarrow> nat \<times> nat \<times> nat \<Rightarrow> u32" where
  "cell_addr x y = (\<lambda>(c, i, j). addr (x + (i + c * 20)) (y + j))"

definition in_pick :: "nat \<times> nat \<times> nat \<Rightarrow> bool" where
  "in_pick = (\<lambda>(c, i, j). c < 3 \<and> i < 20 \<and> j < 20)"

definition backup_of :: "picker \<Rightarrow> nat \<times> nat \<times> nat \<Rightarrow> u8" where
  "backup_of p = (\<lambda>(c, i, j). color_pick_backup p j (i + c * 20))"

lemma cell_addr_inj:
  assumes "x + 60 \<le> 320" and "y + 20 \<le> 200" and "in_pick k" and "in_pick k'"
  shows "cell_addr x y k = cell_addr x y k' \<longleftrightarrow> k = k'"
proof -
  obtain c i j c' i' j' where [simp]: "k = (c, i, j)" "k' = (c', i', j')" by (metis prod_cases3)
  have "(i + c * 20) mod 20 = i" "(i + c * 20) div 20 = c" "(i' + c' * 20) mod 20 = i'" "(i' + c' * 20) div 20 = c'"
    using assms(3,4) by (simp_all add: in_pick_def)
  then have "i + c * 20 = i' + c' * 20 \<longleftrightarrow> i = i' \<and> c = c'" by metis
  then show ?thesis using assms by (auto simp: cell_addr_def in_pick_def addr_inj)
qed

lemma pick_cell_eq:
  assumes "x + 60 \<le> 320" and "y + 20 \<le> 200" and "in_pick (c, i, j)"
  shows "pick_cell (int x) (int y) (c, i, j) p =
    Inr (p\<lparr>pick_screen := (pick_screen p)(cell_addr x y (c, i, j) := pick_colors ! c),
           color_pick_backup := (\<lambda>b a. if b = j \<and> a = i + c * 20 then pick_screen p (cell_addr x y (c, i, j))
                                      else color_pick_backup p b a)\<rparr>)"
proof -
  have "pixel_addr (word_of_int (int x + int (i + c * 20))) (word_of_int (int y + int j)) = cell_addr x y (c, i, j)"
    by (simp add: pixel_addr_def cell_addr_def addr_def jos_const)
  moreover have "cell_addr x y (c, i, j) < SCREEN_MAX_ADDR" "\<not> cell_addr x y (c, i, j) < SCREEN_BASE_ADDR"
    using assms by (auto simp: cell_addr_def in_pick_def addr_max addr_not_below)
  ultimately show ?thesis
    by (simp add: pick_cell_def write_pixel_ret_def PICK_COLOR_SIZE_def Let_def)
qed

lemma unpick_cell_eq:
  assumes "x + 60 \<le> 320" and "y + 20 \<le> 200" and "in_pick k" and "color_loc p = (int x, int y)"
  shows "unpick_cell k p =
    Inr (p\<lparr>pick_screen := (pick_screen p)(cell_addr x y k := backup_of p k)\<rparr>)"
proof -
  obtain c i j where k: "k = (c, i, j)" by (metis prod_cases3)
  have "pixel_addr (word_of_int (int x + int (i + c * 20))) (word_of_int (int y + int j)) = cell_addr x y k"
    by (simp add: pixel_addr_def cell_addr_def addr_def jos_const k)
  moreover have "cell_addr x y k < SCREEN_MAX_ADDR" "\<not> cell_addr x y k < SCREEN_BASE_ADDR"
    using assms by (auto simp: cell_addr_def in_pick_def addr_max addr_not_below k)
  ultimately show ?thesis using assms(4)
    by (simp add: unpick_cell_def write_pixel_def PICK_COLOR_SIZE_def Let_def k backup_of_def)
qed

lemma pick_cells_spec:
  assumes "x + 60 \<le> 320" and "y + 20 \<le> 200" and "distinct ks" and "\<forall>k \<in> set ks. in_pick k"
  shows "\<exists>q. draw_each (pick_cell (int x) (int y)) ks p = Inr q \<and> color_loc q = color_loc p \<and>
    (\<forall>a. a \<notin> cell_addr x y ` set ks \<longrightarrow> pick_screen q a = pick_screen p a) \<and>
    (\<forall>k. in_pick k \<longrightarrow> backup_of q k = (if k \<in> set ks then pick_screen p (cell_addr x y k) else backup_of p k))"
  using assms(3,4)
proof (induction ks arbitrary: p)
  case Nil
  then show ?case by simp
next
  case (Cons k ks)
  obtain c i j where k: "k = (c, i, j)" by (metis prod_cases3)
  define p1 where "p1 = p\<lparr>pick_screen := (pick_screen p)(cell_addr x y k := pick_colors ! c),
      color_pick_backup := (\<lambda>b a. if b = j \<and> a = i + c * 20 then pick_screen p (cell_addr x y k)
                                 else color_pick_backup p b a)\<rparr>"
  have ik: "in_pick k" using Cons.prems by simp
  have st: "pick_cell (int x) (int y) k p = Inr p1"
    unfolding p1_def k by (rule pick_cell_eq [OF assms(1,2)]) (use ik k in simp)
  obtain q where q: "draw_each (pick_cell (int x) (int y)) ks p1 = Inr q" "color_loc q = color_loc p1"
    "\<And>a. a \<notin> cell_addr x y ` set ks \<Longrightarrow> pick_screen q a = pick_screen p1 a"
    "\<And>k. in_pick k \<Longrightarrow> backup_of q k = (if k \<in> set ks then pick_screen p1 (cell_addr x y k) else backup_of p1 k)"
    using Cons.IH [of p1] Cons.prems by auto
  have b1: "backup_of p1 k' = (if k' = k then pick_screen p (cell_addr x y k) else backup_of p k')"
    if "in_pick k'" for k'
  proof -
    obtain c' i' j' where k': "k' = (c', i', j')" by (metis prod_cases3)
    have "(i + c * 20) mod 20 = i" "(i + c * 20) div 20 = c" "(i' + c' * 20) mod 20 = i'" "(i' + c' * 20) div 20 = c'"
      using that ik by (simp_all add: in_pick_def k k')
    then have "i' + c' * 20 = i + c * 20 \<longleftrightarrow> i' = i \<and> c' = c" by metis
    then show ?thesis by (auto simp: backup_of_def p1_def k k')
  qed
  have s1: "pick_screen p1 (cell_addr x y k') = pick_screen p (cell_addr x y k')" if "in_pick k'" "k' \<noteq> k" for k'
    using cell_addr_inj [OF assms(1,2) that(1) ik] that(2) by (simp add: p1_def)
  show ?case
  proof (intro exI conjI allI impI)
    show "draw_each (pick_cell (int x) (int y)) (k # ks) p = Inr q" using st q(1) by simp
    show "color_loc q = color_loc p" using q(2) by (simp add: p1_def)
    show "pick_screen q a = pick_screen p a" if "a \<notin> cell_addr x y ` set (k # ks)" for a
      using q(3) that by (simp add: p1_def)
    show "backup_of q k' = (if k' \<in> set (k # ks) then pick_screen p (cell_addr x y k') else backup_of p k')"
      if "in_pick k'" for k'
      using q(4) [OF that] b1 [OF that] s1 [OF that] Cons.prems(1) by auto
  qed
qed

lemma unpick_cells_spec:
  assumes "x + 60 \<le> 320" and "y + 20 \<le> 200" and "\<forall>k \<in> set ks. in_pick k" and "color_loc p = (int x, int y)"
    and "\<forall>k \<in> set ks. backup_of p k = scr (cell_addr x y k)"
  shows "draw_each unpick_cell ks p =
    Inr (p\<lparr>pick_screen := (\<lambda>a. if a \<in> cell_addr x y ` set ks then scr a else pick_screen p a)\<rparr>)"
  using assms(3-5)
proof (induction ks arbitrary: p)
  case Nil
  then show ?case by simp
next
  case (Cons k ks)
  let ?p = "p\<lparr>pick_screen := (pick_screen p)(cell_addr x y k := backup_of p k)\<rparr>"
  have "draw_each unpick_cell ks ?p =
      Inr (?p\<lparr>pick_screen := (\<lambda>a. if a \<in> cell_addr x y ` set ks then scr a else pick_screen ?p a)\<rparr>)"
    using Cons.prems by (intro Cons.IH) (simp_all add: backup_of_def)
  with Cons.prems unpick_cell_eq [OF assms(1,2), of k p] show ?case
    by (auto simp: fun_eq_iff)
qed

section \<open>Properties\<close>

lemma pick_cells_ok: "distinct pick_cells" "\<forall>k \<in> set pick_cells. in_pick k"
  by (auto simp: pick_cells_def in_pick_def PICK_NUM_COLORS_def PICK_COLOR_SIZE_def distinct_product)

text \<open>
  C33: \<^verbatim>\<open>draw_line\<close> returns unless the line is straight and its last coordinate is 65535; in that
  case its 16-bit loop counter wraps around below the bound and the system call never ends.
\<close>

theorem draw_line_hangs_iff:
  "draw_line x1 y1 x2 y2 color scr = None \<longleftrightarrow>
     (y1 = y2 \<and> x2 = - 1) \<or> (y1 \<noteq> y2 \<and> x1 = x2 \<and> y2 = - 1)"
proof -
  have k: "k = - 1 \<or> k < - 1" for k :: u16
    using word_order.extremum [of k] by (metis order_le_less)
  have "line_x i x2 y color scr = None \<longleftrightarrow> x2 = - 1" for i y
    using k [of x2] line_x_spec [of x2 i y color scr] line_x_hangs by fastforce
  moreover have "line_y i y2 x color scr = None \<longleftrightarrow> y2 = - 1" for i x
    using k [of y2] line_y_spec [of y2 i x color scr] line_y_hangs by fastforce
  ultimately show ?thesis by (auto simp: draw_line_def)
qed


definition demo_rect :: draw_rectangle_t where
  "demo_rect = \<lparr>rect_x = 10, rect_y = 20, rect_width = 30, rect_height = 40, rect_fill = VGA_RED\<rparr>"


text \<open>
  Showing the color picker and removing it again gives back the screen as it was, for
  every position at which the picker lies on the screen.
\<close>

theorem color_pick_roundtrip:
  assumes "x + 60 \<le> SCREEN_WIDTH" and "y + 20 \<le> SCREEN_HEIGHT"
  shows "\<exists>q. bindD (draw_color_pick (int x) (int y) p) remove_color_pick = Inr q \<and>
             pick_screen q = pick_screen p"
proof -
  have b: "x + 60 \<le> 320" "y + 20 \<le> 200" using assms by (simp_all add: jos_const)
  obtain q where q: "draw_color_pick (int x) (int y) p = Inr q" "color_loc q = (int x, int y)"
    "\<And>a. a \<notin> cell_addr x y ` set pick_cells \<Longrightarrow> pick_screen q a = pick_screen p a"
    "\<And>k. in_pick k \<Longrightarrow> k \<in> set pick_cells \<Longrightarrow> backup_of q k = pick_screen p (cell_addr x y k)"
    using pick_cells_spec [OF b pick_cells_ok, of "p\<lparr>color_loc := (int x, int y)\<rparr>"]
    by (fastforce simp: draw_color_pick_def)
  have "draw_each unpick_cell pick_cells q =
      Inr (q\<lparr>pick_screen := (\<lambda>a. if a \<in> cell_addr x y ` set pick_cells then pick_screen p a else pick_screen q a)\<rparr>)"
    using q(2,4) pick_cells_ok(2) by (intro unpick_cells_spec [OF b]) auto
  moreover have "(\<lambda>a. if a \<in> cell_addr x y ` set pick_cells then pick_screen p a else pick_screen q a) = pick_screen p"
    using q(3) by auto
  ultimately show ?thesis using q(1) by (simp add: remove_color_pick_def)
qed

theorem color_pick_roundtrip_witness:
  "\<exists>q. bindD (draw_color_pick 100 50 \<lparr>pick_screen = (\<lambda>a. ucast a), color_loc = (0, 0),
          color_pick_backup = (\<lambda>_ _. 0)\<rparr>) remove_color_pick = Inr q \<and> pick_screen q = ucast"
  using color_pick_roundtrip [of 100 50 "\<lparr>pick_screen = (\<lambda>a. ucast a), color_loc = (0, 0),
          color_pick_backup = (\<lambda>_ _. 0)\<rparr>"]
  by (simp add: jos_const)

text \<open>
  A circle around the corner of the screen stores below the frame buffer, in kernel
  memory: \<^verbatim>\<open>write_pixel\<close> checks only the upper end.
\<close>

theorem draw_circle_escapes:
  "circle_x circle = 0 \<Longrightarrow> circle_y circle = 0 \<Longrightarrow> circle_radius circle = 1 \<Longrightarrow> circle_fill circle = VGA_NO_COLOR \<Longrightarrow>
     draw_circle circle color scr = Some (Inl (SCREEN_BASE_ADDR - 320))"
  by (simp add: draw_circle_def dots_and_fill_def draw_dots_def write_pixel_def pixel_addr_def jos_const Let_def)

theorem draw_circle_escapes_witness:
  "draw_circle \<lparr>circle_x = 0, circle_y = 0, circle_radius = 1, circle_fill = VGA_NO_COLOR\<rparr> 15 (\<lambda>_. 0) =
     Some (Inl 0xf009fec0)"
  by (subst draw_circle_escapes) (simp_all add: jos_const)

text \<open>
  A filled circle whose centre lies on the left edge never returns: its first fill line
  ends at coordinate -1, which is 65535 as a 16-bit number.
\<close>

theorem draw_circle_hangs:
  assumes "circle_x circle = 0" and "circle_radius circle = 0" and "circle_fill circle \<noteq> VGA_NO_COLOR"
  shows "draw_circle circle color scr = None"
proof -
  have w: "write_pixel 0 (ucast (circle_y circle)) c s = Inr (plot (addr 0 (unat (circle_y circle))) c s)" for c s
    using write_pixel_u16 [of 0 "circle_y circle"] by simp
  show ?thesis using assms line_x_hangs
    by (simp add: draw_circle_def dots_and_fill_def draw_dots_def fill_shape_def draw_line_def Let_def w)
qed

theorem draw_circle_hangs_witness:
  "draw_circle \<lparr>circle_x = 0, circle_y = 7, circle_radius = 0, circle_fill = VGA_RED\<rparr> 15 (\<lambda>_. 0) = None"
  by (rule draw_circle_hangs) (simp_all add: jos_const)

end
