(* ===== verification/Bitmap.thy ===== *)
theory Bitmap
  imports Vga
begin

text \<open>
  Text on the graphics screen (\<^verbatim>\<open>kern/bitmap.c\<close>): the 8x8 bitmaps of the digits and the capital
  letters, one byte per row with the rightmost pixel in bit 0, and the routines that draw
  them. Coordinates are 16-bit numbers, so every pixel address stays at or above the frame buffer.
\<close>

definition BITMAP_SIZE :: nat where BITMAP_SIZE_def [jos_const]: "BITMAP_SIZE = 8"

definition bitmaps_0_9 :: "u8 list list" where
  "bitmaps_0_9 = [
     [0b01111110, 0b11000011, 0b11000111, 0b11001111,
      0b11011011, 0b11110011, 0b11100011, 0b01111110],
     [0b00011000, 0b00111000, 0b00111000, 0b00011000,
      0b00011000, 0b00011000, 0b01111110, 0b01111110],
     [0b00111100, 0b11100111, 0b00000111, 0b00000110,
      0b00011110, 0b01111000, 0b11100011, 0b11111111],
     [0b00111100, 0b11100111, 0b00000111, 0b00011100,
      0b00000111, 0b00000111, 0b11100110, 0b00111100],
     [0b00011100, 0b00111100, 0b01101100, 0b11001100,
      0b11001100, 0b11111110, 0b00001100, 0b00011110],
     [0b11111111, 0b11000000, 0b11111110, 0b00000111,
      0b00000111, 0b00000111, 0b11000110, 0b01111110],
     [0b00011100, 0b00110000, 0b01100000, 0b11000000,
      0b11111110, 0b11000011, 0b11000011, 0b01111110],
     [0b11111111, 0b11111111, 0b11000111, 0b00000111,
      0b00001110, 0b00111000, 0b00111000, 0b00111000],
     [0b01111110, 0b01111110, 0b11000011, 0b11000011,
      0b01111110, 0b11000011, 0b11000011, 0b01111110],
     [0b01111110, 0b11000011, 0b11000011, 0b01111111,
      0b00000011, 0b00000111, 0b00001110, 0b01111100]]"

definition bitmaps_A_Z :: "u8 list list" where
  "bitmaps_A_Z = [
     [0b00011000, 0b00111100, 0b01100110, 0b11000011,
      0b11000011, 0b11111111, 0b11000011, 0b11000011],
     [0b11111100, 0b01100110, 0b01100110, 0b01111100,
      0b01111100, 0b01100110, 0b01100110, 0b11111100],
     [0b00111110, 0b01100011, 0b11000000, 0b11000000,
      0b11000000, 0b11000000, 0b01100011, 0b00111110],
     [0b11111100, 0b01100110, 0b01100011, 0b01100011,
      0b01100011, 0b01100011, 0b01100110, 0b11111100],
     [0b11111111, 0b01100001, 0b01100000, 0b01100100,
      0b01111100, 0b01100100, 0b01100001, 0b11111111],
     [0b11111111, 0b01100001, 0b01100000, 0b01100100,
      0b01111100, 0b01100100, 0b01100000, 0b11110000],
     [0b00111110, 0b01100011, 0b11000000, 0b11000000,
      0b11000111, 0b11100011, 0b01100011, 0b00111111],
     [0b11000011, 0b11000011, 0b11000011, 0b11000011,
      0b11111111, 0b11000011, 0b11000011, 0b11000011],
     [0b01111110, 0b00011000, 0b00011000, 0b00011000,
      0b00011000, 0b00011000, 0b00011000, 0b01111110],
     [0b00001111, 0b00000110, 0b00000110, 0b00000110,
      0b00000110, 0b11000110, 0b11000110, 0b01111100],
     [0b11100011, 0b01100011, 0b01100110, 0b01101100,
      0b01111000, 0b01101100, 0b01100110, 0b11100011],
     [0b11110000, 0b01100000, 0b01100000, 0b01100000,
      0b01100000, 0b01100001, 0b01100011, 0b11111111],
     [0b11000011, 0b11100111, 0b11111111, 0b11111111,
      0b11011011, 0b11000011, 0b11000011, 0b11000011],
     [0b11000011, 0b11100011, 0b11110011, 0b11011011,
      0b11001111, 0b11000111, 0b11000011, 0b11000011],
     [0b00111100, 0b01100110, 0b11000011, 0b11000011,
      0b11000011, 0b11000011, 0b01100110, 0b00111100],
     [0b11111110, 0b01100011, 0b01100011, 0b01100011,
      0b01111110, 0b01100000, 0b01100000, 0b11110000],
     [0b01111110, 0b11000011, 0b11000011, 0b11000011,
      0b11000011, 0b11001111, 0b01111110, 0b00001111],
     [0b11111110, 0b01100011, 0b01100011, 0b01111110,
      0b01101110, 0b01100110, 0b01100011, 0b11100011],
     [0b01111110, 0b11000011, 0b11100000, 0b01110000,
      0b00011111, 0b00000011, 0b11000110, 0b01111100],
     [0b11111111, 0b10011001, 0b00011000, 0b00011000,
      0b00011000, 0b00011000, 0b00011000, 0b00111100],
     [0b11000011, 0b11000011, 0b11000011, 0b11000011,
      0b11000011, 0b11000011, 0b11000011, 0b11111111],
     [0b11000011, 0b11000011, 0b11000011, 0b11000011,
      0b11000011, 0b11000011, 0b00111100, 0b00011000],
     [0b11000011, 0b11000011, 0b11000011, 0b11000011,
      0b11011011, 0b11111111, 0b11100111, 0b11000011],
     [0b11000011, 0b11000011, 0b01100110, 0b01100110,
      0b00111100, 0b00111100, 0b01100111, 0b11000011],
     [0b11000011, 0b11000011, 0b11000011, 0b11000011,
      0b01111110, 0b000011000, 0b00011000, 0b00111100],
     [0b11111111, 0b11000011, 0b10000110, 0b00001100,
      0b00011000, 0b00110001, 0b01100011, 0b11111111]]"

text \<open>The inner loop: the bits of one row, from the right. A row has eight bits, so eight rounds suffice.\<close>

primrec draw_row :: "nat \<Rightarrow> u16 \<Rightarrow> u16 \<Rightarrow> u16 \<Rightarrow> u8 \<Rightarrow> screen \<Rightarrow> screen drawn" where
  "draw_row 0 pix x y color scr = Inr scr"
| "draw_row (Suc n) pix x y color scr =
     (if pix > 0
      then bindD (if pix AND 1 \<noteq> 0 then write_pixel (ucast x) (ucast y) color scr else Inr scr)
             (draw_row n (drop_bit 1 pix) (x - 1) y color)
      else Inr scr)"

definition draw_bitmap :: "u8 list \<Rightarrow> u16 \<Rightarrow> u16 \<Rightarrow> u8 \<Rightarrow> screen \<Rightarrow> screen drawn" where
  "draw_bitmap rows x y color scr =
     draw_each (\<lambda>i. draw_row 8 (ucast (rows ! i)) (x + of_nat BITMAP_SIZE) (y + of_nat i) color)
       [0..<BITMAP_SIZE] scr"

definition draw_num_bitmaps :: "nat \<Rightarrow> u16 \<Rightarrow> u16 \<Rightarrow> u8 \<Rightarrow> screen \<Rightarrow> screen drawn" where
  "draw_num_bitmaps index x y color scr = draw_bitmap (bitmaps_0_9 ! index) x y color scr"

definition draw_alpha_bitmaps :: "nat \<Rightarrow> u16 \<Rightarrow> u16 \<Rightarrow> u8 \<Rightarrow> screen \<Rightarrow> screen drawn" where
  "draw_alpha_bitmaps index x y color scr = draw_bitmap (bitmaps_A_Z ! index) x y color scr"

definition draw_char :: "u16 \<Rightarrow> u16 \<Rightarrow> u8 \<Rightarrow> u8 \<Rightarrow> screen \<Rightarrow> screen drawn" where
  "draw_char x y ch color scr =
     (if 48 \<le> ch \<and> ch \<le> 57 then draw_num_bitmaps (unat (ch - 48)) x y color scr
      else if 65 \<le> ch \<and> ch \<le> 90 then draw_alpha_bitmaps (unat (ch - 65)) x y color scr
      else Inr scr)"

text \<open>The string is the list of the bytes before the terminating zero.\<close>

primrec draw_string :: "u8 list \<Rightarrow> u16 \<Rightarrow> u16 \<Rightarrow> u8 \<Rightarrow> screen \<Rightarrow> screen drawn" where
  "draw_string [] x y color scr = Inr scr"
| "draw_string (ch # str) x y color scr =
     bindD (draw_char x y ch color scr) (draw_string str (x + of_nat BITMAP_SIZE + 1) y color)"

section \<open>Drawing text never leaves the frame buffer\<close>

lemma draw_row_Inr: "\<exists>scr'. draw_row n pix x y color scr = Inr scr' \<and> (\<forall>a. a < SCREEN_BASE_ADDR \<or> a \<ge> SCREEN_MAX_ADDR \<longrightarrow> scr' a = scr a)"
proof (induction n arbitrary: pix x scr)
  case (Suc n)
  let ?s = "if pix AND 1 \<noteq> 0 then plot (addr (unat x) (unat y)) color scr else scr"
  have "\<forall>a. a < SCREEN_BASE_ADDR \<or> a \<ge> SCREEN_MAX_ADDR \<longrightarrow> ?s a = scr a"
    using addr_not_below [OF u16_less u16_less, of x y] by (auto simp: plot_def)
  with Suc [of "drop_bit 1 pix" "x - 1" ?s] show ?case by (auto simp del: drop_bit_eq_div)
qed simp

lemma draw_row_spec:
  "n \<le> unat x \<Longrightarrow> unat pix < 2 ^ n \<Longrightarrow>
     draw_row n pix x y color scr =
       Inr (plots ((\<lambda>b. addr (unat x - b) (unat y)) ` {b. b < n \<and> bit pix b}) color scr)"
proof (induction n arbitrary: pix x scr)
  case 0
  then show ?case by simp
next
  case (Suc n)
  show ?case
  proof (cases "pix = 0")
    case True
    then show ?thesis by simp
  next
    case False
    let ?p = "drop_bit 1 pix" and ?f = "\<lambda>b. addr (unat x - b) (unat y)"
    let ?s = "if pix AND 1 \<noteq> 0 then plot (addr (unat x) (unat y)) color scr else scr"
    have x1: "unat (x - 1) = unat x - 1" using Suc.prems(1) by (simp add: unat_sub_if')
    have p: "unat ?p < 2 ^ n" using Suc.prems(2) by (simp add: drop_bit_eq_div unat_div)
    have b0: "pix AND 1 \<noteq> 0 \<longleftrightarrow> bit pix 0" by (simp add: and_one_eq bit_0 odd_iff_mod_2_eq_one)
    have "{b. b < Suc n \<and> bit pix b} = (if bit pix 0 then {0} else {}) \<union> Suc ` {b. b < n \<and> bit ?p b}"
      by (auto simp: bit_drop_bit_eq image_iff less_Suc_eq_0_disj)
    moreover have "(\<lambda>b. addr (unat (x - 1) - b) (unat y)) ` {b. b < n \<and> bit ?p b} = ?f ` Suc ` {b. b < n \<and> bit ?p b}"
      by (simp add: image_image x1)
    moreover have "draw_row n ?p (x - 1) y color ?s =
        Inr (plots ((\<lambda>b. addr (unat (x - 1) - b) (unat y)) ` {b. b < n \<and> bit ?p b}) color ?s)"
      using Suc.prems(1) x1 p by (intro Suc.IH) simp_all
    ultimately show ?thesis using False b0
      by (auto simp: word_neq_0_conv plots_plot image_Un)
  qed
qed

lemma draw_bitmap_spec:
  assumes "unat x + 8 < 320" and "unat y + 8 \<le> 200"
  shows "draw_bitmap rows x y color scr = Inr (plots (\<Union>i \<in> {0..<BITMAP_SIZE}.
    (\<lambda>b. addr (unat x + 8 - b) (unat y + i)) ` {b. b < 8 \<and> bit (rows ! i) b}) color scr)"
proof -
  let ?F = "\<lambda>i. (\<lambda>b. addr (unat x + 8 - b) (unat y + i)) ` {b. b < 8 \<and> bit (rows ! i) b}"
  have "draw_row 8 (ucast (rows ! i)) (x + of_nat BITMAP_SIZE) (y + of_nat i) color s = Inr (plots (?F i) color s)"
    if "i < BITMAP_SIZE" for i s
  proof -
    have "unat (x + of_nat BITMAP_SIZE) = unat x + 8" "unat (y + of_nat i) = unat y + i"
      using assms that by (simp_all add: unat_word_ariths unat_of_nat BITMAP_SIZE_def)
    moreover have "unat (ucast (rows ! i) :: u16) < 2 ^ 8"
    proof -
      have "unat (rows ! i) < 256" using unsigned_less [of "rows ! i"] by simp
      then show ?thesis by (simp add: unsigned_ucast_eq take_bit_nat_eq_self)
    qed
    ultimately show ?thesis
      by (subst draw_row_spec) (auto simp: bit_unsigned_iff intro!: arg_cong2 [of _ _ _ _ "\<lambda>A s. plots A color s"])
  qed
  then have "draw_bitmap rows x y color scr = Inr (fold (\<lambda>i. plots (?F i) color) [0..<BITMAP_SIZE] scr)"
    unfolding draw_bitmap_def by (intro draw_each_Inr) simp
  then show ?thesis by (simp add: fold_plots)
qed

text \<open>The bitmap of a character, when there is one.\<close>

definition glyph :: "u8 \<Rightarrow> u8 list option" where
  "glyph ch = (if 48 \<le> ch \<and> ch \<le> 57 then Some (bitmaps_0_9 ! unat (ch - 48))
               else if 65 \<le> ch \<and> ch \<le> 90 then Some (bitmaps_A_Z ! unat (ch - 65)) else None)"

lemma draw_char_glyph:
  "draw_char x y ch color scr = (case glyph ch of None \<Rightarrow> Inr scr | Some rows \<Rightarrow> draw_bitmap rows x y color scr)"
  by (simp add: draw_char_def glyph_def draw_num_bitmaps_def draw_alpha_bitmaps_def)

text \<open>
  A digit or capital letter drawn inside the screen colors exactly the pixels of its 8x8
  bitmap: row \<open>i\<close> of the bitmap on screen row \<open>y + i\<close>, bit \<open>b\<close> of the row on column \<open>x + 8 - b\<close>.
\<close>

theorem draw_char_exact:
  assumes "glyph ch = Some rows" and "unat x + 8 < SCREEN_WIDTH" and "unat y + 8 \<le> SCREEN_HEIGHT"
  shows "\<exists>scr'. draw_char x y ch color scr = Inr scr' \<and>
    (\<forall>a < SCREEN_WIDTH. \<forall>b < SCREEN_HEIGHT. px scr' a b =
      (if unat x < a \<and> a \<le> unat x + 8 \<and> unat y \<le> b \<and> b < unat y + 8 \<and>
          bit (rows ! (b - unat y)) (unat x + 8 - a) then color else px scr a b))"
proof -
  have d: "unat x + 8 < 320" "unat y + 8 \<le> 200" using assms(2,3) by (simp_all add: jos_const)
  let ?A = "\<Union>i \<in> {0..<BITMAP_SIZE}. (\<lambda>b. addr (unat x + 8 - b) (unat y + i)) ` {b. b < 8 \<and> bit (rows ! i) b}"
  have "addr a b \<in> ?A \<longleftrightarrow> unat x < a \<and> a \<le> unat x + 8 \<and> unat y \<le> b \<and> b < unat y + 8 \<and>
      bit (rows ! (b - unat y)) (unat x + 8 - a)" (is "_ \<longleftrightarrow> ?R") if "a < 320" "b < 200" for a b
  proof
    assume "addr a b \<in> ?A"
    then obtain i k where "i < 8" "k < 8" "bit (rows ! i) k" "addr a b = addr (unat x + 8 - k) (unat y + i)"
      by (auto simp: BITMAP_SIZE_def)
    with d that show ?R by (simp add: addr_inj)
  next
    assume r: ?R
    then have "addr a b = addr (unat x + 8 - (unat x + 8 - a)) (unat y + (b - unat y))" by simp
    moreover have "b - unat y \<in> {0..<BITMAP_SIZE}" "unat x + 8 - a < 8" using r by (auto simp: BITMAP_SIZE_def)
    ultimately show "addr a b \<in> ?A" using r by blast
  qed
  then show ?thesis
    using assms(1) draw_bitmap_spec [OF d] by (simp add: draw_char_glyph px_plots SCREEN_WIDTH_def SCREEN_HEIGHT_def)
qed

theorem draw_char_exact_witness:
  "\<exists>scr'. draw_char 10 20 65 7 (\<lambda>_. 0) = Inr scr' \<and> px scr' 14 20 = 7 \<and> px scr' 11 20 = 0"
proof -
  have g: "glyph 65 = Some (bitmaps_A_Z ! 0)" by (simp add: glyph_def)
  obtain scr' where "draw_char 10 20 65 7 (\<lambda>_. 0) = Inr scr'"
    "\<forall>a < SCREEN_WIDTH. \<forall>b < SCREEN_HEIGHT. px scr' a b =
      (if unat (10 :: u16) < a \<and> a \<le> unat (10 :: u16) + 8 \<and> unat (20 :: u16) \<le> b \<and> b < unat (20 :: u16) + 8 \<and>
          bit (bitmaps_A_Z ! 0 ! (b - unat (20 :: u16))) (unat (10 :: u16) + 8 - a) then 7 else px (\<lambda>_. 0) a b)"
    using draw_char_exact [OF g, of 10 20 7 "\<lambda>_. 0"] by (auto simp: jos_const)
  then show ?thesis
    by (intro exI [of _ scr']) (simp add: jos_const bitmaps_A_Z_def px_def bit_iff_odd)
qed

end
