(* ===== verification/Mouse.thy ===== *)
theory Mouse
  imports Console Bitmap
begin

text \<open>
  The PS/2 mouse driver (\<^verbatim>\<open>kern/mouse.c\<close>): the packet decoder of the interrupt handler, the
  pointer drawn over the screen with a backup of the pixels it covers, and the circular
  buffer of clicks that \<^verbatim>\<open>mouse_getp\<close> empties. Mouse and keyboard share one controller, so the
  mouse reads the queue \<open>kbd_in\<close> of the console. The pointer never leaves the screen, so
  its stores are plain updates of the frame buffer.
\<close>

section \<open>State\<close>

definition MOUSE_HEIGHT :: nat where MOUSE_HEIGHT_def [jos_const]: "MOUSE_HEIGHT = 18"
definition MOUSE_WIDTH :: nat where MOUSE_WIDTH_def [jos_const]: "MOUSE_WIDTH = 15"
definition BUFSIZE :: nat where BUFSIZE_def [jos_const]: "BUFSIZE = 512"

datatype click_type = R_CLICK | L_CLICK | DBL_CLICK | NO_CLICK

record mouse_u_pkt =
  pkt_x :: int
  pkt_y :: int
  pkt_type :: click_type

record mouse_packet =
  x_sgn :: bool
  y_sgn :: bool
  l_btn :: bool
  r_btn :: bool
  m_btn :: bool
  x_overflow :: bool
  y_overflow :: bool
  x_mov :: int
  y_mov :: int
  tick :: u32

record mouse =
  curr_pos :: "int \<times> int"
  prev_pos :: "int \<times> int"
  packet :: mouse_packet
  lastclicktick :: u32
  recovery :: int
  color_backup :: "nat \<Rightarrow> nat \<Rightarrow> u8"
  mouse_color :: "nat \<Rightarrow> u8"
  m_buf :: "nat \<Rightarrow> mouse_u_pkt"
  m_rpos :: nat
  m_wpos :: nat

record devices =
  con :: console
  scr :: screen
  mou :: mouse

definition mouse_pointer :: "nat list list" where
  "mouse_pointer = [
     [2, 2, 0, 0, 0, 0, 0, 0, 0, 0, 0, 0, 0, 0, 0],
     [2, 1, 2, 0, 0, 0, 0, 0, 0, 0, 0, 0, 0, 0, 0],
     [2, 1, 1, 2, 0, 0, 0, 0, 0, 0, 0, 0, 0, 0, 0],
     [2, 1, 1, 1, 2, 0, 0, 0, 0, 0, 0, 0, 0, 0, 0],
     [2, 1, 1, 1, 1, 2, 0, 0, 0, 0, 0, 0, 0, 0, 0],
     [2, 1, 1, 1, 1, 1, 2, 0, 0, 0, 0, 0, 0, 0, 0],
     [2, 1, 1, 1, 1, 1, 1, 2, 0, 0, 0, 0, 0, 0, 0],
     [2, 1, 1, 1, 1, 1, 1, 1, 2, 0, 0, 0, 0, 0, 0],
     [2, 1, 1, 1, 1, 1, 1, 1, 1, 2, 0, 0, 0, 0, 0],
     [2, 1, 1, 1, 1, 1, 1, 1, 1, 1, 2, 0, 0, 0, 0],
     [2, 1, 1, 1, 1, 1, 1, 1, 1, 1, 1, 2, 0, 0, 0],
     [2, 1, 1, 1, 1, 1, 1, 2, 2, 2, 2, 2, 0, 0, 0],
     [2, 1, 1, 1, 2, 1, 1, 2, 0, 0, 0, 0, 0, 0, 0],
     [2, 1, 1, 2, 0, 2, 1, 1, 2, 0, 0, 0, 0, 0, 0],
     [2, 1, 2, 0, 0, 2, 1, 1, 2, 0, 0, 0, 0, 0, 0],
     [2, 2, 0, 0, 0, 0, 2, 1, 1, 2, 0, 0, 0, 0, 0],
     [0, 0, 0, 0, 0, 0, 2, 1, 1, 2, 0, 0, 0, 0, 0],
     [0, 0, 0, 0, 0, 0, 0, 2, 2, 0, 0, 0, 0, 0, 0]]"

section \<open>The pointer\<close>

text \<open>
  The cells of the pointer at \<open>(x, y)\<close> that lie on the screen and are not transparent, in the
  order of the loops: each loop breaks at the first coordinate off the screen.
\<close>

definition pointer_cells :: "int \<Rightarrow> int \<Rightarrow> (nat \<times> nat) list" where
  "pointer_cells x y =
     filter (\<lambda>(i, j). mouse_pointer ! i ! j \<noteq> 0)
       (List.product
          (takeWhile (\<lambda>i. \<not> (y + int i \<ge> int SCREEN_HEIGHT \<or> y + int i < 0)) [0..<MOUSE_HEIGHT])
          (takeWhile (\<lambda>j. \<not> (x + int j \<ge> int SCREEN_WIDTH \<or> x + int j < 0)) [0..<MOUSE_WIDTH]))"

definition pointer_addr :: "int \<Rightarrow> int \<Rightarrow> nat \<times> nat \<Rightarrow> u32" where
  "pointer_addr x y = (\<lambda>(i, j). SCREEN_BASE_ADDR + word_of_int ((y + int i) * int SCREEN_WIDTH + x + int j))"

definition set_backup :: "nat \<times> nat \<Rightarrow> u8 \<Rightarrow> mouse \<Rightarrow> mouse" where
  "set_backup = (\<lambda>(i, j) v m. m\<lparr>color_backup := (color_backup m)(i := (color_backup m i)(j := v))\<rparr>)"

definition get_backup :: "mouse \<Rightarrow> nat \<times> nat \<Rightarrow> u8" where
  "get_backup m = (\<lambda>(i, j). color_backup m i j)"

definition mouse_update_color_backup :: "devices \<Rightarrow> devices" where
  "mouse_update_color_backup d =
     (let (x, y) = curr_pos (mou d)
      in fold (\<lambda>c d. d\<lparr>mou := set_backup c (scr d (pointer_addr x y c)) (mou d)\<rparr>) (pointer_cells x y) d)"

definition restore_cell :: "int \<Rightarrow> int \<Rightarrow> nat \<times> nat \<Rightarrow> devices \<Rightarrow> devices" where
  "restore_cell x y c d = d\<lparr>scr := (scr d)(pointer_addr x y c := get_backup (mou d) c)\<rparr>"

definition draw_cell :: "int \<Rightarrow> int \<Rightarrow> nat \<times> nat \<Rightarrow> devices \<Rightarrow> devices" where
  "draw_cell x y c d =
     d\<lparr>mou := set_backup c (scr d (pointer_addr x y c)) (mou d),
       scr := (scr d)(pointer_addr x y c := mouse_color (mou d) (mouse_pointer ! fst c ! snd c - 1))\<rparr>"

definition drawMouse :: "int \<Rightarrow> int \<Rightarrow> bool \<Rightarrow> devices \<Rightarrow> devices" where
  "drawMouse x y recover_old d =
     fold (if recover_old then restore_cell x y else draw_cell x y) (pointer_cells x y) d"

section \<open>Packets\<close>

definition clamp :: "int \<Rightarrow> int \<Rightarrow> int" where
  "clamp hi v = (let v1 = (if v < 0 then 0 else v) in if v1 > hi then hi else v1)"

text \<open>
  The movement part of \<^verbatim>\<open>mouse_command\<close>: \<^verbatim>\<open>>> 5\<close> on an \<^verbatim>\<open>int\<close> rounds down.
\<close>

definition mouse_move :: "devices \<Rightarrow> devices" where
  "mouse_move d =
     (let m = mou d; p = packet m in
      if x_mov p \<noteq> 0 \<or> y_mov p \<noteq> 0 then
        (let cx = clamp (int SCREEN_WIDTH) (fst (curr_pos m) + x_mov p div 32);
             cy = clamp (int SCREEN_HEIGHT) (snd (curr_pos m) + - (y_mov p div 32));
             d1 = d\<lparr>mou := m\<lparr>prev_pos := curr_pos m, curr_pos := (cx, cy)\<rparr>\<rparr>
         in drawMouse cx cy False (drawMouse (fst (curr_pos m)) (snd (curr_pos m)) True d1))
      else d)"

definition m_put :: "mouse_u_pkt \<Rightarrow> mouse \<Rightarrow> mouse" where
  "m_put pkt m = m\<lparr>m_buf := (m_buf m)(m_wpos m := pkt),
                   m_wpos := (if m_wpos m + 1 = BUFSIZE then 0 else m_wpos m + 1)\<rparr>"

text \<open>
  The button part. \<open>junk\<close> is the uninitialised \<^verbatim>\<open>pkt.type\<close>, which is what a click of the
  middle button alone puts into the buffer.
\<close>

definition mouse_buttons :: "click_type \<Rightarrow> devices \<Rightarrow> devices" where
  "mouse_buttons junk d =
     (let p = packet (mou d) in
      if l_btn p \<or> r_btn p \<or> m_btn p then
        (let ty1 = (if l_btn p then (if tick p - lastclicktick (mou d) < 200 then DBL_CLICK else L_CLICK) else junk);
             ty2 = (if r_btn p then R_CLICK else ty1);
             d1 = (if m_btn p then
                     (let d0 = d\<lparr>con := cputs_string (''Middle'' @ [CHR 0x0A]) (con d)\<rparr>;
                          m = mou d0;
                          d2 = drawMouse (fst (curr_pos m)) (snd (curr_pos m)) False
                                 (drawMouse (fst (prev_pos m)) (snd (prev_pos m)) True d0)
                      in d2\<lparr>mou := (mou d2)\<lparr>curr_pos := (int SCREEN_WIDTH div 2, int SCREEN_HEIGHT div 2)\<rparr>\<rparr>)
                   else d);
             pkt = \<lparr>pkt_x = fst (prev_pos (mou d1)), pkt_y = snd (prev_pos (mou d1)), pkt_type = ty2\<rparr>
         in d1\<lparr>mou := (m_put pkt (mou d1))\<lparr>lastclicktick := tick p\<rparr>\<rparr>)
      else d)"

definition mouse_command :: "click_type \<Rightarrow> devices \<Rightarrow> devices" where
  "mouse_command junk d =
     (if x_overflow (packet (mou d)) \<or> y_overflow (packet (mou d)) then d
      else mouse_buttons junk (mouse_move d))"

definition next_recovery :: "int \<Rightarrow> u8 \<Rightarrow> int" where
  "next_recovery rec data =
     (if rec = 0 \<and> data = 0 then 1
      else if rec = 1 \<and> data = 0 then 2
      else if data = 12 then 0
      else - 1)"

definition first_byte_fields :: "u8 \<Rightarrow> mouse_packet \<Rightarrow> mouse_packet" where
  "first_byte_fields data p =
     p\<lparr>y_overflow := bit data 7, x_overflow := bit data 6, y_sgn := bit data 5, x_sgn := bit data 4,
       m_btn := bit data 2, r_btn := bit data 1, l_btn := bit data 0\<rparr>"

text \<open>
  One byte of the interrupt handler: the locals \<open>count\<close> and \<open>first_byte\<close> and the devices.
  \<open>now\<close> is the clock, which does not advance during an interrupt.
\<close>

definition mouse_byte :: "click_type \<Rightarrow> u32 \<Rightarrow> u8 \<Rightarrow> nat \<times> u8 \<times> devices \<Rightarrow> nat \<times> u8 \<times> devices" where
  "mouse_byte junk now data = (\<lambda>(count0, first_byte0, d).
     let count1 = count0 + 1;
         r = next_recovery (recovery (mou d)) data;
         p = packet (mou d);
         (count2, first_byte, p') =
           (if count1 = 1 then
              (if data AND 8 \<noteq> 0 then (1, data, first_byte_fields data p) else (0, first_byte0, p))
            else if count1 = 2 then
              (2, first_byte0, p\<lparr>x_mov := uint data - (if bit first_byte0 4 then 256 else 0)\<rparr>)
            else if count1 = 3 then
              (3, first_byte0, p\<lparr>y_mov := uint data - (if bit first_byte0 5 then 256 else 0), tick := now\<rparr>)
            else (0, first_byte0, p));
         d1 = d\<lparr>mou := (mou d)\<lparr>recovery := (if r = 2 then - 1 else r), packet := p'\<rparr>\<rparr>
     in if r = 2 then (0, first_byte, d1)
        else if count2 = 3 then (0, first_byte, mouse_command junk d1)
        else (count2, first_byte, d1))"

text \<open>The handler drains the controller, whatever device the bytes come from.\<close>

definition mouse_intr :: "click_type \<Rightarrow> u32 \<Rightarrow> devices \<Rightarrow> devices" where
  "mouse_intr junk now d =
     snd (snd (fold (\<lambda>(_, data). mouse_byte junk now data) (kbd_in (con d))
       (0, 0, d\<lparr>con := (con d)\<lparr>kbd_in := []\<rparr>\<rparr>)))"

definition mouse_poll :: "click_type \<Rightarrow> u32 \<Rightarrow> devices \<Rightarrow> devices" where
  "mouse_poll junk now d =
     (case kbd_in (con d) of
        [] \<Rightarrow> d
      | (aux, _) # _ \<Rightarrow> if aux then mouse_intr junk now d else d)"

definition m_take :: "mouse \<Rightarrow> mouse_u_pkt option \<times> mouse" where
  "m_take m =
     (if m_rpos m \<noteq> m_wpos m
      then (Some (m_buf m (m_rpos m)), m\<lparr>m_rpos := (if m_rpos m + 1 = BUFSIZE then 0 else m_rpos m + 1)\<rparr>)
      else (None, m))"

text \<open>\<open>None\<close> stands for the result -1 with \<^verbatim>\<open>NO_CLICK\<close> stored in the caller's packet.\<close>

definition mouse_getp :: "click_type \<Rightarrow> u32 \<Rightarrow> devices \<Rightarrow> mouse_u_pkt option \<times> devices" where
  "mouse_getp junk now d =
     (let d1 = mouse_poll junk now d; (r, m) = m_take (mou d1) in (r, d1\<lparr>mou := m\<rparr>))"

section \<open>Initialisation\<close>

text \<open>
  \<^verbatim>\<open>mouse_write\<close> sends a byte to the second port of the controller: port writes as pairs. The
  configuration byte and the answer of the mouse to the last command are what the controller
  delivers.
\<close>

definition mouse_write :: "u8 \<Rightarrow> (u16 \<times> u8) list" where
  "mouse_write w = [(0x64, 0xD4), (0x60, w)]"

definition mouse_init_writes :: "u8 \<Rightarrow> (u16 \<times> u8) list" where
  "mouse_init_writes cfg =
     [(0x64, 0xA8), (0x64, 0x20), (0x64, 0x60), (0x60, cfg OR 2)] @
     mouse_write 0xF6 @ mouse_write 0xF3 @ mouse_write 10 @ mouse_write 0xF4"

definition mouse_init :: "u8 \<Rightarrow> mouse \<Rightarrow> mouse exec" where
  "mouse_init statustemp m =
     (if statustemp \<noteq> 0xFA then Inl (Panic ''error: failed to enable mouse packet streaming'')
      else Inr (m\<lparr>mouse_color := (mouse_color m)(0 := ucast VGA_GREY, 1 := ucast VGA_WHITE),
                  lastclicktick := - 1000,
                  curr_pos := (int SCREEN_WIDTH div 2, int SCREEN_HEIGHT div 2)\<rparr>))"

definition m_contents :: "mouse \<Rightarrow> mouse_u_pkt list" where
  "m_contents m = ring BUFSIZE (m_buf m) (m_rpos m) (m_wpos m)"

definition m_valid :: "mouse \<Rightarrow> bool" where
  "m_valid m \<longleftrightarrow> m_rpos m < BUFSIZE \<and> m_wpos m < BUFSIZE"

definition pos_ok :: "mouse \<Rightarrow> bool" where
  "pos_ok m \<longleftrightarrow>
     (\<forall>p \<in> {curr_pos m, prev_pos m}. 0 \<le> fst p \<and> fst p \<le> int SCREEN_WIDTH \<and> 0 \<le> snd p \<and> snd p \<le> int SCREEN_HEIGHT)"

text \<open>The picture without the pointer: what is left when the backup is put back.\<close>

definition background :: "devices \<Rightarrow> screen" where
  "background d = scr (drawMouse (fst (curr_pos (mou d))) (snd (curr_pos (mou d))) True d)"

section \<open>The click buffer is a queue\<close>

interpretation click_ring: fifo m_contents m_valid "BUFSIZE - 1" m_put m_take
proof unfold_locales
  fix m :: mouse and x :: mouse_u_pkt and q
  assume v: "m_valid m"
  then have b: "m_rpos m < BUFSIZE" "m_wpos m < BUFSIZE" by (simp_all add: m_valid_def)
  have put: "m_put x m = m\<lparr>m_buf := (m_buf m)(m_wpos m := x), m_wpos := ring_next BUFSIZE (m_wpos m)\<rparr>"
    by (simp add: m_put_def ring_next_def)
  show "m_contents (m_put x m) = m_contents m @ [x]" if "length (m_contents m) < BUFSIZE - 1"
    using that b by (simp add: m_contents_def put ring_put)
  show "m_valid (m_put x m)" if "length (m_contents m) < BUFSIZE - 1"
    using b by (simp add: m_valid_def put ring_next_less)
  show "m_take m = (None, m)" if "m_contents m = []"
    using that b by (simp add: m_contents_def m_take_def ring_empty_iff)
  show "fst (m_take m) = Some x \<and> m_contents (snd (m_take m)) = q \<and> m_valid (snd (m_take m))"
    if "m_contents m = x # q"
  proof -
    have ne: "m_rpos m \<noteq> m_wpos m"
      using that b ring_empty_iff [of "m_rpos m" BUFSIZE "m_wpos m" "m_buf m"] by (simp add: m_contents_def)
    have "m_take m = (Some (m_buf m (m_rpos m)), m\<lparr>m_rpos := ring_next BUFSIZE (m_rpos m)\<rparr>)"
      using ne by (simp add: m_take_def ring_next_def)
    with that ring_get [OF b ne, of "m_buf m"] b show ?thesis
      by (simp add: m_contents_def m_valid_def ring_next_less)
  qed
qed

section \<open>Frames\<close>

lemma set_backup_frame [simp]:
  "curr_pos (set_backup c v m) = curr_pos m" "prev_pos (set_backup c v m) = prev_pos m"
  "packet (set_backup c v m) = packet m" "mouse_color (set_backup c v m) = mouse_color m"
  "m_buf (set_backup c v m) = m_buf m" "m_rpos (set_backup c v m) = m_rpos m"
  "m_wpos (set_backup c v m) = m_wpos m" "lastclicktick (set_backup c v m) = lastclicktick m"
  "recovery (set_backup c v m) = recovery m"
  by (simp_all add: set_backup_def case_prod_beta)

lemma get_set_backup [simp]: "get_backup (set_backup c v m) c' = (if c' = c then v else get_backup m c')"
  by (cases c; cases c') (auto simp: set_backup_def get_backup_def)

lemma drawMouse_frame:
  "curr_pos (mou (drawMouse x y b d)) = curr_pos (mou d) \<and> prev_pos (mou (drawMouse x y b d)) = prev_pos (mou d) \<and>
   packet (mou (drawMouse x y b d)) = packet (mou d) \<and> con (drawMouse x y b d) = con d"
proof -
  have "curr_pos (mou d') = curr_pos (mou d) \<and> prev_pos (mou d') = prev_pos (mou d) \<and>
      packet (mou d') = packet (mou d) \<and> con d' = con d"
    if "d' = fold (if b then restore_cell x y else draw_cell x y) cs d" for d' cs
    using that by (induction cs arbitrary: d) (auto simp: restore_cell_def draw_cell_def split: if_splits)
  then show ?thesis by (simp add: drawMouse_def)
qed

lemmas drawMouse_simps [simp] = drawMouse_frame [THEN conjunct1] drawMouse_frame [THEN conjunct2, THEN conjunct1]
  drawMouse_frame [THEN conjunct2, THEN conjunct2, THEN conjunct1]
  drawMouse_frame [THEN conjunct2, THEN conjunct2, THEN conjunct2]

section \<open>Drawing the pointer and putting the pixels back\<close>

lemma pointer_cellsD:
  assumes "(i, j) \<in> set (pointer_cells x y)"
  shows "0 \<le> x + int j \<and> x + int j < 320 \<and> 0 \<le> y + int i \<and> y + int i < 200"
  using assms by (auto simp: pointer_cells_def SCREEN_WIDTH_def SCREEN_HEIGHT_def dest!: set_takeWhileD)

lemma distinct_pointer_cells: "distinct (pointer_cells x y)"
  by (simp add: pointer_cells_def distinct_product)

lemma pointer_addr_addr:
  assumes "(i, j) \<in> set (pointer_cells x y)"
  shows "pointer_addr x y (i, j) = addr (nat (x + int j)) (nat (y + int i))"
proof -
  from pointer_cellsD [OF assms] obtain a b where ab: "x + int j = int a" "y + int i = int b"
    by (metis nonneg_int_cases)
  have "pointer_addr x y (i, j) = SCREEN_BASE_ADDR + word_of_int (int b * 320 + int a)"
    by (simp add: pointer_addr_def SCREEN_WIDTH_def ab add.assoc flip: ab)
  also have "\<dots> = addr a b" by (simp add: addr_def jos_const)
  finally show ?thesis by (simp add: ab)
qed

lemma inj_pointer_addr: "inj_on (pointer_addr x y) (set (pointer_cells x y))"
proof (rule inj_onI, clarify)
  fix i j i' j' assume c: "(i, j) \<in> set (pointer_cells x y)" "(i', j') \<in> set (pointer_cells x y)"
    and e: "pointer_addr x y (i, j) = pointer_addr x y (i', j')"
  note b = pointer_cellsD [OF c(1)] pointer_cellsD [OF c(2)]
  have "addr (nat (x + int j)) (nat (y + int i)) = addr (nat (x + int j')) (nat (y + int i'))"
    using e pointer_addr_addr [OF c(1)] pointer_addr_addr [OF c(2)] by simp
  then have "nat (x + int j) = nat (x + int j')" "nat (y + int i) = nat (y + int i')"
    using b by (subst (asm) addr_inj, auto)+
  with b show "i = i' \<and> j = j'" by linarith
qed

lemma draw_cells:
  assumes "distinct cs" and "inj_on (pointer_addr x y) (set cs)"
  shows "(\<forall>a. a \<notin> pointer_addr x y ` set cs \<longrightarrow> scr (fold (draw_cell x y) cs d) a = scr d a) \<and>
    (\<forall>c. get_backup (mou (fold (draw_cell x y) cs d)) c =
       (if c \<in> set cs then scr d (pointer_addr x y c) else get_backup (mou d) c))"
  using assms
proof (induction cs arbitrary: d)
  case Nil
  then show ?case by simp
next
  case (Cons c cs)
  let ?d = "draw_cell x y c d"
  have s: "scr ?d a = scr d a" if "a \<noteq> pointer_addr x y c" for a
    using that by (simp add: draw_cell_def)
  have b: "get_backup (mou ?d) c' = (if c' = c then scr d (pointer_addr x y c) else get_backup (mou d) c')" for c'
    by (simp add: draw_cell_def)
  have ne: "pointer_addr x y c' \<noteq> pointer_addr x y c" if "c' \<in> set cs" for c'
    using Cons.prems that by (auto simp: inj_on_def)
  have "inj_on (pointer_addr x y) (set cs)" using Cons.prems by simp
  with Cons.IH [of ?d] Cons.prems(1) s ne show ?case by (simp add: b)
qed

lemma restore_cells:
  assumes "\<forall>c \<in> set cs. get_backup (mou d) c = g (pointer_addr x y c)"
  shows "fold (restore_cell x y) cs d = d\<lparr>scr := (\<lambda>a. if a \<in> pointer_addr x y ` set cs then g a else scr d a)\<rparr>"
  using assms
proof (induction cs arbitrary: d)
  case Nil
  then show ?case by simp
next
  case (Cons c cs)
  then show ?case by (auto simp: restore_cell_def fun_eq_iff)
qed

lemma draw_restore: "scr (drawMouse x y True (drawMouse x y False d)) = scr d"
proof -
  let ?cs = "pointer_cells x y" let ?d = "fold (draw_cell x y) ?cs d"
  note d = draw_cells [OF distinct_pointer_cells inj_pointer_addr, of x y d]
  have "fold (restore_cell x y) ?cs ?d = ?d\<lparr>scr := (\<lambda>a. if a \<in> pointer_addr x y ` set ?cs then scr d a else scr ?d a)\<rparr>"
    by (intro restore_cells ballI) (simp only: d [THEN conjunct2, rule_format] if_True)
  with d show ?thesis by (auto simp: drawMouse_def fun_eq_iff)
qed

section \<open>The pointer stays on the screen\<close>

lemma clamp_bounds: "0 \<le> hi \<Longrightarrow> 0 \<le> clamp hi v \<and> clamp hi v \<le> hi"
  by (simp add: clamp_def Let_def)

lemma mouse_move_pos: "pos_ok (mou d) \<Longrightarrow> pos_ok (mou (mouse_move d))"
  using clamp_bounds [of "int SCREEN_WIDTH"] clamp_bounds [of "int SCREEN_HEIGHT"]
  by (simp add: mouse_move_def pos_ok_def Let_def)

lemma mouse_buttons_pos: "pos_ok (mou d) \<Longrightarrow> pos_ok (mou (mouse_buttons junk d))"
  by (simp add: mouse_buttons_def pos_ok_def Let_def m_put_def SCREEN_WIDTH_def SCREEN_HEIGHT_def)

lemma packet_mouse_move: "packet (mou (mouse_move d)) = packet (mou d)"
  by (simp add: mouse_move_def Let_def)

lemma mouse_command_quiet:
  assumes "packet (mou d) = p" and "\<not> x_overflow p" and "\<not> y_overflow p" and "\<not> l_btn p" and "\<not> r_btn p" and "\<not> m_btn p"
  shows "mouse_command junk d = mouse_move d"
  using assms by (simp add: mouse_command_def mouse_buttons_def packet_mouse_move)

lemma curr_pos_mouse_move:
  assumes "packet (mou d) = p" and "pos_ok (mou d)"
  shows "curr_pos (mou (mouse_move d)) =
    (clamp (int SCREEN_WIDTH) (fst (curr_pos (mou d)) + x_mov p div 32),
     clamp (int SCREEN_HEIGHT) (snd (curr_pos (mou d)) - y_mov p div 32))"
proof -
  have "clamp (int SCREEN_WIDTH) (fst (curr_pos (mou d))) = fst (curr_pos (mou d))"
    "clamp (int SCREEN_HEIGHT) (snd (curr_pos (mou d))) = snd (curr_pos (mou d))"
    using assms(2) by (simp_all add: pos_ok_def clamp_def)
  then show ?thesis using assms(1) by (simp add: mouse_move_def Let_def)
qed

lemma mouse_byte_pos:
  "pos_ok (mou (snd (snd st))) \<Longrightarrow> pos_ok (mou (snd (snd (mouse_byte junk now data st))))"
proof -
  assume a: "pos_ok (mou (snd (snd st)))"
  obtain c f d where st: "st = (c, f, d)" by (metis prod_cases3)
  have k: "pos_ok (mou (mouse_command junk d'))" if "pos_ok (mou d')" for d'
    using that mouse_move_pos mouse_buttons_pos by (simp add: mouse_command_def)
  have "pos_ok (mou (d\<lparr>mou := (mou d)\<lparr>recovery := r, packet := p\<rparr>\<rparr>))" for r p
    using a by (simp add: st pos_ok_def)
  with k show ?thesis by (simp add: st mouse_byte_def Let_def case_prod_beta)
qed

lemma mouse_bytes_pos:
  "pos_ok (mou (snd (snd st))) \<Longrightarrow>
     pos_ok (mou (snd (snd (fold (\<lambda>(_, data). mouse_byte junk now data) bs st))))"
proof (induction bs arbitrary: st)
  case (Cons b bs)
  from Cons.IH [OF mouse_byte_pos [OF Cons.prems]] show ?case by (simp add: case_prod_beta)
qed simp

section \<open>Properties\<close>

definition demo_dev :: devices where
  "demo_dev = \<lparr>con = demo_cons\<lparr>kbd_in := [(True, 0x29), (True, 0x40), (True, 0xC0)]\<rparr>, scr = (\<lambda>a. ucast a),
     mou = \<lparr>curr_pos = (160, 100), prev_pos = (0, 0),
            packet = \<lparr>x_sgn = False, y_sgn = False, l_btn = False, r_btn = False, m_btn = False,
                      x_overflow = False, y_overflow = False, x_mov = 0, y_mov = 0, tick = 0\<rparr>,
            lastclicktick = - 1000, recovery = 0, color_backup = (\<lambda>_ _. 0), mouse_color = (\<lambda>_. 7),
            m_buf = (\<lambda>_. \<lparr>pkt_x = 0, pkt_y = 0, pkt_type = NO_CLICK\<rparr>), m_rpos = 0, m_wpos = 0\<rparr>\<rparr>"



text \<open>
  C36: Moving the pointer does not change the picture under it: the screen without the pointer
  is the same before and after the movement.
\<close>

theorem mouse_move_keeps_background: "background (mouse_move d) = background d"
proof -
  have "scr (drawMouse x y True (d\<lparr>mou := (mou d)\<lparr>prev_pos := p, curr_pos := c\<rparr>\<rparr>)) = scr (drawMouse x y True d)" for x y p c
  proof -
    let ?u = "\<lambda>d. d\<lparr>mou := (mou d)\<lparr>prev_pos := p, curr_pos := c\<rparr>\<rparr>"
    have "restore_cell x y a (?u d) = ?u (restore_cell x y a d)" for a d
      by (simp add: restore_cell_def get_backup_def)
    then have "scr (fold (restore_cell x y) cs (d\<lparr>mou := (mou d)\<lparr>prev_pos := p, curr_pos := c\<rparr>\<rparr>)) =
        scr (fold (restore_cell x y) cs d)" for cs d
      by (induction cs arbitrary: d) simp_all
    then show ?thesis by (simp add: drawMouse_def)
  qed
  then show ?thesis
    by (simp add: background_def mouse_move_def Let_def draw_restore)
qed

text \<open>
  A movement packet without buttons or overflow moves the pointer by a thirty-second of the
  two 9-bit two's-complement distances, the vertical one upwards, clipped to the screen.
\<close>

theorem mouse_packet_moves:
  assumes "kbd_in (con d) = [(t0, b0), (t1, b1), (t2, b2)]" and "pos_ok (mou d)"
    and "bit b0 3" and "\<not> bit b0 0" and "\<not> bit b0 1" and "\<not> bit b0 2" and "\<not> bit b0 6" and "\<not> bit b0 7"
  shows "let dx = uint b1 - (if bit b0 4 then 256 else 0); dy = uint b2 - (if bit b0 5 then 256 else 0) in
    curr_pos (mou (mouse_intr junk now d)) =
      (clamp (int SCREEN_WIDTH) (fst (curr_pos (mou d)) + dx div 32),
       clamp (int SCREEN_HEIGHT) (snd (curr_pos (mou d)) - dy div 32))"
proof -
  have n: "b0 AND 8 \<noteq> 0" "b0 \<noteq> 12" "b0 \<noteq> 0"
    using assms(3,6) and_exp_eq_0_iff_not_bit [of b0 3] by (auto simp: bit_iff_odd)
  have r: "next_recovery r0 b0 = - 1" for r0 using n by (simp add: next_recovery_def)
  have r1: "next_recovery (- 1) b1 \<in> {0, - 1}" by (simp add: next_recovery_def)
  then have r2: "next_recovery (next_recovery (- 1) b1) b2 \<noteq> 2" by (auto simp: next_recovery_def)
  let ?p1 = "first_byte_fields b0 (packet (mou d))"
  let ?p2 = "?p1\<lparr>x_mov := uint b1 - (if bit b0 4 then 256 else 0)\<rparr>"
  let ?p3 = "?p2\<lparr>y_mov := uint b2 - (if bit b0 5 then 256 else 0), tick := now\<rparr>"
  let ?D = "\<lambda>r p. d\<lparr>con := (con d)\<lparr>kbd_in := []\<rparr>, mou := (mou d)\<lparr>recovery := r, packet := p\<rparr>\<rparr>"
  have 1: "mouse_byte junk now b0 (0, 0, d\<lparr>con := (con d)\<lparr>kbd_in := []\<rparr>\<rparr>) = (1, b0, ?D (- 1) ?p1)"
    using n by (simp add: mouse_byte_def r)
  have 2: "mouse_byte junk now b1 (1, b0, ?D (- 1) ?p1) = (2, b0, ?D (next_recovery (- 1) b1) ?p2)"
    using r1 by (auto simp: mouse_byte_def Let_def)
  obtain r3 where 3: "mouse_byte junk now b2 (2, b0, ?D (next_recovery (- 1) b1) ?p2) = (0, b0, mouse_command junk (?D r3 ?p3))"
    using r2 by (simp add: mouse_byte_def Let_def)
  have "mouse_intr junk now d = mouse_command junk (?D r3 ?p3)"
    by (simp only: mouse_intr_def assms(1) fold_simps prod.case 1 2 3 snd_conv)
  also have "\<dots> = mouse_move (?D r3 ?p3)"
    by (rule mouse_command_quiet [where p = ?p3]) (simp_all add: first_byte_fields_def assms(4-8) assms(5) [simplified] del: bit_0)
  finally have "curr_pos (mou (mouse_intr junk now d)) =
      (clamp (int SCREEN_WIDTH) (fst (curr_pos (mou (?D r3 ?p3))) + x_mov ?p3 div 32),
       clamp (int SCREEN_HEIGHT) (snd (curr_pos (mou (?D r3 ?p3))) - y_mov ?p3 div 32))"
    by (simp only:) (rule curr_pos_mouse_move, use assms(2) in \<open>simp_all add: pos_ok_def\<close>)
  then show ?thesis by (simp add: Let_def)
qed

theorem mouse_packet_moves_witness:
  "curr_pos (mou (mouse_intr NO_CLICK 5 (demo_dev\<lparr>con := (con demo_dev)\<lparr>kbd_in := [(True, 0x28), (True, 0x40), (True, 0xC0)]\<rparr>\<rparr>))) = (162, 102)"
  using mouse_packet_moves [of "demo_dev\<lparr>con := (con demo_dev)\<lparr>kbd_in := [(True, 0x28), (True, 0x40), (True, 0xC0)]\<rparr>\<rparr>"
      True "0x28" True "0x40" True "0xC0" NO_CLICK 5]
  by (simp add: demo_dev_def pos_ok_def clamp_def jos_const bit_iff_odd)

text \<open>
  After a drawing call the backup is taken from the screen with the pointer still on it, so
  the pointer becomes part of the picture: putting the backup back changes nothing, and the next
  movement leaves a copy of the pointer behind.
\<close>

theorem color_backup_takes_pointer:
  "background (mouse_update_color_backup d) = scr d"
proof -
  let ?c = "curr_pos (mou d)" let ?A = "pointer_addr (fst ?c) (snd ?c)" let ?cs = "pointer_cells (fst ?c) (snd ?c)"
  have f: "scr (fold (\<lambda>c d. d\<lparr>mou := set_backup c (scr d (?A c)) (mou d)\<rparr>) cs d') = scr d' \<and>
      curr_pos (mou (fold (\<lambda>c d. d\<lparr>mou := set_backup c (scr d (?A c)) (mou d)\<rparr>) cs d')) = curr_pos (mou d') \<and>
      (\<forall>c. get_backup (mou (fold (\<lambda>c d. d\<lparr>mou := set_backup c (scr d (?A c)) (mou d)\<rparr>) cs d')) c =
        (if c \<in> set cs then scr d' (?A c) else get_backup (mou d') c))" for cs d'
    by (induction cs arbitrary: d') auto
  let ?d = "mouse_update_color_backup d"
  have u: "scr ?d = scr d" "curr_pos (mou ?d) = ?c" "\<And>c. c \<in> set ?cs \<Longrightarrow> get_backup (mou ?d) c = scr d (?A c)"
    using f [of ?cs d] by (simp_all add: mouse_update_color_backup_def case_prod_beta del: split_paired_All)
  have "drawMouse (fst ?c) (snd ?c) True ?d = ?d\<lparr>scr := (\<lambda>a. if a \<in> ?A ` set ?cs then scr d a else scr ?d a)\<rparr>"
    unfolding drawMouse_def using u(3) by (simp add: restore_cells [where g = "scr d"])
  then show ?thesis by (auto simp: background_def u(2) fun_eq_iff) (simp_all add: u(1))
qed

end
