(* ===== verification/E1000.thy ===== *)
theory E1000
  imports Syscalls Fifo
begin

text \<open>
  The E1000 network card driver (\<^verbatim>\<open>kern/e1000.c\<close>, \<^verbatim>\<open>kern/e1000.h\<close>): initialisation, the transmit
  and the receive ring, and the interrupt handler. The registers are the function \<open>bar0\<close> from
  register offsets to values. The card runs beside the driver: \<open>hw_send\<close> and \<open>hw_receive\<close> are
  the steps its manual documents for the two rings (it works on the descriptors from its head
  register up to the tail register the driver writes, and reports a finished one in the
  descriptor's status byte).
\<close>

section \<open>Registers and descriptors\<close>

definition TX_DESC_POOL_SIZE :: nat where TX_DESC_POOL_SIZE_def [jos_const]: "TX_DESC_POOL_SIZE = 64"
definition TX_PACKET_SIZE :: nat where TX_PACKET_SIZE_def [jos_const]: "TX_PACKET_SIZE = 1518"
definition RX_DESC_POOL_SIZE :: nat where RX_DESC_POOL_SIZE_def [jos_const]: "RX_DESC_POOL_SIZE = 128"
definition RX_PACKET_SIZE :: nat where RX_PACKET_SIZE_def [jos_const]: "RX_PACKET_SIZE = 2048"

definition E1000_STATUS :: u32 where E1000_STATUS_def [jos_const]: "E1000_STATUS = 0x00008"
definition E1000_TDBAL :: u32 where E1000_TDBAL_def [jos_const]: "E1000_TDBAL = 0x03800"
definition E1000_TDBAH :: u32 where E1000_TDBAH_def [jos_const]: "E1000_TDBAH = 0x03804"
definition E1000_TDLEN :: u32 where E1000_TDLEN_def [jos_const]: "E1000_TDLEN = 0x03808"
definition E1000_TDH :: u32 where E1000_TDH_def [jos_const]: "E1000_TDH = 0x03810"
definition E1000_TDT :: u32 where E1000_TDT_def [jos_const]: "E1000_TDT = 0x03818"
definition E1000_TCTL :: u32 where E1000_TCTL_def [jos_const]: "E1000_TCTL = 0x00400"
definition E1000_TIPG :: u32 where E1000_TIPG_def [jos_const]: "E1000_TIPG = 0x00410"
definition E1000_IMS :: u32 where E1000_IMS_def [jos_const]: "E1000_IMS = 0x000D0"
definition E1000_RCTL :: u32 where E1000_RCTL_def [jos_const]: "E1000_RCTL = 0x00100"
definition E1000_RAL :: u32 where E1000_RAL_def [jos_const]: "E1000_RAL = 0x5400"
definition E1000_RAH :: u32 where E1000_RAH_def [jos_const]: "E1000_RAH = 0x5404"
definition E1000_RDBAL :: u32 where E1000_RDBAL_def [jos_const]: "E1000_RDBAL = 0x02800"
definition E1000_RDBAH :: u32 where E1000_RDBAH_def [jos_const]: "E1000_RDBAH = 0x02804"
definition E1000_RDLEN :: u32 where E1000_RDLEN_def [jos_const]: "E1000_RDLEN = 0x02808"
definition E1000_RDH :: u32 where E1000_RDH_def [jos_const]: "E1000_RDH = 0x02810"
definition E1000_RDT :: u32 where E1000_RDT_def [jos_const]: "E1000_RDT = 0x02818"
definition E1000_MTA :: u32 where E1000_MTA_def [jos_const]: "E1000_MTA = 0x05200"

definition E1000_RAH_AV :: u32 where E1000_RAH_AV_def [jos_const]: "E1000_RAH_AV = 0x80000000"
definition E1000_RCTL_EN :: u32 where E1000_RCTL_EN_def [jos_const]: "E1000_RCTL_EN = 0x00000002"
definition E1000_RCTL_BAM :: u32 where E1000_RCTL_BAM_def [jos_const]: "E1000_RCTL_BAM = 0x00008000"
definition E1000_RCTL_SECRC :: u32 where E1000_RCTL_SECRC_def [jos_const]: "E1000_RCTL_SECRC = 0x04000000"
definition E1000_TCTL_EN :: u32 where E1000_TCTL_EN_def [jos_const]: "E1000_TCTL_EN = 0x00000002"
definition E1000_TCTL_PSP :: u32 where E1000_TCTL_PSP_def [jos_const]: "E1000_TCTL_PSP = 0x00000008"
definition E1000_TCTL_CT :: u32 where E1000_TCTL_CT_def [jos_const]: "E1000_TCTL_CT = 0x00000ff0"
definition E1000_TCTL_COLD :: u32 where E1000_TCTL_COLD_def [jos_const]: "E1000_TCTL_COLD = 0x003ff000"
definition E1000_ICR_TXDW :: u32 where E1000_ICR_TXDW_def [jos_const]: "E1000_ICR_TXDW = 0x00000001"
definition E1000_ICR_RXT0 :: u32 where E1000_ICR_RXT0_def [jos_const]: "E1000_ICR_RXT0 = 0x00000080"
definition E1000_TXD_CMD_EOP :: u8 where E1000_TXD_CMD_EOP_def [jos_const]: "E1000_TXD_CMD_EOP = 0x1"
definition E1000_TXD_CMD_RS :: u8 where E1000_TXD_CMD_RS_def [jos_const]: "E1000_TXD_CMD_RS = 0x8"
definition E1000_TXD_STAT_DD :: u8 where E1000_TXD_STAT_DD_def [jos_const]: "E1000_TXD_STAT_DD = 0x1"
definition E1000_RXD_STAT_DD :: u8 where E1000_RXD_STAT_DD_def [jos_const]: "E1000_RXD_STAT_DD = 0x01"
definition E1000_RXD_STAT_EOP :: u8 where E1000_RXD_STAT_EOP_def [jos_const]: "E1000_RXD_STAT_EOP = 0x02"
definition E1000_EECD_PRES :: u32 where E1000_EECD_PRES_def [jos_const]: "E1000_EECD_PRES = 0x00000100"
definition E1000_MAP_STATUS :: u32 where E1000_MAP_STATUS_def [jos_const]: "E1000_MAP_STATUS = 0x80080783"

text \<open>Both pools have the element type \<^verbatim>\<open>struct e1000_tx_desc\<close>.\<close>

record e1000_tx_desc =
  d_addr :: u64
  d_length :: u16
  d_cso :: u8
  d_cmd :: u8
  d_status :: u8
  d_css :: u8
  d_special :: u16

record e1000 =
  bar0 :: "u32 \<Rightarrow> u32"
  tx_desc_pool :: "nat \<Rightarrow> e1000_tx_desc"
  rx_desc_pool :: "nat \<Rightarrow> e1000_tx_desc"
  e1000_mac :: "u8 list"
  rec_head_index :: nat
  out_ns :: int
  in_ns :: int

definition zero_desc :: e1000_tx_desc where
  "zero_desc = \<lparr>d_addr = 0, d_length = 0, d_cso = 0, d_cmd = 0, d_status = 0, d_css = 0, d_special = 0\<rparr>"

definition set_reg :: "u32 \<Rightarrow> u32 \<Rightarrow> e1000 \<Rightarrow> e1000" where
  "set_reg r v n = n\<lparr>bar0 := (bar0 n)(r := v)\<rparr>"

section \<open>Initialisation\<close>

text \<open>\<open>pool\<close> is the physical address of \<^verbatim>\<open>tx_desc_pool\<close>; a descriptor has 16 bytes.\<close>

definition e1000_tx_init :: "u32 \<Rightarrow> e1000 \<Rightarrow> e1000 exec" where
  "e1000_tx_init pool n =
     (let n1 = set_reg E1000_TDBAH 0 (set_reg E1000_TDBAL pool (n\<lparr>tx_desc_pool := (\<lambda>_. zero_desc)\<rparr>)) in
      if 16 * TX_DESC_POOL_SIZE mod 128 \<noteq> 0 then Inl (Panic ''e1000_tx_init: sizeof tx_desc_pool not aligned'')
      else
        let n2 = set_reg E1000_TDT 0 (set_reg E1000_TDH 0 (set_reg E1000_TDLEN (of_nat (16 * TX_DESC_POOL_SIZE)) n1));
            n3 = set_reg E1000_TCTL (E1000_TCTL_EN OR E1000_TCTL_PSP OR (E1000_TCTL_COLD AND push_bit 12 0x40) OR
                   (E1000_TCTL_CT AND push_bit 4 0x10)) n2;
            n4 = set_reg E1000_TIPG (10 OR push_bit 10 4 OR push_bit 20 6) n3
        in Inr (n4\<lparr>tx_desc_pool := (\<lambda>i. if i < TX_DESC_POOL_SIZE
             then (tx_desc_pool n4 i)\<lparr>d_cmd := d_cmd (tx_desc_pool n4 i) OR E1000_TXD_CMD_RS OR E1000_TXD_CMD_EOP,
                                      d_status := d_status (tx_desc_pool n4 i) OR E1000_TXD_STAT_DD\<rparr>
             else tx_desc_pool n4 i)\<rparr>))"

text \<open>
  The shift counts 32 and 40 of the second loop are undefined in C; the CPU takes them modulo
  32, which is what puts bytes 4 and 5 into the low half of the high register.
\<close>

definition e1000_config_mac :: "e1000 \<Rightarrow> e1000" where
  "e1000_config_mac n =
     (let m = e1000_mac n;
          low = foldl (\<lambda>a i. a OR push_bit (8 * i) (ucast (m ! i))) 0 [0..<4];
          high = foldl (\<lambda>a i. a OR push_bit (8 * i mod 32) (ucast (m ! i))) 0 [4..<6]
      in set_reg E1000_RAH (high OR E1000_RAH_AV) (set_reg E1000_RAL low n))"

text \<open>\<open>eecd\<close> is the EEPROM control register, \<open>word i\<close> what the EEPROM answers at address \<open>i\<close>.\<close>

definition e1000_eeprom_read_mac :: "u32 \<Rightarrow> (nat \<Rightarrow> u16) \<Rightarrow> e1000 \<Rightarrow> e1000 exec" where
  "e1000_eeprom_read_mac eecd word n =
     (if eecd AND E1000_EECD_PRES = 0 then Inl (Panic ''rx_init: EEPROM is not present'')
      else Inr (n\<lparr>e1000_mac := [ucast (word 0 AND 0xff), ucast (drop_bit 8 (word 0)),
                              ucast (word 1 AND 0xff), ucast (drop_bit 8 (word 1)),
                              ucast (word 2 AND 0xff), ucast (drop_bit 8 (word 2))]\<rparr>))"

text \<open>\<open>bufs i\<close> is the physical address of receive buffer \<open>i\<close>.\<close>

definition e1000_rx_init :: "u32 \<Rightarrow> (nat \<Rightarrow> u16) \<Rightarrow> u32 \<Rightarrow> (nat \<Rightarrow> u32) \<Rightarrow> e1000 \<Rightarrow> e1000 exec" where
  "e1000_rx_init eecd word pool bufs n =
     bindE (e1000_eeprom_read_mac eecd word (n\<lparr>rx_desc_pool := (\<lambda>_. zero_desc)\<rparr>)) (\<lambda>n0.
       let n1 = set_reg E1000_RDBAH 0 (set_reg E1000_RDBAL pool (set_reg E1000_MTA 0 (e1000_config_mac n0))) in
       if 16 * RX_DESC_POOL_SIZE mod 128 \<noteq> 0 then Inl (Panic ''e1000_rx_init: sizeof tx_desc_pool not aligned'')
       else
         let n2 = set_reg E1000_RDT (of_nat (RX_DESC_POOL_SIZE - 1)) (set_reg E1000_RDH 0
                    (set_reg E1000_RDLEN (of_nat (16 * RX_DESC_POOL_SIZE)) n1));
             n3 = set_reg E1000_RCTL (E1000_RCTL_EN OR E1000_RCTL_BAM OR E1000_RCTL_SECRC) n2
         in Inr (n3\<lparr>rx_desc_pool := (\<lambda>i. if i < RX_DESC_POOL_SIZE
              then (rx_desc_pool n3 i)\<lparr>d_addr := ucast (bufs i)\<rparr> else rx_desc_pool n3 i)\<rparr>))"

section \<open>Sending\<close>

text \<open>
  The part of \<^verbatim>\<open>e1000_transmit\<close> after the address translation: hand the descriptor at the tail
  to the card. The result carries the new tail and, in bit 30, whether its descriptor is free.
\<close>

definition tx_put :: "u64 \<times> u16 \<Rightarrow> e1000 \<Rightarrow> e1000" where
  "tx_put = (\<lambda>(a, len) n.
     let t = unat (bar0 n E1000_TDT)
     in set_reg E1000_TDT (of_nat ((t + 1) mod TX_DESC_POOL_SIZE))
          (n\<lparr>tx_desc_pool := (tx_desc_pool n)(t := (tx_desc_pool n t)\<lparr>d_addr := a, d_length := len,
               d_status := d_status (tx_desc_pool n t) AND NOT E1000_TXD_STAT_DD\<rparr>)\<rparr>))"

definition tx_full :: "e1000 \<Rightarrow> bool" where
  "tx_full n \<longleftrightarrow> d_status (tx_desc_pool n (unat (bar0 n E1000_TDT))) AND E1000_TXD_STAT_DD = 0"

definition tx_result :: "e1000 \<Rightarrow> int" where
  "tx_result n = sint (bar0 n E1000_TDT OR
     push_bit 30 (ucast (d_status (tx_desc_pool n (unat (bar0 n E1000_TDT))) AND E1000_TXD_STAT_DD)))"

definition e1000_transmit :: "u32 \<Rightarrow> u16 \<Rightarrow> kstate \<Rightarrow> e1000 \<Rightarrow> (int \<times> e1000) exec" where
  "e1000_transmit data len s n =
     (if tx_full n then Inr (- E_TX_POOL_FULL, n)
      else if unat len > TX_PACKET_SIZE then Inr (- E_INVAL, n)
      else bindE (cur s) (\<lambda>c. bindE (env_dir c s) (\<lambda>d.
             bindE (pgdir_walk d data False s) (\<lambda>(r, _).
               case r of
                 None \<Rightarrow> Inl null_deref
               | Some (f, k) \<Rightarrow>
                   let n' = tx_put (ucast (PTE_ADDR (pmem s f k) + PGOFF data), len) n
                   in Inr (tx_result n', n')))))"

text \<open>The card: it sends the packet at the head unless the head has reached the tail.\<close>

definition hw_send :: "e1000 \<Rightarrow> (u64 \<times> u16) option \<times> e1000" where
  "hw_send n =
     (let h = unat (bar0 n E1000_TDH); d = tx_desc_pool n h in
      if bar0 n E1000_TDH = bar0 n E1000_TDT then (None, n)
      else (Some (d_addr d, d_length d),
            set_reg E1000_TDH (of_nat ((h + 1) mod TX_DESC_POOL_SIZE))
              (n\<lparr>tx_desc_pool := (tx_desc_pool n)(h := d\<lparr>d_status := d_status d OR E1000_TXD_STAT_DD\<rparr>)\<rparr>)))"

section \<open>Receiving\<close>

text \<open>The card: it stores a packet of the given length in the buffer at its head, if it owns one.\<close>

definition hw_receive :: "u16 \<Rightarrow> e1000 \<Rightarrow> e1000" where
  "hw_receive len n =
     (let h = unat (bar0 n E1000_RDH); d = rx_desc_pool n h in
      if bar0 n E1000_RDH = bar0 n E1000_RDT then n
      else set_reg E1000_RDH (of_nat ((h + 1) mod RX_DESC_POOL_SIZE))
             (n\<lparr>rx_desc_pool := (rx_desc_pool n)(h := d\<lparr>d_length := len,
                  d_status := d_status d OR E1000_RXD_STAT_DD OR E1000_RXD_STAT_EOP\<rparr>)\<rparr>))"

text \<open>The result, and the index stored through \<^verbatim>\<open>buf_idx\<close> when there is a packet.\<close>

definition e1000_receive :: "e1000 \<Rightarrow> int \<times> nat option" where
  "e1000_receive n =
     (let d = rx_desc_pool n (rec_head_index n) in
      if d_status d AND E1000_RXD_STAT_DD = 0 then (- E_RX_POOL_EMPTY, None)
      else (uint (d_length d), Some (rec_head_index n)))"

definition e1000_free_rx_buf :: "e1000 \<Rightarrow> e1000" where
  "e1000_free_rx_buf n =
     (let t = unat (bar0 n E1000_RDT); h = rec_head_index n; d = rx_desc_pool n h
      in (set_reg E1000_RDT (of_nat ((t + 1) mod RX_DESC_POOL_SIZE))
            (n\<lparr>rx_desc_pool := (rx_desc_pool n)(h := d\<lparr>d_status := d_status d AND
                 NOT (E1000_RXD_STAT_DD OR E1000_RXD_STAT_EOP)\<rparr>)\<rparr>))
         \<lparr>rec_head_index := (h + 1) mod RX_DESC_POOL_SIZE\<rparr>)"

section \<open>Interrupts\<close>

definition find_servers :: "kstate \<Rightarrow> e1000 \<Rightarrow> e1000" where
  "find_servers s n =
     (if out_ns n \<le> 0 \<or> in_ns n \<le> 0
      then n\<lparr>out_ns := env_find_by_type ENV_TYPE_OUT_NS s, in_ns := env_find_by_type ENV_TYPE_IN_NS s\<rparr>
      else n)"

definition wake :: "int \<Rightarrow> bool \<Rightarrow> kstate \<Rightarrow> kstate" where
  "wake e cause s = (if e > 0 \<and> cause then upd_env (nat e) (\<lambda>v. v\<lparr>env_status := ENV_RUNNABLE\<rparr>) s else s)"

text \<open>\<open>icr\<close> is what reading the interrupt cause register gives (the read clears it).\<close>

definition e1000_intr :: "u32 \<Rightarrow> kstate \<Rightarrow> e1000 \<Rightarrow> kstate \<times> e1000" where
  "e1000_intr icr s n =
     (let n1 = find_servers s n
      in (wake (in_ns n1) (icr AND E1000_ICR_RXT0 \<noteq> 0) (wake (out_ns n1) (icr AND E1000_ICR_TXDW \<noteq> 0) s), n1))"

definition e1000_attach ::
  "u32 \<Rightarrow> u32 \<Rightarrow> u32 \<Rightarrow> (nat \<Rightarrow> u16) \<Rightarrow> u32 \<Rightarrow> (nat \<Rightarrow> u32) \<Rightarrow> nat \<Rightarrow> e1000 \<Rightarrow> (int \<times> e1000) exec" where
  "e1000_attach status_reg tx_pool eecd word rx_pool bufs irq_line n =
     (if status_reg AND E1000_MAP_STATUS \<noteq> E1000_MAP_STATUS then Inl (Panic ''e1000_attach: memory map error'')
      else bindE (e1000_tx_init tx_pool n) (\<lambda>n1.
           bindE (e1000_rx_init eecd word rx_pool bufs n1) (\<lambda>n2.
             let n3 = set_reg E1000_IMS (E1000_ICR_TXDW OR E1000_ICR_RXT0) n2
             in if irq_line \<noteq> 11 then Inl (Panic ''assertion failed'') else Inr (0, n3))))"

section \<open>The rings as queues\<close>

definition dd :: "e1000_tx_desc \<Rightarrow> bool" where
  "dd d \<longleftrightarrow> bit (d_status d) 0"

definition tdh :: "e1000 \<Rightarrow> nat" where "tdh n = unat (bar0 n E1000_TDH)"
definition tdt :: "e1000 \<Rightarrow> nat" where "tdt n = unat (bar0 n E1000_TDT)"
definition rdh :: "e1000 \<Rightarrow> nat" where "rdh n = unat (bar0 n E1000_RDH)"
definition rdt :: "e1000 \<Rightarrow> nat" where "rdt n = unat (bar0 n E1000_RDT)"

definition tx_contents :: "e1000 \<Rightarrow> (u64 \<times> u16) list" where
  "tx_contents n = ring TX_DESC_POOL_SIZE (\<lambda>i. (d_addr (tx_desc_pool n i), d_length (tx_desc_pool n i))) (tdh n) (tdt n)"

definition in_ring :: "nat \<Rightarrow> nat \<Rightarrow> nat \<Rightarrow> nat \<Rightarrow> bool" where
  "in_ring N r w i \<longleftrightarrow> (if r \<le> w then r \<le> i \<and> i < w else r \<le> i \<or> i < w)"

text \<open>Exactly the descriptors that wait for the card have a clear done bit.\<close>

definition tx_valid :: "e1000 \<Rightarrow> bool" where
  "tx_valid n \<longleftrightarrow> tdh n < TX_DESC_POOL_SIZE \<and> tdt n < TX_DESC_POOL_SIZE \<and>
     (\<forall>i < TX_DESC_POOL_SIZE. dd (tx_desc_pool n i) \<longleftrightarrow> \<not> in_ring TX_DESC_POOL_SIZE (tdh n) (tdt n) i)"

definition rx_contents :: "e1000 \<Rightarrow> u16 list" where
  "rx_contents n = ring RX_DESC_POOL_SIZE (\<lambda>i. d_length (rx_desc_pool n i)) (rec_head_index n) (rdh n)"

text \<open>The driver keeps the tail one behind its own position, so the card never meets a full ring.\<close>

definition rx_valid :: "e1000 \<Rightarrow> bool" where
  "rx_valid n \<longleftrightarrow> rec_head_index n < RX_DESC_POOL_SIZE \<and> rdh n < RX_DESC_POOL_SIZE \<and>
     rdt n = (rec_head_index n + RX_DESC_POOL_SIZE - 1) mod RX_DESC_POOL_SIZE \<and>
     (\<forall>i < RX_DESC_POOL_SIZE. dd (rx_desc_pool n i) \<longleftrightarrow> in_ring RX_DESC_POOL_SIZE (rec_head_index n) (rdh n) i)"

definition rx_take :: "e1000 \<Rightarrow> u16 option \<times> e1000" where
  "rx_take n = (case e1000_receive n of
     (r, None) \<Rightarrow> (None, n)
   | (r, Some i) \<Rightarrow> (Some (word_of_int r), e1000_free_rx_buf n))"

lemma set_reg_simps [simp]:
  "bar0 (set_reg r v n) r' = (if r' = r then v else bar0 n r')"
  "tx_desc_pool (set_reg r v n) = tx_desc_pool n"
  "rx_desc_pool (set_reg r v n) = rx_desc_pool n"
  "e1000_mac (set_reg r v n) = e1000_mac n"
  "rec_head_index (set_reg r v n) = rec_head_index n"
  by (simp_all add: set_reg_def)

lemma reg_distinct [simp]:
  "E1000_TDT \<noteq> E1000_TDH" "E1000_TDH \<noteq> E1000_TDT" "E1000_RDT \<noteq> E1000_RDH" "E1000_RDH \<noteq> E1000_RDT"
  "E1000_RAL \<noteq> E1000_RAH"
  by (simp_all add: jos_const)

lemma dd_simps [simp]:
  "x AND E1000_TXD_STAT_DD = 0 \<longleftrightarrow> \<not> bit x 0"
  "x AND E1000_RXD_STAT_DD = 0 \<longleftrightarrow> \<not> bit x 0"
  "bit (x AND NOT E1000_TXD_STAT_DD) 0 \<longleftrightarrow> False"
  "bit (x OR E1000_TXD_STAT_DD) 0 \<longleftrightarrow> True"
  "bit (x OR E1000_RXD_STAT_DD OR E1000_RXD_STAT_EOP) 0 \<longleftrightarrow> True"
  "bit (x AND NOT (E1000_RXD_STAT_DD OR E1000_RXD_STAT_EOP)) 0 \<longleftrightarrow> False"
  "bit (x AND NOT E1000_RXD_STAT_DD AND NOT E1000_RXD_STAT_EOP) 0 \<longleftrightarrow> False"
  by (simp_all add: jos_const bit_0 even_or_iff even_and_iff and_one_eq flip: even_iff_mod_2_eq_zero)

lemma in_ring_put:
  "r < N \<Longrightarrow> w < N \<Longrightarrow> i < N \<Longrightarrow> ring_len N r w < N - 1 \<Longrightarrow>
     in_ring N r (ring_next N w) i \<longleftrightarrow> in_ring N r w i \<or> i = w"
  by (auto simp: in_ring_def ring_next_def ring_len_alt split: if_splits)

lemma in_ring_get:
  "r < N \<Longrightarrow> w < N \<Longrightarrow> i < N \<Longrightarrow> r \<noteq> w \<Longrightarrow>
     in_ring N (ring_next N r) w i \<longleftrightarrow> in_ring N r w i \<and> i \<noteq> r"
  by (auto simp: in_ring_def ring_next_def split: if_splits)

lemma not_in_ring_write: "\<not> in_ring N r w w"
  by (auto simp: in_ring_def)

lemma in_ring_read: "r < N \<Longrightarrow> w < N \<Longrightarrow> r \<noteq> w \<Longrightarrow> in_ring N r w r"
  by (auto simp: in_ring_def)

lemma of_nat_mod_small: "0 < N \<Longrightarrow> N \<le> 128 \<Longrightarrow> unat (of_nat (k mod N) :: u32) = k mod N"
proof -
  assume "0 < N" "N \<le> 128"
  then have "k mod N < 4294967296" using mod_less_divisor [of N k] by linarith
  then show ?thesis by (simp add: unat_of_nat)
qed

lemma TX_small: "0 < TX_DESC_POOL_SIZE" "TX_DESC_POOL_SIZE \<le> 128" "0 < RX_DESC_POOL_SIZE" "RX_DESC_POOL_SIZE \<le> 128"
  by (simp_all add: jos_const)

lemma tx_put_facts:
  assumes "tdt n < TX_DESC_POOL_SIZE"
  shows "tdt (tx_put (a, l) n) = ring_next TX_DESC_POOL_SIZE (tdt n)" "tdh (tx_put (a, l) n) = tdh n"
    "tx_desc_pool (tx_put (a, l) n) = (tx_desc_pool n)(tdt n := (tx_desc_pool n (tdt n))\<lparr>d_addr := a, d_length := l,
       d_status := d_status (tx_desc_pool n (tdt n)) AND NOT E1000_TXD_STAT_DD\<rparr>)"
  using assms of_nat_mod_small [OF TX_small(1,2)]
  by (simp_all add: tx_put_def Let_def tdt_def tdh_def ring_next_mod)

lemma hw_send_facts:
  assumes "tdh n < TX_DESC_POOL_SIZE" and "tdh n \<noteq> tdt n"
  defines "n' \<equiv> snd (hw_send n)"
  shows "fst (hw_send n) = Some (d_addr (tx_desc_pool n (tdh n)), d_length (tx_desc_pool n (tdh n)))"
    "tdt n' = tdt n" "tdh n' = ring_next TX_DESC_POOL_SIZE (tdh n)"
    "tx_desc_pool n' = (tx_desc_pool n)(tdh n := (tx_desc_pool n (tdh n))\<lparr>d_status :=
       d_status (tx_desc_pool n (tdh n)) OR E1000_TXD_STAT_DD\<rparr>)"
proof -
  have "bar0 n E1000_TDH \<noteq> bar0 n E1000_TDT" using assms(2) by (auto simp: tdh_def tdt_def)
  then show "fst (hw_send n) = Some (d_addr (tx_desc_pool n (tdh n)), d_length (tx_desc_pool n (tdh n)))"
    "tdt n' = tdt n" "tdh n' = ring_next TX_DESC_POOL_SIZE (tdh n)"
    "tx_desc_pool n' = (tx_desc_pool n)(tdh n := (tx_desc_pool n (tdh n))\<lparr>d_status :=
       d_status (tx_desc_pool n (tdh n)) OR E1000_TXD_STAT_DD\<rparr>)"
    using assms(1) of_nat_mod_small [OF TX_small(1,2)]
    by (simp_all add: n'_def hw_send_def Let_def tdt_def tdh_def ring_next_mod)
qed

lemma tx_contents_put:
  assumes "tx_valid n" and "length (tx_contents n) < TX_DESC_POOL_SIZE - 1"
  shows "tx_contents (tx_put p n) = tx_contents n @ [p]" "tx_valid (tx_put p n)"
proof -
  obtain a l where p: "p = (a, l)" by (cases p)
  have b: "tdh n < TX_DESC_POOL_SIZE" "tdt n < TX_DESC_POOL_SIZE"
    "ring_len TX_DESC_POOL_SIZE (tdh n) (tdt n) < TX_DESC_POOL_SIZE - 1"
    using assms by (simp_all add: tx_valid_def tx_contents_def)
  have "(\<lambda>i. (d_addr (tx_desc_pool (tx_put (a, l) n) i), d_length (tx_desc_pool (tx_put (a, l) n) i))) =
      (\<lambda>i. (d_addr (tx_desc_pool n i), d_length (tx_desc_pool n i)))(tdt n := (a, l))"
    by (auto simp: tx_put_facts [OF b(2)])
  then show "tx_contents (tx_put p n) = tx_contents n @ [p]"
    using b by (simp add: tx_contents_def p tx_put_facts(1,2) ring_put)
  show "tx_valid (tx_put p n)"
    using assms(1) b in_ring_put [OF b(1,2) _ b(3)]
    by (auto simp: tx_valid_def p tx_put_facts [OF b(2)] ring_next_less dd_def)
qed

lemma tx_contents_send:
  assumes "tx_valid n" and "tx_contents n = x # q"
  shows "fst (hw_send n) = Some x \<and> tx_contents (snd (hw_send n)) = q \<and> tx_valid (snd (hw_send n))"
proof -
  let ?buf = "\<lambda>n i. (d_addr (tx_desc_pool n i), d_length (tx_desc_pool n i))"
  have b: "tdh n < TX_DESC_POOL_SIZE" "tdt n < TX_DESC_POOL_SIZE" using assms(1) by (simp_all add: tx_valid_def)
  have ne: "tdh n \<noteq> tdt n"
    using assms(2) ring_empty_iff [OF b, of "?buf n"] by (simp add: tx_contents_def)
  note h = hw_send_facts [OF b(1) ne]
  have "?buf (snd (hw_send n)) = ?buf n" by (auto simp: h)
  then have "tx_contents n = fst (?buf n (tdh n), tx_contents (snd (hw_send n))) # tx_contents (snd (hw_send n))"
    using ring_get [OF b ne, of "?buf n"] by (simp add: tx_contents_def h)
  moreover have "tx_valid (snd (hw_send n))"
    using assms(1) b in_ring_get [OF b _ ne]
    by (auto simp: tx_valid_def h ring_next_less dd_def)
  ultimately show ?thesis using assms(2) h(1) by simp
qed

interpretation tx_ring: fifo tx_contents tx_valid "TX_DESC_POOL_SIZE - 1" tx_put hw_send
proof unfold_locales
  fix n assume "tx_valid n" "tx_contents n = []"
  then have "tdh n = tdt n" by (simp add: tx_contents_def tx_valid_def ring_empty_iff)
  then have "bar0 n E1000_TDH = bar0 n E1000_TDT" by (simp add: tdh_def tdt_def word_unat_eq_iff)
  then show "hw_send n = (None, n)" by (simp add: hw_send_def Let_def)
qed (simp_all add: tx_contents_put tx_contents_send)

lemma rx_room:
  assumes "rx_valid n"
  shows "rdh n = rdt n \<longleftrightarrow> length (rx_contents n) = RX_DESC_POOL_SIZE - 1"
  using assms by (auto simp: rx_valid_def rx_contents_def ring_len_alt mod_if)

lemma hw_receive_facts:
  assumes "rdh n < RX_DESC_POOL_SIZE" and "rdh n \<noteq> rdt n"
  shows "rdh (hw_receive l n) = ring_next RX_DESC_POOL_SIZE (rdh n)" "rdt (hw_receive l n) = rdt n"
    "rec_head_index (hw_receive l n) = rec_head_index n"
    "rx_desc_pool (hw_receive l n) = (rx_desc_pool n)(rdh n := (rx_desc_pool n (rdh n))\<lparr>d_length := l,
       d_status := d_status (rx_desc_pool n (rdh n)) OR E1000_RXD_STAT_DD OR E1000_RXD_STAT_EOP\<rparr>)"
proof -
  have "bar0 n E1000_RDH \<noteq> bar0 n E1000_RDT" using assms(2) by (auto simp: rdh_def rdt_def)
  then show "rdh (hw_receive l n) = ring_next RX_DESC_POOL_SIZE (rdh n)" "rdt (hw_receive l n) = rdt n"
    "rec_head_index (hw_receive l n) = rec_head_index n"
    "rx_desc_pool (hw_receive l n) = (rx_desc_pool n)(rdh n := (rx_desc_pool n (rdh n))\<lparr>d_length := l,
       d_status := d_status (rx_desc_pool n (rdh n)) OR E1000_RXD_STAT_DD OR E1000_RXD_STAT_EOP\<rparr>)"
    using assms(1) of_nat_mod_small [OF TX_small(3,4)]
    by (simp_all add: hw_receive_def Let_def rdt_def rdh_def ring_next_mod)
qed

lemma rx_contents_put:
  assumes "rx_valid n" and "length (rx_contents n) < RX_DESC_POOL_SIZE - 1"
  shows "rx_contents (hw_receive l n) = rx_contents n @ [l]" "rx_valid (hw_receive l n)"
proof -
  have b: "rec_head_index n < RX_DESC_POOL_SIZE" "rdh n < RX_DESC_POOL_SIZE"
    "ring_len RX_DESC_POOL_SIZE (rec_head_index n) (rdh n) < RX_DESC_POOL_SIZE - 1"
    using assms by (simp_all add: rx_valid_def rx_contents_def)
  have ne: "rdh n \<noteq> rdt n" using rx_room [OF assms(1)] assms(2) by simp
  note h = hw_receive_facts [OF b(2) ne, of l]
  have "(\<lambda>i. d_length (rx_desc_pool (hw_receive l n) i)) = (\<lambda>i. d_length (rx_desc_pool n i))(rdh n := l)"
    by (auto simp: h)
  then show "rx_contents (hw_receive l n) = rx_contents n @ [l]"
    using b by (simp add: rx_contents_def h(1,3) ring_put)
  show "rx_valid (hw_receive l n)"
    using assms(1) b in_ring_put [OF b(1,2) _ b(3)]
    by (auto simp: rx_valid_def h ring_next_less dd_def)
qed

lemma rx_take_facts:
  assumes "rx_valid n" and "rec_head_index n \<noteq> rdh n"
  shows "rx_take n = (Some (d_length (rx_desc_pool n (rec_head_index n))), e1000_free_rx_buf n)"
    "rec_head_index (e1000_free_rx_buf n) = ring_next RX_DESC_POOL_SIZE (rec_head_index n)"
    "rdh (e1000_free_rx_buf n) = rdh n"
    "rdt (e1000_free_rx_buf n) = rec_head_index n"
    "rx_desc_pool (e1000_free_rx_buf n) = (rx_desc_pool n)(rec_head_index n := (rx_desc_pool n (rec_head_index n))
       \<lparr>d_status := d_status (rx_desc_pool n (rec_head_index n)) AND NOT (E1000_RXD_STAT_DD OR E1000_RXD_STAT_EOP)\<rparr>)"
proof -
  have b: "rec_head_index n < RX_DESC_POOL_SIZE" "rdh n < RX_DESC_POOL_SIZE"
    "rdt n = (rec_head_index n + RX_DESC_POOL_SIZE - 1) mod RX_DESC_POOL_SIZE"
    using assms(1) by (simp_all add: rx_valid_def)
  have "bit (d_status (rx_desc_pool n (rec_head_index n))) 0"
    using assms(1) b in_ring_read [OF b(1,2) assms(2)] by (auto simp: rx_valid_def dd_def)
  then show "rx_take n = (Some (d_length (rx_desc_pool n (rec_head_index n))), e1000_free_rx_buf n)"
    by (simp add: rx_take_def e1000_receive_def Let_def del: bit_0)
  have "(rdt n + 1) mod RX_DESC_POOL_SIZE = rec_head_index n"
    using b(1) by (simp add: b(3) mod_simps) 
  then show "rdt (e1000_free_rx_buf n) = rec_head_index n"
    using of_nat_mod_small [OF TX_small(3,4), of "rdt n + 1"] by (simp add: e1000_free_rx_buf_def Let_def rdt_def)
  show "rec_head_index (e1000_free_rx_buf n) = ring_next RX_DESC_POOL_SIZE (rec_head_index n)"
    "rdh (e1000_free_rx_buf n) = rdh n"
    "rx_desc_pool (e1000_free_rx_buf n) = (rx_desc_pool n)(rec_head_index n := (rx_desc_pool n (rec_head_index n))
       \<lparr>d_status := d_status (rx_desc_pool n (rec_head_index n)) AND NOT (E1000_RXD_STAT_DD OR E1000_RXD_STAT_EOP)\<rparr>)"
    using b(1) by (simp_all add: e1000_free_rx_buf_def Let_def ring_next_mod rdh_def)
qed

lemma rx_contents_take:
  assumes "rx_valid n" and "rx_contents n = x # q"
  shows "fst (rx_take n) = Some x \<and> rx_contents (snd (rx_take n)) = q \<and> rx_valid (snd (rx_take n))"
proof -
  let ?buf = "\<lambda>n i. d_length (rx_desc_pool n i)"
  have b: "rec_head_index n < RX_DESC_POOL_SIZE" "rdh n < RX_DESC_POOL_SIZE" using assms(1) by (simp_all add: rx_valid_def)
  have ne: "rec_head_index n \<noteq> rdh n"
    using assms(2) ring_empty_iff [OF b, of "?buf n"] by (simp add: rx_contents_def)
  note h = rx_take_facts [OF assms(1) ne]
  have "?buf (e1000_free_rx_buf n) = ?buf n" by (auto simp: h)
  then have "rx_contents n = ?buf n (rec_head_index n) # rx_contents (e1000_free_rx_buf n)"
    using ring_get [OF b ne, of "?buf n"] by (simp add: rx_contents_def h)
  moreover have "rx_valid (e1000_free_rx_buf n)"
    using assms(1) b in_ring_get [OF b _ ne]
    by (auto simp: rx_valid_def h ring_next_less dd_def ring_next_def)
  ultimately show ?thesis using assms(2) h(1) by simp
qed

interpretation rx_ring: fifo rx_contents rx_valid "RX_DESC_POOL_SIZE - 1" hw_receive rx_take
proof unfold_locales
  fix n assume v: "rx_valid n" and "rx_contents n = []"
  then have "rec_head_index n = rdh n" by (simp add: rx_contents_def rx_valid_def ring_empty_iff)
  with v have "\<not> dd (rx_desc_pool n (rec_head_index n))" by (simp add: rx_valid_def not_in_ring_write)
  then show "rx_take n = (None, n)" by (simp add: rx_take_def e1000_receive_def Let_def dd_def del: bit_0)
qed (simp_all add: rx_contents_put rx_contents_take)

section \<open>Properties\<close>

lemma get_byte_join:
  fixes m0 m1 m2 m3 :: u8
  defines "w \<equiv> ucast m0 OR push_bit 8 (ucast m1) OR push_bit 16 (ucast m2) OR push_bit 24 (ucast m3)"
  shows "get_byte 0 w = m0" "get_byte 1 w = m1" "get_byte 2 w = m2" "get_byte 3 w = m3"
  by (rule bit_word_eqI; auto simp: get_byte_def w_def bit_simps dest: bit_imp_le_length)+

lemma foldl_two: "foldl f a [4..<6] = f (f a 4) 5"
  by (simp add: upt_rec_numeral upt_rec)

lemma foldl_four: "foldl f a [0..<4] = f (f (f (f a 0) 1) 2) (3 :: nat)"
  by (simp add: upt_rec_numeral upt_rec numeral_eq_Suc)

definition demo_nic :: e1000 where
  "demo_nic = \<lparr>bar0 = (\<lambda>_. 0)(E1000_RDT := 127), tx_desc_pool = (\<lambda>_. zero_desc\<lparr>d_status := 1\<rparr>),
     rx_desc_pool = (\<lambda>_. zero_desc), e1000_mac = [1, 2, 3, 4, 5, 6], rec_head_index = 0, out_ns = 0, in_ns = 0\<rparr>"


lemma demo_nic_ok: "tx_valid demo_nic" "tx_contents demo_nic = []" "rx_valid demo_nic" "rx_contents demo_nic = []"
  by (simp_all add: demo_nic_def tx_valid_def tx_contents_def rx_valid_def rx_contents_def tdh_def tdt_def
      rdh_def rdt_def in_ring_def dd_def zero_desc_def ring_def ring_len_def jos_const)


text \<open>
  C28: The 64th packet under way wedges the transmit ring: the tail catches up with the head, the
  card takes the ring for empty and sends nothing any more, and every later transmission is
  refused because the descriptor at the tail is never finished.
\<close>

theorem e1000_tx_wedge:
  assumes "tx_valid n" and "length (tx_contents n) = TX_DESC_POOL_SIZE - 1"
  shows "hw_send (tx_put p n) = (None, tx_put p n) \<and>
         e1000_transmit data len s (tx_put p n) = Inr (- E_TX_POOL_FULL, tx_put p n)"
proof -
  obtain a l where p: "p = (a, l)" by (cases p)
  have b: "tdh n < TX_DESC_POOL_SIZE" "tdt n < TX_DESC_POOL_SIZE"
    "ring_len TX_DESC_POOL_SIZE (tdh n) (tdt n) = TX_DESC_POOL_SIZE - 1"
    using assms by (simp_all add: tx_valid_def tx_contents_def)
  have nx: "ring_next TX_DESC_POOL_SIZE (tdt n) = tdh n"
    using b by (auto simp: ring_len_alt ring_next_def split: if_splits)
  have t: "tdt (tx_put p n) = tdh n" "tdh (tx_put p n) = tdh n" using tx_put_facts(1,2) [OF b(2)] nx by (simp_all add: p)
  then have "hw_send (tx_put p n) = (None, tx_put p n)"
    by (simp add: hw_send_def Let_def tdt_def tdh_def word_unat_eq_iff)
  moreover have "tdh n \<noteq> tdt n" using b by (auto simp: ring_len_alt jos_const)
  then have "\<not> dd (tx_desc_pool (tx_put p n) (tdh n))"
    using assms(1) b in_ring_read [OF b(1,2)] by (auto simp: tx_valid_def p tx_put_facts(3) [OF b(2)])
  then have "tx_full (tx_put p n)" using t(1) by (simp add: tx_full_def dd_def tdt_def del: bit_0)
  ultimately show ?thesis by (simp add: e1000_transmit_def)
qed

theorem e1000_tx_wedge_witness:
  "\<forall>s. e1000_transmit 0x800000 60 s (tx_put (0x1000, 60)
     (demo_nic\<lparr>bar0 := (\<lambda>_. 0)(E1000_TDT := 63), tx_desc_pool := (\<lambda>i. zero_desc\<lparr>d_status := (if i = 63 then 1 else 0)\<rparr>)\<rparr>)) =
   Inr (- E_TX_POOL_FULL, tx_put (0x1000, 60)
     (demo_nic\<lparr>bar0 := (\<lambda>_. 0)(E1000_TDT := 63), tx_desc_pool := (\<lambda>i. zero_desc\<lparr>d_status := (if i = 63 then 1 else 0)\<rparr>)\<rparr>))"
proof -
  let ?n = "demo_nic\<lparr>bar0 := (\<lambda>_. 0)(E1000_TDT := 63), tx_desc_pool := (\<lambda>i. zero_desc\<lparr>d_status := (if i = 63 then 1 else 0)\<rparr>)\<rparr>"
  have "tx_valid ?n" "length (tx_contents ?n) = TX_DESC_POOL_SIZE - 1"
    by (simp_all add: tx_valid_def tx_contents_def tdh_def tdt_def in_ring_def dd_def ring_len_def jos_const)
  then show ?thesis by (intro allI e1000_tx_wedge [THEN conjunct2])
qed



text \<open>
  The receive address registers hold the hardware address that was read from the EEPROM: byte
  \<open>i\<close> of the low register is byte \<open>i\<close> of the address, byte \<open>i\<close> of the high one is byte \<open>4 + i\<close>, and
  the valid bit is set.
\<close>

theorem e1000_config_mac_roundtrip:
  assumes "e1000_mac n = [m0, m1, m2, m3, m4, m5]"
  shows "map (\<lambda>i. get_byte i (bar0 (e1000_config_mac n) E1000_RAL)) [0, 1, 2, 3] @
         map (\<lambda>i. get_byte i (bar0 (e1000_config_mac n) E1000_RAH)) [0, 1] = e1000_mac n \<and>
         bar0 (e1000_config_mac n) E1000_RAH AND E1000_RAH_AV \<noteq> 0"
proof -
  let ?l = "bar0 (e1000_config_mac n) E1000_RAL" and ?h = "bar0 (e1000_config_mac n) E1000_RAH"
  have l: "?l = ucast m0 OR push_bit 8 (ucast m1) OR push_bit 16 (ucast m2) OR push_bit 24 (ucast m3)"
    by (simp add: e1000_config_mac_def Let_def foldl_four assms or.assoc)
  have h0: "?h = (ucast m4 OR push_bit 8 (ucast m5)) OR E1000_RAH_AV"
    by (simp add: e1000_config_mac_def Let_def foldl_two assms push_bit_eq_mult)
  have "E1000_RAH_AV = push_bit 16 (ucast (0 :: u8)) OR push_bit 24 (ucast (0x80 :: u8))"
    by (simp add: E1000_RAH_AV_def push_bit_eq_mult)
  then have h: "?h = ucast m4 OR push_bit 8 (ucast m5) OR push_bit 16 (ucast (0 :: u8)) OR push_bit 24 (ucast (0x80 :: u8))"
    by (simp only: h0 or.assoc)
  have "?h AND E1000_RAH_AV = E1000_RAH_AV" unfolding h0 by (rule bit_word_eqI) (auto simp: bit_and_iff bit_or_iff)
  then have "?h AND E1000_RAH_AV \<noteq> 0" by (simp add: E1000_RAH_AV_def)
  with get_byte_join [of m0 m1 m2 m3, folded l] get_byte_join [of m4 m5 0 "0x80", folded h]
  show ?thesis by (simp add: assms)
qed

theorem e1000_config_mac_roundtrip_witness:
  "get_byte 1 (bar0 (e1000_config_mac demo_nic) E1000_RAH) = 6"
  using e1000_config_mac_roundtrip [of demo_nic 1 2 3 4 5 6] by (simp add: demo_nic_def)

end
