(* ===== verification/StringLib.thy ===== *)
theory StringLib
  imports Prelude
begin

text \<open>
  The string routines of \<^verbatim>\<open>lib/string.c\<close>, on a byte memory addressed by 32-bit pointers, so
  that overlapping arguments and writes outside a buffer show. Loops that run until they meet
  a zero byte are partial functions (\<open>None\<close> is a loop that never ends); loops with a size
  argument recurse on it. \<^verbatim>\<open>rep stosl\<close>, \<^verbatim>\<open>rep movsl\<close> and their byte variants are the
  sequences of stores the processor makes for them.
\<close>

type_synonym mem = "u32 \<Rightarrow> u8"

section \<open>Length and copying\<close>

partial_function (option) strlen_loop :: "mem \<Rightarrow> u32 \<Rightarrow> nat \<Rightarrow> nat option" where
  "strlen_loop m s n = (if m s \<noteq> 0 then strlen_loop m (s + 1) (n + 1) else Some n)"

definition strlen :: "mem \<Rightarrow> u32 \<Rightarrow> nat option" where
  "strlen m s = strlen_loop m s 0"

primrec strnlen :: "nat \<Rightarrow> mem \<Rightarrow> u32 \<Rightarrow> nat" where
  "strnlen 0 m s = 0"
| "strnlen (Suc n) m s = (if m s \<noteq> 0 then strnlen n m (s + 1) + 1 else 0)"

partial_function (option) strcpy :: "u32 \<Rightarrow> u32 \<Rightarrow> mem \<Rightarrow> mem option" where
  "strcpy dst src m =
     (let m1 = m(dst := m src) in if m src \<noteq> 0 then strcpy (dst + 1) (src + 1) m1 else Some m1)"

definition strcat :: "u32 \<Rightarrow> u32 \<Rightarrow> mem \<Rightarrow> mem option" where
  "strcat dst src m = (case strlen m dst of None \<Rightarrow> None | Some len \<Rightarrow> strcpy (dst + of_nat len) src m)"

primrec strncpy :: "nat \<Rightarrow> u32 \<Rightarrow> u32 \<Rightarrow> mem \<Rightarrow> mem" where
  "strncpy 0 dst src m = m"
| "strncpy (Suc n) dst src m =
     (let m1 = m(dst := m src) in strncpy n (dst + 1) (if m1 src \<noteq> 0 then src + 1 else src) m1)"

text \<open>The loop of \<^verbatim>\<open>strlcpy\<close> runs while \<^verbatim>\<open>--size > 0\<close>; the result is where \<^verbatim>\<open>dst\<close> stops.\<close>

primrec strlcpy_loop :: "nat \<Rightarrow> u32 \<Rightarrow> u32 \<Rightarrow> mem \<Rightarrow> u32 \<times> mem" where
  "strlcpy_loop 0 dst src m = (dst, m)"
| "strlcpy_loop (Suc k) dst src m =
     (if m src \<noteq> 0 then strlcpy_loop k (dst + 1) (src + 1) (m(dst := m src)) else (dst, m))"

definition strlcpy :: "u32 \<Rightarrow> u32 \<Rightarrow> nat \<Rightarrow> mem \<Rightarrow> nat \<times> mem" where
  "strlcpy dst src n m =
     (if n > 0
      then (let (d, m1) = strlcpy_loop (n - 1) dst src m in (unat (d - dst), m1(d := 0)))
      else (0, m))"

section \<open>Comparing and searching\<close>

partial_function (option) strcmp :: "mem \<Rightarrow> u32 \<Rightarrow> u32 \<Rightarrow> int option" where
  "strcmp m p q =
     (if m p \<noteq> 0 \<and> m p = m q then strcmp m (p + 1) (q + 1) else Some (uint (m p) - uint (m q)))"

primrec strncmp :: "nat \<Rightarrow> mem \<Rightarrow> u32 \<Rightarrow> u32 \<Rightarrow> int" where
  "strncmp 0 m p q = 0"
| "strncmp (Suc n) m p q =
     (if m p \<noteq> 0 \<and> m p = m q then strncmp n m (p + 1) (q + 1) else uint (m p) - uint (m q))"

text \<open>The null pointer that \<^verbatim>\<open>strchr\<close> gives for a missing character is \<open>Some 0\<close>.\<close>

partial_function (option) strchr :: "mem \<Rightarrow> u32 \<Rightarrow> u8 \<Rightarrow> u32 option" where
  "strchr m s c = (if m s \<noteq> 0 then (if m s = c then Some s else strchr m (s + 1) c) else Some 0)"

partial_function (option) strfind :: "mem \<Rightarrow> u32 \<Rightarrow> u8 \<Rightarrow> u32 option" where
  "strfind m s c = (if m s \<noteq> 0 then (if m s = c then Some s else strfind m (s + 1) c) else Some s)"

primrec memcmp :: "nat \<Rightarrow> mem \<Rightarrow> u32 \<Rightarrow> u32 \<Rightarrow> int" where
  "memcmp 0 m s1 s2 = 0"
| "memcmp (Suc n) m s1 s2 =
     (if m s1 \<noteq> m s2 then uint (m s1) - uint (m s2) else memcmp n m (s1 + 1) (s2 + 1))"

primrec memfind :: "nat \<Rightarrow> mem \<Rightarrow> u32 \<Rightarrow> u8 \<Rightarrow> u32" where
  "memfind 0 m s c = s"
| "memfind (Suc n) m s c = (if m s = c then s else memfind n m (s + 1) c)"

section \<open>Filling and moving\<close>

primrec stosb :: "nat \<Rightarrow> u8 \<Rightarrow> u32 \<Rightarrow> mem \<Rightarrow> mem" where
  "stosb 0 c d m = m"
| "stosb (Suc n) c d m = stosb n c (d + 1) (m(d := c))"

definition store4 :: "u32 \<Rightarrow> u32 \<Rightarrow> mem \<Rightarrow> mem" where
  "store4 w d m = m(d := ucast w, d + 1 := ucast (drop_bit 8 w), d + 2 := ucast (drop_bit 16 w),
                    d + 3 := ucast (drop_bit 24 w))"

primrec stosl :: "nat \<Rightarrow> u32 \<Rightarrow> u32 \<Rightarrow> mem \<Rightarrow> mem" where
  "stosl 0 w d m = m"
| "stosl (Suc n) w d m = stosl n w (d + 4) (store4 w d m)"

definition memset :: "u32 \<Rightarrow> u32 \<Rightarrow> nat \<Rightarrow> mem \<Rightarrow> mem" where
  "memset v c n m =
     (if n = 0 then m
      else if v mod 4 = 0 \<and> n mod 4 = 0 then
        (let c1 = c AND 0xFF; c4 = push_bit 24 c1 OR push_bit 16 c1 OR push_bit 8 c1 OR c1
         in stosl (n div 4) c4 v m)
      else stosb n (ucast c) v m)"

text \<open>The string moves, with the direction flag clear (\<open>up\<close>) and set (\<open>down\<close>).\<close>

primrec movsb_up :: "nat \<Rightarrow> u32 \<Rightarrow> u32 \<Rightarrow> mem \<Rightarrow> mem" where
  "movsb_up 0 d s m = m"
| "movsb_up (Suc n) d s m = movsb_up n (d + 1) (s + 1) (m(d := m s))"

primrec movsb_down :: "nat \<Rightarrow> u32 \<Rightarrow> u32 \<Rightarrow> mem \<Rightarrow> mem" where
  "movsb_down 0 d s m = m"
| "movsb_down (Suc n) d s m = movsb_down n (d - 1) (s - 1) (m(d := m s))"

definition move4 :: "u32 \<Rightarrow> u32 \<Rightarrow> mem \<Rightarrow> mem" where
  "move4 d s m = m(d := m s, d + 1 := m (s + 1), d + 2 := m (s + 2), d + 3 := m (s + 3))"

primrec movsl_up :: "nat \<Rightarrow> u32 \<Rightarrow> u32 \<Rightarrow> mem \<Rightarrow> mem" where
  "movsl_up 0 d s m = m"
| "movsl_up (Suc n) d s m = movsl_up n (d + 4) (s + 4) (move4 d s m)"

primrec movsl_down :: "nat \<Rightarrow> u32 \<Rightarrow> u32 \<Rightarrow> mem \<Rightarrow> mem" where
  "movsl_down 0 d s m = m"
| "movsl_down (Suc n) d s m = movsl_down n (d - 4) (s - 4) (move4 d s m)"

definition memmove :: "u32 \<Rightarrow> u32 \<Rightarrow> nat \<Rightarrow> mem \<Rightarrow> mem" where
  "memmove dst src n m =
     (let s = src; d = dst; k = of_nat n in
      if s < d \<and> s + k > d then
        (if (s + k) mod 4 = 0 \<and> (d + k) mod 4 = 0 \<and> n mod 4 = 0
         then movsl_down (n div 4) (d + k - 4) (s + k - 4) m
         else movsb_down n (d + k - 1) (s + k - 1) m)
      else
        (if s mod 4 = 0 \<and> d mod 4 = 0 \<and> n mod 4 = 0
         then movsl_up (n div 4) d s m
         else movsb_up n d s m))"

definition memcpy :: "u32 \<Rightarrow> u32 \<Rightarrow> nat \<Rightarrow> mem \<Rightarrow> mem" where
  "memcpy dst src n m = memmove dst src n m"

section \<open>Numbers\<close>

partial_function (option) skip_blanks :: "mem \<Rightarrow> u32 \<Rightarrow> u32 option" where
  "skip_blanks m s = (if m s = 32 \<or> m s = 9 then skip_blanks m (s + 1) else Some s)"

definition strtol_digit :: "u8 \<Rightarrow> int option" where
  "strtol_digit b =
     (if 48 \<le> b \<and> b \<le> 57 then Some (uint b - 48)
      else if 97 \<le> b \<and> b \<le> 122 then Some (uint b - 97 + 10)
      else if 65 \<le> b \<and> b \<le> 90 then Some (uint b - 65 + 10)
      else None)"

text \<open>The \<^verbatim>\<open>long\<close> that accumulates the value has 32 bits and wraps.\<close>

partial_function (option) strtol_loop :: "mem \<Rightarrow> u32 \<Rightarrow> int \<Rightarrow> u32 \<Rightarrow> (u32 \<times> u32) option" where
  "strtol_loop m s b val =
     (case strtol_digit (m s) of
        None \<Rightarrow> Some (s, val)
      | Some dig \<Rightarrow>
          if dig \<ge> b then Some (s, val)
          else strtol_loop m (s + 1) b (val * word_of_int b + word_of_int dig))"

text \<open>The value, and the position stored through \<^verbatim>\<open>endptr\<close>.\<close>

definition strtol :: "mem \<Rightarrow> u32 \<Rightarrow> int \<Rightarrow> (int \<times> u32) option" where
  "strtol m s0 base0 =
     (case skip_blanks m s0 of
        None \<Rightarrow> None
      | Some s1 \<Rightarrow>
          let s2 = (if m s1 = 43 then s1 + 1 else if m s1 = 45 then s1 + 1 else s1);
              neg = (m s1 = 45);
              (s3, base) =
                (if (base0 = 0 \<or> base0 = 16) \<and> m s2 = 48 \<and> m (s2 + 1) = 120 then (s2 + 2, 16)
                 else if base0 = 0 \<and> m s2 = 48 then (s2 + 1, 8)
                 else if base0 = 0 then (s2, 10)
                 else (s2, base0))
          in case strtol_loop m s3 base 0 of
               None \<Rightarrow> None
             | Some (s4, val) \<Rightarrow> Some (if neg then sint (- val) else sint val, s4))"

text \<open>C's division truncates; on the non-negative numbers that enter the loop it is \<open>div\<close>.\<close>

function digit_loop :: "int \<Rightarrow> nat \<Rightarrow> nat" where
  "digit_loop num count = (if num > 0 then digit_loop (num div 10) (count + 1) else count)"
  by pat_completeness auto
termination
  by (relation "measure (\<lambda>(num, _). nat num)") auto

definition digit_count :: "int \<Rightarrow> nat" where
  "digit_count num = (if num = 0 then 1 else digit_loop num 0)"

definition c_div10 :: "int \<Rightarrow> int" where
  "c_div10 n = (if n \<ge> 0 then n div 10 else - ((- n) div 10))"

definition c_mod10 :: "int \<Rightarrow> int" where
  "c_mod10 n = n - 10 * c_div10 n"

function itoa_loop :: "int \<Rightarrow> int \<Rightarrow> u32 \<Rightarrow> mem \<Rightarrow> mem" where
  "itoa_loop num index number m =
     (if num \<noteq> 0
      then itoa_loop (c_div10 num) (index - 1) number
             (m(number + word_of_int index := word_of_int (c_mod10 num + 48)))
      else m)"
  by pat_completeness auto
termination
proof (relation "measure (\<lambda>(num, _). nat \<bar>num\<bar>)")
  fix num :: int assume "num \<noteq> 0"
  then have "\<bar>c_div10 num\<bar> < \<bar>num\<bar>" by (auto simp: c_div10_def)
  then show "((c_div10 num, i, p, m'), num, j, p', m) \<in> measure (\<lambda>(num, _). nat \<bar>num\<bar>)"
    for i j :: int and p p' :: u32 and m m' :: mem
    by simp
qed simp

definition itoa :: "int \<Rightarrow> u32 \<Rightarrow> mem \<Rightarrow> mem" where
  "itoa num number m =
     (let dgcount = digit_count num; index = int dgcount - 1 in
      if num = 0 \<and> dgcount = 1 then m(number := 48, number + 1 := 0)
      else (itoa_loop num index number m)(number + of_nat dgcount := 0))"

section \<open>Copying, one byte at a time\<close>

lemma of_nat_inj: "i < 2 ^ 32 \<Longrightarrow> j < 2 ^ 32 \<Longrightarrow> (of_nat i :: u32) = of_nat j \<longleftrightarrow> i = j"
  unfolding word_unat_eq_iff unat_of_nat by simp

lemma movsb_up_spec:
  assumes "n \<le> 2 ^ 32" and "\<And>i j. i < j \<Longrightarrow> j < n \<Longrightarrow> d + of_nat i \<noteq> s + of_nat j"
  shows "(\<forall>i < n. movsb_up n d s m (d + of_nat i) = m (s + of_nat i)) \<and>
         (\<forall>a. (\<forall>i < n. a \<noteq> d + of_nat i) \<longrightarrow> movsb_up n d s m a = m a)"
  using assms
proof (induction n arbitrary: d s m)
  case 0
  then show ?case by simp
next
  case (Suc n)
  define m1 where "m1 = m(d := m s)"
  have m1: "m1 d = m s" "\<And>a. a \<noteq> d \<Longrightarrow> m1 a = m a" by (simp_all add: m1_def)
  have ne: "d + 1 + of_nat i \<noteq> s + 1 + of_nat j" if "i < j" "j < n" for i j
    using Suc.prems(2) [of "Suc i" "Suc j"] that by (simp add: ac_simps)
  have "n \<le> 2 ^ 32" using Suc.prems(1) by simp
  note IH = Suc.IH [OF this ne, of m1, THEN conjunct1, rule_format]
    Suc.IH [OF this ne, of m1, THEN conjunct2, rule_format]
  have d0: "d \<noteq> d + 1 + of_nat i" if "i < n" for i
    using of_nat_inj [of 0 "Suc i"] that Suc.prems(1) by (auto simp: add.assoc)
  have s0: "s + of_nat (Suc i) \<noteq> d" if "i < n" for i
    using Suc.prems(2) [of 0 "Suc i"] that by auto
  have r: "movsb_up (Suc n) d s m = movsb_up n (d + 1) (s + 1) m1" by (simp add: m1_def)
  show ?case
  proof (intro conjI allI impI)
    fix i assume "i < Suc n"
    show "movsb_up (Suc n) d s m (d + of_nat i) = m (s + of_nat i)"
    proof (cases i)
      case 0
      then show ?thesis using IH(2) [of d] d0 by (simp add: r m1 del: movsb_up.simps)
    next
      case (Suc k)
      then have "k < n" using \<open>i < Suc n\<close> by simp
      then show ?thesis using IH(1) [of k] m1(2) [OF s0 [of k]] by (simp add: r Suc ac_simps del: movsb_up.simps)
    qed
  next
    fix a assume a: "\<forall>i < Suc n. a \<noteq> d + of_nat i"
    then have "\<forall>i < n. a \<noteq> d + 1 + of_nat i" by (metis Suc_less_eq add.assoc of_nat_Suc)
    moreover have "a \<noteq> d" using a [rule_format, of 0] by simp
    ultimately show "movsb_up (Suc n) d s m a = m a" using IH(2) [of a] by (simp add: r m1 del: movsb_up.simps)
  qed
qed

lemma movsb_down_spec:
  assumes "n \<le> 2 ^ 32" and "\<And>i j. i < j \<Longrightarrow> j < n \<Longrightarrow> d - of_nat i \<noteq> s - of_nat j"
  shows "(\<forall>i < n. movsb_down n d s m (d - of_nat i) = m (s - of_nat i)) \<and>
         (\<forall>a. (\<forall>i < n. a \<noteq> d - of_nat i) \<longrightarrow> movsb_down n d s m a = m a)"
  using assms
proof (induction n arbitrary: d s m)
  case 0
  then show ?case by simp
next
  case (Suc n)
  define m1 where "m1 = m(d := m s)"
  have m1: "m1 d = m s" "\<And>a. a \<noteq> d \<Longrightarrow> m1 a = m a" by (simp_all add: m1_def)
  have ne: "d - 1 - of_nat i \<noteq> s - 1 - of_nat j" if "i < j" "j < n" for i j
    using Suc.prems(2) [of "Suc i" "Suc j"] that by (simp add: diff_diff_eq)
  have "n \<le> 2 ^ 32" using Suc.prems(1) by simp
  note IH = Suc.IH [OF this ne, of m1, THEN conjunct1, rule_format]
    Suc.IH [OF this ne, of m1, THEN conjunct2, rule_format]
  have d0: "d \<noteq> d - 1 - of_nat i" if "i < n" for i
    using of_nat_inj [of 0 "Suc i"] that Suc.prems(1) by (auto simp: diff_diff_eq neg_eq_iff_add_eq_0)
  have s0: "s - of_nat (Suc i) \<noteq> d" if "i < n" for i
    using Suc.prems(2) [of 0 "Suc i"] that by auto
  have r: "movsb_down (Suc n) d s m = movsb_down n (d - 1) (s - 1) m1" by (simp add: m1_def)
  show ?case
  proof (intro conjI allI impI)
    fix i assume "i < Suc n"
    show "movsb_down (Suc n) d s m (d - of_nat i) = m (s - of_nat i)"
    proof (cases i)
      case 0
      then show ?thesis using IH(2) [of d] d0 by (simp add: r m1 del: movsb_down.simps)
    next
      case (Suc k)
      then have "k < n" using \<open>i < Suc n\<close> by simp
      then show ?thesis using IH(1) [of k] m1(2) [OF s0 [of k]] by (simp add: r Suc diff_diff_eq del: movsb_down.simps)
    qed
  next
    fix a assume a: "\<forall>i < Suc n. a \<noteq> d - of_nat i"
    then have "\<forall>i < n. a \<noteq> d - 1 - of_nat i" by (metis Suc_less_eq diff_diff_eq of_nat_Suc)
    moreover have "a \<noteq> d" using a [rule_format, of 0] by simp
    ultimately show "movsb_down (Suc n) d s m a = m a" using IH(2) [of a] by (simp add: r m1 del: movsb_down.simps)
  qed
qed

section \<open>Copying, one word at a time\<close>

lemma movsl_up_eq:
  "d - s \<notin> {1, 2, 3} \<Longrightarrow> movsl_up n d s m = movsb_up (4 * n) d s m"
proof (induction n arbitrary: d s m)
  case 0
  then show ?case by simp
next
  case (Suc n)
  have "s + 1 \<noteq> d" "s + 2 \<noteq> d" "s + 2 \<noteq> d + 1" "s + 3 \<noteq> d" "s + 3 \<noteq> d + 1" "s + 3 \<noteq> d + 2"
    using Suc.prems by (auto simp: algebra_simps)
  then have "movsb_up (4 * Suc n) d s m = movsb_up (4 * n) (d + 4) (s + 4) (move4 d s m)"
    by (simp add: move4_def numeral_eq_Suc add.assoc)
  with Suc.IH [of "d + 4" "s + 4" "move4 d s m"] Suc.prems show ?case by simp
qed

lemma movsl_down_eq:
  "s - d \<notin> {1, 2, 3} \<Longrightarrow> movsl_down n d s m = movsb_down (4 * n) (d + 3) (s + 3) m"
proof (induction n arbitrary: d s m)
  case 0
  then show ?case by simp
next
  case (Suc n)
  have "s + 2 \<noteq> d + 3" "s + 1 \<noteq> d + 3" "s + 1 \<noteq> d + 2" "s \<noteq> d + 3" "s \<noteq> d + 2" "s \<noteq> d + 1"
    using Suc.prems by (auto simp: algebra_simps)
  then have "movsb_down (4 * Suc n) (d + 3) (s + 3) m = movsb_down (4 * n) (d - 1) (s - 1) (move4 d s m)"
  proof -
    assume ne: "s + 2 \<noteq> d + 3" "s + 1 \<noteq> d + 3" "s + 1 \<noteq> d + 2" "s \<noteq> d + 3" "s \<noteq> d + 2" "s \<noteq> d + 1"
    have e: "d + 3 - 1 = d + 2" "d + 2 - 1 = d + 1" "d + 1 - 1 = d"
      "s + 3 - 1 = s + 2" "s + 2 - 1 = s + 1" "s + 1 - 1 = s" by simp_all
    have four: "4 * Suc n = Suc (Suc (Suc (Suc (4 * n))))" by simp
    have "movsb_down (4 * Suc n) (d + 3) (s + 3) m = movsb_down (4 * n) (d - 1) (s - 1)
        (m(d + 3 := m (s + 3), d + 2 := m (s + 2), d + 1 := m (s + 1), d := m s))"
      unfolding four movsb_down.simps e using ne by simp
    also have "m(d + 3 := m (s + 3), d + 2 := m (s + 2), d + 1 := m (s + 1), d := m s) = move4 d s m"
      by (auto simp: move4_def fun_eq_iff)
    finally show ?thesis .
  qed
  with Suc.IH [of "s - 4" "d - 4" "move4 d s m"] Suc.prems show ?case by simp
qed

section \<open>Moving and filling are exact\<close>

definition in_range :: "u32 \<Rightarrow> nat \<Rightarrow> u32 \<Rightarrow> bool" where
  "in_range d n a \<longleftrightarrow> unat d \<le> unat a \<and> unat a < unat d + n"

lemma unat_off: "unat (x :: u32) + n \<le> 2 ^ 32 \<Longrightarrow> k < n \<Longrightarrow> unat (x + of_nat k) = unat x + k"
  by (simp add: unat_word_ariths unat_of_nat)

lemma in_range_offset:
  assumes "unat d + n \<le> 2 ^ 32"
  shows "in_range d n a \<longleftrightarrow> (\<exists>i < n. a = d + of_nat i)"
proof
  assume "in_range d n a"
  then have "a = d + of_nat (unat a - unat d)" "unat a - unat d < n"
    by (auto simp: in_range_def of_nat_diff)
  then show "\<exists>i < n. a = d + of_nat i" by blast
next
  assume "\<exists>i < n. a = d + of_nat i"
  then obtain i where i: "i < n" "a = d + of_nat i" by blast
  then have "unat a = unat d + i" using unat_off [OF assms] by simp
  with i show "in_range d n a" by (simp add: in_range_def)
qed

text \<open>The result of a simultaneous copy.\<close>

definition copied :: "u32 \<Rightarrow> u32 \<Rightarrow> nat \<Rightarrow> mem \<Rightarrow> mem" where
  "copied dst src n m = (\<lambda>a. if in_range dst n a then m (src + (a - dst)) else m a)"

lemma copied_eqI:
  assumes "unat d + n \<le> 2 ^ 32" and "\<And>i. i < n \<Longrightarrow> f (d + of_nat i) = m (s + of_nat i)"
    and "\<And>a. (\<forall>i < n. a \<noteq> d + of_nat i) \<Longrightarrow> f a = m a"
  shows "f = copied d s n m"
proof
  fix a
  show "f a = copied d s n m a"
  proof (cases "in_range d n a")
    case True
    then obtain i where "i < n" "a = d + of_nat i" using in_range_offset [OF assms(1)] by blast
    with assms(2) True show ?thesis by (simp add: copied_def)
  next
    case False
    with assms(3) [of a] in_range_offset [OF assms(1)] show ?thesis by (auto simp: copied_def)
  qed
qed

lemma movsb_up_copied:
  assumes "unat d + n \<le> 2 ^ 32" and "unat s + n \<le> 2 ^ 32" and "d \<le> s \<or> unat s + n \<le> unat d"
  shows "movsb_up n d s m = copied d s n m"
proof -
  have "n \<le> 2 ^ 32" using assms(1) by linarith
  moreover have "d + of_nat i \<noteq> s + of_nat j" if "i < j" "j < n" for i j
  proof -
    have "unat (d + of_nat i) = unat d + i" "unat (s + of_nat j) = unat s + j"
      using that unat_off [OF assms(1)] unat_off [OF assms(2)] by simp_all
    moreover have "unat d + i \<noteq> unat s + j" using that assms(3) unfolding word_le_nat_alt by linarith
    ultimately show ?thesis by metis
  qed
  ultimately have sp: "\<And>i. i < n \<Longrightarrow> movsb_up n d s m (d + of_nat i) = m (s + of_nat i)"
    "\<And>a. (\<forall>i < n. a \<noteq> d + of_nat i) \<Longrightarrow> movsb_up n d s m a = m a"
    using movsb_up_spec [of n d s m] by blast+
  show ?thesis by (rule copied_eqI [OF assms(1) sp])
qed

lemma movsb_down_copied:
  assumes "unat d + n \<le> 2 ^ 32" and "unat s + n \<le> 2 ^ 32" and "s \<le> d"
  shows "movsb_down n (d + of_nat n - 1) (s + of_nat n - 1) m = copied d s n m"
proof -
  let ?d = "d + of_nat n - 1" and ?s = "s + of_nat n - 1"
  have off: "x + of_nat n - 1 - of_nat i = x + of_nat (n - 1 - i)" if il: "i < n" for x :: u32 and i
  proof -
    obtain k where k: "n = Suc (i + k)" using less_imp_Suc_add [OF il] by auto
    then have "of_nat n = (of_nat k + of_nat i + 1 :: u32)" by simp
    moreover have "n - 1 - i = k" using k by simp
    ultimately show ?thesis by simp
  qed
  have "n \<le> 2 ^ 32" using assms(1) by linarith
  moreover have "?d - of_nat i \<noteq> ?s - of_nat j" if "i < j" "j < n" for i j
  proof -
    have "unat (d + of_nat (n - 1 - i)) = unat d + (n - 1 - i)" "unat (s + of_nat (n - 1 - j)) = unat s + (n - 1 - j)"
      by (rule unat_off [OF assms(1)], use that in linarith) (rule unat_off [OF assms(2)], use that in linarith)
    moreover have "unat d + (n - 1 - i) \<noteq> unat s + (n - 1 - j)"
      using that assms(3) unfolding word_le_nat_alt by linarith
    ultimately have "d + of_nat (n - 1 - i) \<noteq> s + of_nat (n - 1 - j)" by metis
    then show ?thesis using off [of i d] off [of j s] that by (metis less_trans)
  qed
  ultimately have sp: "\<And>i. i < n \<Longrightarrow> movsb_down n ?d ?s m (?d - of_nat i) = m (?s - of_nat i)"
    "\<And>a. (\<forall>i < n. a \<noteq> ?d - of_nat i) \<Longrightarrow> movsb_down n ?d ?s m a = m a"
    using movsb_down_spec [of n ?d ?s m] by blast+
  have "movsb_down n ?d ?s m (d + of_nat k) = m (s + of_nat k)" if "k < n" for k
  proof -
    have k: "n - 1 - k < n" "n - 1 - (n - 1 - k) = k" using that by simp_all
    show ?thesis using sp(1) [OF k(1)] off [OF k(1), of d] off [OF k(1), of s] k(2) by metis
  qed
  moreover have "movsb_down n ?d ?s m a = m a" if "\<forall>k < n. a \<noteq> d + of_nat k" for a
  proof (rule sp(2), intro allI impI)
    fix i assume i: "i < n"
    then have "n - 1 - i < n" by simp
    with that off [OF i, of d] show "a \<noteq> ?d - of_nat i" by metis
  qed
  ultimately show ?thesis by (rule copied_eqI [OF assms(1)])
qed

lemma aligned_diff:
  fixes a b :: u32
  assumes "a mod 4 = 0" and "b mod 4 = 0"
  shows "a - b \<notin> {1, 2, 3}"
proof -
  have z: "unat a mod 4 = 0" "unat b mod 4 = 0"
    using assms [THEN arg_cong [of _ _ unat]] by (simp_all add: unat_mod)
  have "unat c mod 4 = 0" if "a - b = c" for c
  proof -
    from that have "a = b + c" by auto
    then have "unat a mod 4 = (unat b + unat c) mod 4"
      by (simp add: unat_word_ariths mod_mod_cancel)
    with z show ?thesis by (simp add: mod_add_eq [symmetric, of "unat b"])
  qed
  from this [of 1] this [of 2] this [of 3] show ?thesis by auto
qed

lemma memmove_copied:
  assumes "unat dst + n \<le> 2 ^ 32" and "unat src + n < 2 ^ 32"
  shows "memmove dst src n m = copied dst src n m"
proof (cases "src < dst \<and> src + of_nat n > dst")
  case True
  then have le: "src \<le> dst" by (simp add: less_imp_le)
  have s: "unat src + n \<le> 2 ^ 32" using assms(2) by simp
  let ?k = "of_nat n :: u32"
  have "movsl_down (n div 4) (dst + ?k - 4) (src + ?k - 4) m = movsb_down n (dst + ?k - 1) (src + ?k - 1) m"
    if "(src + ?k) mod 4 = 0" "(dst + ?k) mod 4 = 0" "n mod 4 = 0"
  proof -
    have "src - dst \<notin> {1, 2, 3}" using aligned_diff [OF that(1,2)] by simp
    then have "movsl_down (n div 4) (dst + ?k - 4) (src + ?k - 4) m =
        movsb_down (4 * (n div 4)) (dst + ?k - 4 + 3) (src + ?k - 4 + 3) m"
      by (intro movsl_down_eq) simp
    moreover have "4 * (n div 4) = n" using that(3) by (metis mult.commute div_mult_self1_is_m dvd_div_mult_self mod_0_imp_dvd)
    moreover have "dst + ?k - 4 + 3 = dst + ?k - 1" "src + ?k - 4 + 3 = src + ?k - 1" by simp_all
    ultimately show ?thesis by metis
  qed
  with True movsb_down_copied [OF assms(1) s le] show ?thesis by (simp add: memmove_def Let_def)
next
  case False
  have s: "unat src + n \<le> 2 ^ 32" using assms(2) by simp
  have "unat (src + of_nat n) = unat src + n" using assms(2) by (simp add: unat_word_ariths unat_of_nat)
  with False have o: "dst \<le> src \<or> unat src + n \<le> unat dst" by (auto simp: word_less_nat_alt word_le_nat_alt)
  have "movsl_up (n div 4) dst src m = movsb_up n dst src m"
    if "src mod 4 = 0" "dst mod 4 = 0" "n mod 4 = 0"
  proof -
    have "4 * (n div 4) = n" using that(3) by (metis mult.commute div_mult_self1_is_m dvd_div_mult_self mod_0_imp_dvd)
    with movsl_up_eq [OF aligned_diff [OF that(2,1)], of "n div 4" m] show ?thesis by simp
  qed
  with False movsb_up_copied [OF assms(1) s o] show ?thesis by (auto simp: memmove_def Let_def)
qed

lemma stosb_spec:
  "n \<le> 2 ^ 32 \<Longrightarrow> stosb n c d m = (\<lambda>a. if \<exists>i < n. a = d + of_nat i then c else m a)"
proof (induction n arbitrary: d m)
  case 0
  then show ?case by simp
next
  case (Suc n)
  have "(\<exists>i < Suc n. a = d + of_nat i) \<longleftrightarrow> a = d \<or> (\<exists>i < n. a = d + 1 + of_nat i)" for a
    by (auto simp: less_Suc_eq_0_disj add.assoc)
  with Suc show ?case by (auto simp: fun_eq_iff)
qed

lemma stosl_eq:
  assumes "w = push_bit 24 (ucast b) OR push_bit 16 (ucast b) OR push_bit 8 (ucast b) OR ucast (b :: u8)"
  shows "stosl n w d m = stosb (4 * n) b d m"
proof (induction n arbitrary: d m)
  case 0
  then show ?case by simp
next
  case (Suc n)
  have "ucast w = b" "ucast (drop_bit 8 w) = b" "ucast (drop_bit 16 w) = b" "ucast (drop_bit 24 w) = b"
    by (rule bit_word_eqI; auto simp: assms bit_simps dest: bit_imp_le_length)+
  then have "store4 w d m = m(d := b, d + 1 := b, d + 2 := b, d + 3 := b)" by (simp add: store4_def)
  then have "stosb (4 * Suc n) b d m = stosb (4 * n) b (d + 4) (store4 w d m)"
    by (simp add: numeral_eq_Suc add.assoc)
  with Suc show ?case by simp
qed

lemma memset_filled:
  assumes "unat v + n \<le> 2 ^ 32"
  shows "memset v c n m = (\<lambda>a. if in_range v n a then ucast c else m a)"
proof -
  have n: "n \<le> 2 ^ 32" using assms by linarith
  have "(0xFF :: u32) = mask 8" by (simp add: mask_eq_exp_minus_1)
  moreover have "c AND mask 8 = ucast (ucast c :: u8)"
    by (rule bit_word_eqI) (auto simp: bit_and_iff bit_mask_iff bit_unsigned_iff dest: bit_imp_le_length)
  ultimately have "c AND 0xFF = ucast (ucast c :: u8)" by (simp only:)
  then have "stosl (n div 4) (push_bit 24 (c AND 0xFF) OR push_bit 16 (c AND 0xFF) OR push_bit 8 (c AND 0xFF) OR c AND 0xFF) v m =
      stosb (4 * (n div 4)) (ucast c) v m"
    by (simp only: stosl_eq [OF refl])
  moreover have "4 * (n div 4) = n" if "n mod 4 = 0" using that by (metis mult.commute dvd_div_mult_self mod_0_imp_dvd)
  ultimately have "memset v c n m = stosb n (ucast c) v m" by (simp add: memset_def Let_def)
  then show ?thesis by (simp add: stosb_spec [OF n] in_range_offset [OF assms])
qed

section \<open>Strings in memory\<close>

primrec is_str :: "mem \<Rightarrow> u32 \<Rightarrow> u8 list \<Rightarrow> bool" where
  "is_str m p [] \<longleftrightarrow> m p = 0"
| "is_str m p (c # cs) \<longleftrightarrow> m p = c \<and> c \<noteq> 0 \<and> is_str m (p + 1) cs"

lemma strlen_loop_str: "is_str m s cs \<Longrightarrow> strlen_loop m s n = Some (n + length cs)"
  by (induction cs arbitrary: s n) (subst strlen_loop.simps, simp)+

lemma strlen_str: "is_str m s cs \<Longrightarrow> strlen m s = Some (length cs)"
  by (simp add: strlen_def strlen_loop_str)

lemma strnlen_str: "is_str m s cs \<Longrightarrow> strnlen n m s = min n (length cs)"
proof (induction n arbitrary: s cs)
  case (Suc n)
  then show ?case by (cases cs) auto
qed simp

text \<open>The reference for the comparison: the sign of the first difference, a shorter string first.\<close>

fun cmp_str :: "u8 list \<Rightarrow> u8 list \<Rightarrow> int" where
  "cmp_str [] [] = 0"
| "cmp_str [] (d # ds) = - uint d"
| "cmp_str (c # cs) [] = uint c"
| "cmp_str (c # cs) (d # ds) = (if c = d then cmp_str cs ds else uint c - uint d)"

lemma strcmp_str: "is_str m p cs \<Longrightarrow> is_str m q ds \<Longrightarrow> strcmp m p q = Some (cmp_str cs ds)"
  by (induction cs ds arbitrary: p q rule: cmp_str.induct) (subst strcmp.simps, simp)+

lemma cmp_str_0: "0 \<notin> set cs \<Longrightarrow> 0 \<notin> set ds \<Longrightarrow> cmp_str cs ds = 0 \<longleftrightarrow> cs = ds"
  by (induction cs ds rule: cmp_str.induct) (auto simp: uint_0_iff dest: word_uint_eqI)

lemma is_str_nonzero: "is_str m p cs \<Longrightarrow> 0 \<notin> set cs"
  by (induction cs arbitrary: p) auto

lemma is_str_cong:
  "(\<And>i. i \<le> length cs \<Longrightarrow> m (p + of_nat i) = m' (p + of_nat i)) \<Longrightarrow> is_str m p cs = is_str m' p cs"
proof (induction cs arbitrary: p)
  case (Cons c cs)
  have "m p = m' p" using Cons.prems [of 0] by simp
  moreover have "is_str m (p + 1) cs = is_str m' (p + 1) cs"
    using Cons.prems [of "Suc _"] by (intro Cons.IH) (simp add: ac_simps)
  ultimately show ?case by simp
next
  case Nil
  from Nil [of 0] show ?case by simp
qed

text \<open>What \<^verbatim>\<open>strlcpy\<close> leaves in the destination: at most \<open>k\<close> bytes of the source.\<close>

lemma strlcpy_loop_str:
  assumes "is_str m src cs" and "k < 2 ^ 32"
    and "\<And>i j. i < k \<Longrightarrow> j \<le> length cs \<Longrightarrow> dst + of_nat i \<noteq> src + of_nat j"
  shows "fst (strlcpy_loop k dst src m) = dst + of_nat (min k (length cs)) \<and>
    (\<forall>i < min k (length cs). snd (strlcpy_loop k dst src m) (dst + of_nat i) = cs ! i) \<and>
    (\<forall>a. (\<forall>i < min k (length cs). a \<noteq> dst + of_nat i) \<longrightarrow> snd (strlcpy_loop k dst src m) a = m a)"
  using assms
proof (induction k arbitrary: dst src cs m)
  case 0
  then show ?case by simp
next
  case (Suc k)
  show ?case
  proof (cases cs)
    case Nil
    with Suc.prems show ?thesis by simp
  next
    case (Cons c ds)
    define m1 where "m1 = m(dst := c)"
    have nd: "src + of_nat j \<noteq> dst" if "j \<le> length cs" for j
      using Suc.prems(3) [of 0 j] that by auto
    have "is_str m1 (src + 1) ds"
    proof -
      have "m (src + 1 + of_nat i) = m1 (src + 1 + of_nat i)" if "i \<le> length ds" for i
        using nd [of "Suc i"] that Cons by (simp add: m1_def ac_simps)
      then show ?thesis using Suc.prems(1) Cons is_str_cong [of ds m "src + 1" m1] by simp
    qed
    moreover have "dst + 1 + of_nat i \<noteq> src + 1 + of_nat j" if "i < k" "j \<le> length ds" for i j
      using Suc.prems(3) [of "Suc i" "Suc j"] that Cons by (simp add: ac_simps)
    ultimately have IH: "fst (strlcpy_loop k (dst + 1) (src + 1) m1) = dst + 1 + of_nat (min k (length ds))"
      "\<And>i. i < min k (length ds) \<Longrightarrow> snd (strlcpy_loop k (dst + 1) (src + 1) m1) (dst + 1 + of_nat i) = ds ! i"
      "\<And>a. (\<forall>i < min k (length ds). a \<noteq> dst + 1 + of_nat i) \<Longrightarrow> snd (strlcpy_loop k (dst + 1) (src + 1) m1) a = m1 a"
      using Suc.IH [of m1 "src + 1" ds "dst + 1"] Suc.prems(2) by simp_all
    have st: "strlcpy_loop (Suc k) dst src m = strlcpy_loop k (dst + 1) (src + 1) m1"
      using Suc.prems(1) Cons by (simp add: m1_def)
    have d0: "dst \<noteq> dst + 1 + of_nat i" if "i < k" for i
      using of_nat_inj [of 0 "Suc i"] that Suc.prems(2) by (auto simp: add.assoc)
    show ?thesis
    proof (intro conjI allI impI)
      show "fst (strlcpy_loop (Suc k) dst src m) = dst + of_nat (min (Suc k) (length cs))"
        unfolding st using IH(1) Cons by (simp add: ac_simps)
      fix i assume i: "i < min (Suc k) (length cs)"
      show "snd (strlcpy_loop (Suc k) dst src m) (dst + of_nat i) = cs ! i"
      proof (cases i)
        case 0
        then show ?thesis unfolding st using IH(3) [of dst] d0 Cons by (simp add: m1_def)
      next
        case (Suc j)
        then show ?thesis unfolding st using IH(2) [of j] i Cons by (simp add: ac_simps)
      qed
    next
      fix a assume a: "\<forall>i < min (Suc k) (length cs). a \<noteq> dst + of_nat i"
      have "a \<noteq> dst + 1 + of_nat i" if "i < min k (length ds)" for i
        using a [rule_format, of "Suc i"] that Cons by (simp add: ac_simps)
      moreover have "a \<noteq> dst" using a [rule_format, of 0] Cons by simp
      ultimately show "snd (strlcpy_loop (Suc k) dst src m) a = m a"
        unfolding st using IH(3) [of a] by (simp add: m1_def)
    qed
  qed
qed

section \<open>Printing and reading numbers\<close>

fun dec :: "nat \<Rightarrow> u8 list" where
  "dec n = (if n < 10 then [of_nat (48 + n)] else dec (n div 10) @ [of_nat (48 + n mod 10)])"

declare dec.simps [simp del] digit_loop.simps [simp del] itoa_loop.simps [simp del]

lemma dec_digits: "b \<in> set (dec n) \<Longrightarrow> \<exists>k < 10. b = of_nat (48 + k)"
proof (induction n rule: dec.induct)
  case (1 n)
  then show ?case by (subst (asm) (2) dec.simps) (auto split: if_splits, rule exI [of _ "n mod 10"], simp)
qed

lemma digit_loop_dec: "0 < n \<Longrightarrow> digit_loop (int n) k = k + length (dec n)"
proof (induction n arbitrary: k rule: dec.induct)
  case (1 n)
  show ?case
  proof (cases "n < 10")
    case True
    with 1 show ?thesis by (simp add: dec.simps [of n] digit_loop.simps [of "int n"] digit_loop.simps [of 0])
  next
    case False
    have "int n div 10 = int (n div 10)" by (simp add: zdiv_int)
    moreover have "0 < n div 10" using False by (simp add: div_greater_zero_iff)
    ultimately show ?thesis using False 1 by (simp add: dec.simps [of n] digit_loop.simps [of "int n"] del: of_nat_div)
  qed
qed

lemma c_div10_nat: "c_div10 (int n) = int (n div 10)" "c_mod10 (int n) = int (n mod 10)"
  by (simp_all add: c_div10_def c_mod10_def zdiv_int zmod_int minus_mult_div_eq_mod)

lemma itoa_loop_dec:
  assumes "0 < n" and "length (dec n) < 2 ^ 32"
  shows "(\<forall>i < length (dec n). itoa_loop (int n) (int (length (dec n)) - 1) p m (p + of_nat i) = dec n ! i) \<and>
    (\<forall>a. (\<forall>i < length (dec n). a \<noteq> p + of_nat i) \<longrightarrow> itoa_loop (int n) (int (length (dec n)) - 1) p m a = m a)"
  using assms
proof (induction n arbitrary: m rule: dec.induct)
  case (1 n)
  show ?case
  proof (cases "n < 10")
    case True
    with 1 show ?thesis
      by (simp add: dec.simps [of n] itoa_loop.simps [of "int n"] itoa_loop.simps [of 0] c_div10_nat)
  next
    case False
    let ?d = "dec (n div 10)" let ?L = "length ?d"
    define m1 where "m1 = m(p + of_nat ?L := of_nat (48 + n mod 10))"
    have d: "dec n = ?d @ [of_nat (48 + n mod 10)]" using False by (simp add: dec.simps [of n])
    have "itoa_loop (int n) (int (length (dec n)) - 1) p m = itoa_loop (int (n div 10)) (int ?L - 1) p m1"
      using False by (subst itoa_loop.simps) (simp add: d c_div10_nat m1_def add.commute)
    note st = this
    have IH: "\<And>i. i < ?L \<Longrightarrow> itoa_loop (int (n div 10)) (int ?L - 1) p m1 (p + of_nat i) = ?d ! i"
      "\<And>a. (\<forall>i < ?L. a \<noteq> p + of_nat i) \<Longrightarrow> itoa_loop (int (n div 10)) (int ?L - 1) p m1 a = m1 a"
      using "1.IH" [OF False, of m1] "1.prems" False d by simp_all
    have ne: "p + of_nat ?L \<noteq> p + of_nat i" if "i < ?L" for i
      using of_nat_inj [of ?L i] that "1.prems"(2) d by simp
    show ?thesis unfolding st
    proof (intro conjI allI impI)
      fix i assume "i < length (dec n)"
      then consider "i < ?L" | "i = ?L" using d by force
      then show "itoa_loop (int (n div 10)) (int ?L - 1) p m1 (p + of_nat i) = dec n ! i"
        by cases (use IH ne in \<open>simp_all add: d nth_append m1_def\<close>)
    next
      fix a assume "\<forall>i < length (dec n). a \<noteq> p + of_nat i"
      then show "itoa_loop (int (n div 10)) (int ?L - 1) p m1 a = m a"
        using IH(2) [of a] d by (simp add: m1_def less_Suc_eq)
    qed
  qed
qed

lemma is_str_nth:
  "is_str m p cs \<longleftrightarrow> (\<forall>i < length cs. m (p + of_nat i) = cs ! i \<and> cs ! i \<noteq> 0) \<and> m (p + of_nat (length cs)) = 0"
proof (induction cs arbitrary: p)
  case (Cons c cs)
  then show ?case by (auto simp: All_less_Suc2 add.assoc)
qed simp

lemma length_dec: "length (dec n) \<le> n + 1"
proof (induction n rule: dec.induct)
  case (1 n)
  show ?case
  proof (cases "n < 10")
    case True
    then show ?thesis by (simp add: dec.simps [of n])
  next
    case False
    with 1 have "length (dec (n div 10)) \<le> n div 10 + 1" by simp
    moreover have "n div 10 + 1 \<le> n" using False by simp
    ultimately show ?thesis using False by (simp add: dec.simps [of n])
  qed
qed

lemma dec_nonzero: "b \<in> set (dec n) \<Longrightarrow> 48 \<le> b \<and> b \<le> 57"
proof -
  assume "b \<in> set (dec n)"
  then obtain k where "k < 10" "b = of_nat (48 + k)" using dec_digits by blast
  then have "unat b = 48 + k" by (simp only: unat_of_nat) simp
  with \<open>k < 10\<close> show ?thesis by (simp add: word_le_nat_alt)
qed

lemma itoa_str:
  assumes "n < 2 ^ 31"
  shows "is_str (itoa (int n) p m) p (dec n)"
proof -
  have nz: "dec n ! i \<noteq> 0" if "i < length (dec n)" for i
    using dec_nonzero [OF nth_mem [OF that]] by auto
  show ?thesis
  proof (cases "n = 0")
    case True
    then show ?thesis by (simp add: itoa_def digit_count_def dec.simps [of 0])
  next
    case False
    have l: "length (dec n) < 2 ^ 32" using length_dec [of n] assms by simp
    have dc: "digit_count (int n) = length (dec n)" using False digit_loop_dec [of n 0] by (simp add: digit_count_def)
    have "p + of_nat i \<noteq> p + of_nat (length (dec n))" if "i < length (dec n)" for i
      using of_nat_inj [of i "length (dec n)"] that l by simp
    with False dc itoa_loop_dec [OF _ l, of p m] nz show ?thesis
      by (simp add: itoa_def is_str_nth Let_def)
  qed
qed

lemma strtol_loop_digits:
  assumes "is_str m s ds" and "\<forall>b \<in> set ds. 48 \<le> b \<and> b \<le> 57"
  shows "strtol_loop m s 10 v = Some (s + of_nat (length ds), foldl (\<lambda>v b. v * 10 + (ucast b - 48)) v ds)"
  using assms
proof (induction ds arbitrary: s v)
  case Nil
  then show ?case by (subst strtol_loop.simps) (simp add: strtol_digit_def)
next
  case (Cons b ds)
  have "uint b \<le> 57" "word_of_int (uint b - 48) = (ucast b - 48 :: u32)"
    using Cons.prems by (auto simp: word_le_def)
  with Cons show ?case by (subst strtol_loop.simps) (simp add: strtol_digit_def add.assoc)
qed

lemma dec_value: "foldl (\<lambda>v b. v * 10 + (ucast b - 48)) 0 (dec n) = (of_nat n :: u32)"
proof (induction n rule: dec.induct)
  case (1 n)
  have u: "ucast (of_nat (48 + k) :: u8) = (of_nat (48 + k) :: u32)" if "k < 10" for k
  proof -
    have "unat (of_nat (48 + k) :: u8) = 48 + k" "unat (of_nat (48 + k) :: u32) = 48 + k"
      using that by (simp_all only: unat_of_nat) simp_all
    then have "unat (ucast (of_nat (48 + k) :: u8) :: u32) = unat (of_nat (48 + k) :: u32)"
      using that by (simp add: unsigned_ucast_eq take_bit_nat_eq_self del: of_nat_add)
    then show ?thesis by (simp only: word_unat_eq_iff)
  qed
  show ?case
  proof (cases "n < 10")
    case True
    then show ?thesis using u [of n] by (simp add: dec.simps [of n])
  next
    case False
    have "of_nat n = (of_nat (n div 10 * 10 + n mod 10) :: u32)" by simp
    also have "\<dots> = of_nat (n div 10) * 10 + of_nat (n mod 10)" by (simp only: of_nat_add of_nat_mult of_nat_numeral)
    finally show ?thesis using False 1 u [of "n mod 10"] by (simp add: dec.simps [of n])
  qed
qed

section \<open>Properties\<close>

text \<open>
  C29: \<^verbatim>\<open>memmove\<close> copies as if through a third buffer, whether or not the two areas overlap and
  whichever of its four loops it takes: every destination byte gets the old source byte,
  every other byte of memory stays.
\<close>

theorem memmove_exact:
  assumes "unat dst + n \<le> 2 ^ 32" and "unat src + n < 2 ^ 32"
  shows "memmove dst src n m a = (if in_range dst n a then m (src + (a - dst)) else m a)"
  using memmove_copied [OF assms] by (simp add: copied_def)

theorem memmove_exact_witness:
  "memmove 0x1002 0x1000 6 (\<lambda>a. ucast a) 0x1007 = 5 \<and> memmove 0x1002 0x1000 6 (\<lambda>a. ucast a) 0x1008 = 8"
  using memmove_exact [of "0x1002" 6 "0x1000" "\<lambda>a. ucast a" "0x1007"]
    memmove_exact [of "0x1002" 6 "0x1000" "\<lambda>a. ucast a" "0x1008"]
  by (simp add: in_range_def)

text \<open>
  The two loops of \<^verbatim>\<open>memset\<close>, words when address and size are multiples of four and bytes
  otherwise, both fill exactly the area with the low byte of the value.
\<close>

theorem memset_exact:
  assumes "unat v + n \<le> 2 ^ 32"
  shows "memset v c n m a = (if in_range v n a then ucast c else m a)"
  using memset_filled [OF assms] by simp

theorem memset_exact_witness: "memset 0x1000 0x141 8 (\<lambda>_. 0) 0x1007 = 0x41 \<and> memset 0x1000 0x141 8 (\<lambda>_. 0) 0x1008 = 0"
  using memset_exact [of "0x1000" 8 "0x141" "\<lambda>_. 0" "0x1007"] memset_exact [of "0x1000" 8 "0x141" "\<lambda>_. 0" "0x1008"]
  by (simp add: in_range_def)

text \<open>
  \<^verbatim>\<open>strlcpy\<close> into a buffer of \<open>n\<close> bytes leaves a terminated string there: the source, cut to
  \<open>n - 1\<close> bytes. It returns the length of that string and writes no byte outside the buffer.
\<close>

theorem strlcpy_fits:
  assumes "is_str m src cs" and "0 < n" and "n < 2 ^ 32"
    and "\<And>i j. i < n \<Longrightarrow> j \<le> length cs \<Longrightarrow> dst + of_nat i \<noteq> src + of_nat j"
  shows "fst (strlcpy dst src n m) = min (n - 1) (length cs) \<and>
         is_str (snd (strlcpy dst src n m)) dst (take (n - 1) cs) \<and>
         (\<forall>a. (\<forall>i < n. a \<noteq> dst + of_nat i) \<longrightarrow> snd (strlcpy dst src n m) a = m a)"
proof -
  let ?k = "min (n - 1) (length cs)"
  obtain d m1 where s: "strlcpy_loop (n - 1) dst src m = (d, m1)" by fastforce
  have sp: "d = dst + of_nat ?k" "\<And>i. i < ?k \<Longrightarrow> m1 (dst + of_nat i) = cs ! i"
    "\<And>a. (\<forall>i < ?k. a \<noteq> dst + of_nat i) \<Longrightarrow> m1 a = m a"
    using strlcpy_loop_str [OF assms(1), of "n - 1" dst] assms(3,4) s by auto
  have kb: "?k < 2 ^ 32" using assms(3) by (auto simp: min_less_iff_disj)
  have ne: "dst + of_nat i \<noteq> dst + of_nat ?k" if "i < ?k" for i
  proof -
    have "i < 2 ^ 32" using that kb by linarith
    from of_nat_inj [OF this kb] that show ?thesis by (metis add_left_cancel less_irrefl)
  qed
  have "unat (d - dst) = ?k" using kb by (simp add: sp(1) unat_of_nat)
  moreover have "is_str (m1(d := 0)) dst (take (n - 1) cs)"
    using sp(1,2) ne is_str_nonzero [OF assms(1)] by (auto simp: is_str_nth min.commute) (metis nth_mem)
  moreover have "(m1(d := 0)) a = m a" if "\<forall>i < n. a \<noteq> dst + of_nat i" for a
  proof -
    have "?k < n" using assms(2) by linarith
    then have "a \<noteq> d" "\<forall>i < ?k. a \<noteq> dst + of_nat i" using that sp(1) by (metis, metis less_trans)
    with sp(3) show ?thesis by simp
  qed
  ultimately show ?thesis using assms(2) by (simp add: strlcpy_def s [simplified])
qed

theorem strlcpy_fits_witness:
  "fst (strlcpy 0x2000 0x1000 3 ((\<lambda>_. 0)(0x1000 := 104, 0x1001 := 105, 0x1002 := 33))) = 2"
proof -
  let ?m = "(\<lambda>_. 0)(0x1000 := 104, 0x1001 := 105, 0x1002 := 33) :: mem"
  have "0x2000 + of_nat i \<noteq> (0x1000 :: u32) + of_nat j" if "i < 3" "j \<le> length [104, 105, 33 :: u8]" for i j
  proof -
    have "unat (0x2000 + of_nat i :: u32) = 0x2000 + i" "unat (0x1000 + of_nat j :: u32) = 0x1000 + j"
      using unat_off [of "0x2000" 3 i] unat_off [of "0x1000" 4 j] that by simp_all
    moreover have "0x2000 + i \<noteq> 0x1000 + j" using that by simp
    ultimately show ?thesis by metis
  qed
  then show ?thesis using strlcpy_fits [of ?m "0x1000" "[104, 105, 33]" 3 "0x2000"] by simp
qed

text \<open>
  \<^verbatim>\<open>strcmp\<close> on two terminated strings returns the difference at the first position where
  they differ, which is 0 exactly when the strings are equal.
\<close>

theorem strcmp_correct:
  assumes "is_str m p cs" and "is_str m q ds"
  shows "strcmp m p q = Some (cmp_str cs ds) \<and> (cmp_str cs ds = 0 \<longleftrightarrow> cs = ds)"
  using strcmp_str [OF assms] cmp_str_0 assms [THEN is_str_nonzero] by simp

theorem strcmp_correct_witness:
  "strcmp ((\<lambda>_. 0)(0x1000 := 104, 0x2000 := 105)) 0x1000 0x2000 = Some (- 1)"
  using strcmp_correct [of "(\<lambda>_. 0)(0x1000 := 104, 0x2000 := 105)" "0x1000" "[104]" "0x2000" "[105]"] by simp

text \<open>
  Reading back a number that \<^verbatim>\<open>itoa\<close> wrote gives the number: \<^verbatim>\<open>strtol\<close> in base 10 returns
  it and stops at the terminating zero, for every non-negative \<^verbatim>\<open>int\<close>.
\<close>

theorem itoa_strtol:
  assumes "n < 2 ^ 31"
  shows "strtol (itoa (int n) p m) p 10 = Some (int n, p + of_nat (digit_count (int n)))"
proof -
  let ?m = "itoa (int n) p m"
  note st = itoa_str [OF assms, of p m]
  have "dec n \<noteq> []" by (subst dec.simps) simp
  then obtain b bs where d: "dec n = b # bs" by (meson neq_Nil_conv)
  then have b: "?m p = b" "48 \<le> b" "b \<le> 57" using st dec_nonzero [of b n] by simp_all
  then have "b \<noteq> 32" "b \<noteq> 9" "b \<noteq> 43" "b \<noteq> 45" by auto
  moreover from this have "skip_blanks ?m p = Some p" by (subst skip_blanks.simps) (simp add: b(1))
  moreover have "strtol_loop ?m p 10 0 = Some (p + of_nat (length (dec n)), of_nat n)"
    using strtol_loop_digits [OF st] dec_nonzero by (simp add: dec_value)
  moreover have "digit_count (int n) = length (dec n)"
    using digit_loop_dec [of n 0] by (cases "n = 0") (simp_all add: digit_count_def dec.simps [of 0])
  moreover have "sint (of_nat n :: u32) = int n"
    using assms by (simp add: sint_uint signed_take_bit_int_eq_self uint_nat unat_of_nat)
  ultimately show ?thesis by (simp add: strtol_def b(1))
qed

theorem itoa_strtol_witness: "strtol (itoa 427 0x1000 (\<lambda>_. 7)) 0x1000 10 = Some (427, 0x1000 + of_nat (digit_count 427))"
  using itoa_strtol [of 427 "0x1000" "\<lambda>_. 7"] by simp

text \<open>
  For a negative number \<^verbatim>\<open>itoa\<close> writes before the start of its buffer and leaves the empty
  string in it.
\<close>

theorem itoa_negative_underflow:
  "itoa (- 7) p m (p - 1) = 41 \<and> itoa (- 7) p m p = 0"
  by (simp add: itoa_def digit_count_def digit_loop.simps itoa_loop.simps [of "- 7"] itoa_loop.simps [of 0]
      c_div10_def c_mod10_def)

end
