(* ===== verification/Printfmt.thy ===== *)
theory Printfmt
  imports StringLib
begin

text \<open>
  Formatted printing, \<^verbatim>\<open>lib/printfmt.c\<close>, shared by the kernel and the user library. The output
  is the sequence of characters passed to \<^verbatim>\<open>putch\<close>. The arguments are the words of the
  variable argument list; a pointer argument of \<^verbatim>\<open>%s\<close> is the string it points to. Reading a
  missing argument or one of the wrong kind is undefined behaviour and gives \<^term>\<open>None\<close>.
\<close>

datatype varg = Word u32 | Str "string option"

definition error_string :: "int \<Rightarrow> string option" where
  "error_string e = map_of
     [(E_UNSPECIFIED, ''unspecified error''), (E_BAD_ENV, ''bad environment''), (E_INVAL, ''invalid parameter''),
      (E_NO_MEM, ''out of memory''), (E_NO_FREE_ENV, ''out of environments''), (E_FAULT, ''segmentation fault''),
      (E_IPC_NOT_RECV, ''env is not recving''), (E_EOF, ''unexpected end of file''),
      (E_NO_DISK, ''no free space on disk''), (E_MAX_OPEN, ''too many files are open''),
      (E_NOT_FOUND, ''file or block not found''), (E_BAD_PATH, ''invalid path''),
      (E_FILE_EXISTS, ''file already exists''), (E_NOT_EXEC, ''file is not a valid executable''),
      (E_NOT_SUPP, ''operation not supported'')] e"

section \<open>Numbers\<close>

text \<open>A character as the \<^verbatim>\<open>int\<close> that \<^verbatim>\<open>putch\<close> gets: \<^verbatim>\<open>char\<close> is signed.\<close>

definition ch_int :: "char \<Rightarrow> int" where
  "ch_int c = (let v = of_char c :: int in if v < 128 then v else v - 256)"

definition digit_char :: "nat \<Rightarrow> int" where
  "digit_char d = ch_int (''0123456789abcdef'' ! d)"

function printnum :: "nat \<Rightarrow> nat \<Rightarrow> int \<Rightarrow> int \<Rightarrow> int list" where
  "printnum num b width padc =
     (if b \<le> num \<and> 2 \<le> b then printnum (num div b) b (width - 1) padc
      else replicate (nat (width - 1)) padc) @ [digit_char (num mod b)]"
  by pat_completeness auto
termination
  by (relation "measure (\<lambda>(num, _). num)") auto

declare printnum.simps [simp del]

text \<open>\<^verbatim>\<open>getuint\<close> and \<^verbatim>\<open>getint\<close>: one word, or two (low word first) for \<^verbatim>\<open>long long\<close>.\<close>

fun getuint :: "nat \<Rightarrow> varg list \<Rightarrow> (u64 \<times> varg list) option" where
  "getuint lflag (Word w # ap) =
     (if lflag \<ge> 2 then (case ap of Word v # ap' \<Rightarrow> Some (ucast w OR push_bit 32 (ucast v), ap') | _ \<Rightarrow> None)
      else Some (ucast w, ap))"
| "getuint lflag _ = None"

fun getint :: "nat \<Rightarrow> varg list \<Rightarrow> (u64 \<times> varg list) option" where
  "getint lflag (Word w # ap) =
     (if lflag \<ge> 2 then (case ap of Word v # ap' \<Rightarrow> Some (ucast w OR push_bit 32 (ucast v), ap') | _ \<Rightarrow> None)
      else Some (scast w, ap))"
| "getint lflag _ = None"

section \<open>Strings\<close>

text \<open>The case \<^verbatim>\<open>'s'\<close>. A negative precision means no limit (it is the largest \<^verbatim>\<open>size_t\<close>).\<close>

definition cut :: "int \<Rightarrow> 'a list \<Rightarrow> 'a list" where
  "cut precision p = (if precision < 0 then p else take (nat precision) p)"

definition print_string :: "string option \<Rightarrow> int \<Rightarrow> int \<Rightarrow> int \<Rightarrow> bool \<Rightarrow> int list" where
  "print_string arg width0 precision padc altflag =
     (let p = (case arg of None \<Rightarrow> ''(null)'' | Some s \<Rightarrow> s);
          left = (width0 > 0 \<and> padc \<noteq> 45);
          w1 = width0 - int (length (cut precision p));
          width1 = (if left then (if w1 > 0 then 0 else w1) else width0);
          body = cut precision p
      in (if left then replicate (nat w1) padc else []) @
         map (\<lambda>c. if altflag \<and> (ch_int c < 32 \<or> ch_int c > 126) then 63 else ch_int c) body @
         replicate (nat (width1 - int (length body))) 32)"

section \<open>Format strings\<close>

record flags =
  padc :: int
  width :: int
  precision :: int
  lflag :: nat
  altflag :: bool

definition no_flags :: flags where
  "no_flags = \<lparr>padc = 32, width = - 1, precision = - 1, lflag = 0, altflag = False\<rparr>"

definition is_digit :: "char \<Rightarrow> bool" where
  "is_digit c \<longleftrightarrow> 48 \<le> ch_int c \<and> ch_int c \<le> 57"

definition digits_value :: "string \<Rightarrow> int" where
  "digits_value ds = foldl (\<lambda>v c. v * 10 + ch_int c - 48) 0 ds"

definition process_precision :: "int \<Rightarrow> flags \<Rightarrow> flags" where
  "process_precision v f = (if width f < 0 then f\<lparr>width := v, precision := - 1\<rparr> else f\<lparr>precision := v\<rparr>)"

definition print_error :: "u32 \<Rightarrow> int list option" where
  "print_error w =
     (let err = (if sint w < 0 then sint (- w) else sint w) in
      if err \<ge> MAXERROR \<or> (0 \<le> err \<and> error_string err = None)
      then Some (map ch_int ''error '' @ printnum (nat err) 10 (- 1) 32)
      else if err < 0 then None
      else Some (map ch_int (the (error_string err))))"

text \<open>
  From the label \<^verbatim>\<open>reswitch\<close> on: \<open>start\<close> is the position after the percent sign, where an
  unrecognized sequence resumes after printing the sign itself. The result is the output, where
  the format string continues, and the arguments that are left.
\<close>

function escape :: "string \<Rightarrow> flags \<Rightarrow> string \<Rightarrow> varg list \<Rightarrow> (int list \<times> string \<times> varg list) option" where
  "escape start f [] ap = Some ([37], start, ap)"
| "escape start f (c # fmt) ap =
     (if c = CHR ''-'' then escape start (f\<lparr>padc := 45\<rparr>) fmt ap
      else if c = CHR ''0'' then escape start (f\<lparr>padc := 48\<rparr>) fmt ap
      else if is_digit c then
        escape start (process_precision (digits_value (c # takeWhile is_digit fmt)) f) (dropWhile is_digit fmt) ap
      else if c = CHR ''*'' then
        (case ap of
           Word w # ap' \<Rightarrow> escape start (process_precision (sint w) f) fmt ap'
         | _ \<Rightarrow> None)
      else if c = CHR ''.'' then escape start (if width f < 0 then f\<lparr>width := 0\<rparr> else f) fmt ap
      else if c = CHR ''#'' then escape start (f\<lparr>altflag := True\<rparr>) fmt ap
      else if c = CHR ''l'' then escape start (f\<lparr>lflag := lflag f + 1\<rparr>) fmt ap
      else if c = CHR ''c'' then
        (case ap of Word w # ap' \<Rightarrow> Some ([sint w], fmt, ap') | _ \<Rightarrow> None)
      else if c = CHR ''e'' then
        (case ap of
           Word w # ap' \<Rightarrow> (case print_error w of None \<Rightarrow> None | Some out \<Rightarrow> Some (out, fmt, ap'))
         | _ \<Rightarrow> None)
      else if c = CHR ''s'' then
        (case ap of
           Str p # ap' \<Rightarrow> Some (print_string p (width f) (precision f) (padc f) (altflag f), fmt, ap')
         | _ \<Rightarrow> None)
      else if c = CHR ''d'' then
        (case getint (lflag f) ap of
           None \<Rightarrow> None
         | Some (num, ap') \<Rightarrow>
             Some (if sint num < 0
                   then 45 # printnum (unat (- num)) 10 (width f) (padc f)
                   else printnum (unat num) 10 (width f) (padc f), fmt, ap'))
      else if c = CHR ''u'' then
        (case getuint (lflag f) ap of
           None \<Rightarrow> None | Some (num, ap') \<Rightarrow> Some (printnum (unat num) 10 (width f) (padc f), fmt, ap'))
      else if c = CHR ''o'' then
        (case getuint (lflag f) ap of
           None \<Rightarrow> None | Some (num, ap') \<Rightarrow> Some (printnum (unat num) 8 (width f) (padc f), fmt, ap'))
      else if c = CHR ''p'' then
        (case ap of
           Word w # ap' \<Rightarrow> Some ([48, 120] @ printnum (unat w) 16 (width f) (padc f), fmt, ap')
         | _ \<Rightarrow> None)
      else if c = CHR ''x'' then
        (case getuint (lflag f) ap of
           None \<Rightarrow> None | Some (num, ap') \<Rightarrow> Some (printnum (unat num) 16 (width f) (padc f), fmt, ap'))
      else if c = CHR ''%'' then Some ([37], fmt, ap)
      else Some ([37], start, ap))"
  by pat_completeness auto
termination
  by (relation "measure (\<lambda>(_, _, fmt, _). length fmt)") (auto simp: le_imp_less_Suc length_dropWhile_le)

declare escape.simps [simp del]

lemma escape_shorter:
  "escape start f fmt ap = Some (out, rest, ap') \<Longrightarrow> length fmt \<le> length start \<Longrightarrow> length rest \<le> length start"
proof (induction start f fmt ap arbitrary: out rest ap' rule: escape.induct)
  case (1 start f ap)
  then show ?case by (simp add: escape.simps)
next
  case (2 start f c fmt ap)
  have "length (dropWhile is_digit fmt) \<le> length start"
    using "2.prems"(2) length_dropWhile_le [of is_digit fmt] by simp
  with "2.prems"(2) "2.prems"(1) [unfolded escape.simps(2)] "2.IH" show ?case
    by (auto split: if_splits option.splits list.splits varg.splits)
qed

function vprintfmt :: "string \<Rightarrow> varg list \<Rightarrow> int list option" where
  "vprintfmt [] ap = Some []"
| "vprintfmt (c # fmt) ap =
     (if c = CHR ''%'' then
        (case escape fmt no_flags fmt ap of
           None \<Rightarrow> None
         | Some (out, rest, ap') \<Rightarrow>
             (case vprintfmt rest ap' of None \<Rightarrow> None | Some out' \<Rightarrow> Some (out @ out')))
      else (case vprintfmt fmt ap of None \<Rightarrow> None | Some out' \<Rightarrow> Some (of_char c # out')))"
  by pat_completeness auto
termination
proof (relation "measure (\<lambda>(fmt, _). length fmt)")
  show "((rest, ap'), c # fmt, ap) \<in> measure (\<lambda>(fmt, _). length fmt)"
    if "escape fmt no_flags fmt ap = Some x" "(out, y) = x" "(rest, ap') = y"
    for c fmt ap x out y rest ap'
    using escape_shorter [of fmt no_flags fmt ap out rest ap'] that by (auto simp: le_imp_less_Suc)
qed auto

section \<open>Printing into a buffer\<close>

text \<open>The state of \<^verbatim>\<open>struct sprintbuf\<close>: where the next character goes, and how many there were.\<close>

definition sprintputch :: "u32 \<Rightarrow> int \<Rightarrow> u32 \<times> int \<times> mem \<Rightarrow> u32 \<times> int \<times> mem" where
  "sprintputch ebuf ch = (\<lambda>(buf, cnt, m).
     if buf < ebuf then (buf + 1, cnt + 1, m(buf := word_of_int ch)) else (buf, cnt + 1, m))"

definition vsnprintf :: "u32 \<Rightarrow> int \<Rightarrow> string \<Rightarrow> varg list \<Rightarrow> mem \<Rightarrow> (int \<times> mem) option" where
  "vsnprintf buf n fmt ap m =
     (if buf = 0 \<or> n < 1 then Some (- E_INVAL, m)
      else case vprintfmt fmt ap of
             None \<Rightarrow> None
           | Some out \<Rightarrow>
               let (b, cnt, m1) = fold (sprintputch (buf + word_of_int n - 1)) out (buf, 0, m)
               in Some (cnt, m1(b := 0)))"

definition snprintf :: "u32 \<Rightarrow> int \<Rightarrow> string \<Rightarrow> varg list \<Rightarrow> mem \<Rightarrow> (int \<times> mem) option" where
  "snprintf buf n fmt args m = vsnprintf buf n fmt args m"

section \<open>Numbers print as their digits\<close>

lemma digit_char_10: "d < 10 \<Longrightarrow> digit_char d = int (48 + d)"
proof -
  assume "d < 10"
  then have "d \<in> {0, 1, 2, 3, 4, 5, 6, 7, 8, 9}" by auto
  then show ?thesis by (auto simp: digit_char_def ch_int_def)
qed

lemma uint_digit: "d < 10 \<Longrightarrow> uint (of_nat (48 + d) :: u8) = int (48 + d)"
  by (simp only: uint_nat unat_of_nat) simp

lemma printnum_dec: "printnum num 10 w c = replicate (nat (w - int (length (dec num)))) c @ map uint (dec num)"
proof (induction num arbitrary: w rule: dec.induct)
  case (1 num)
  show ?case
  proof (cases "num < 10")
    case True
    then show ?thesis
      by (simp add: printnum.simps [of num] dec.simps [of num] digit_char_10 uint_digit del: of_nat_add)
  next
    case False
    then show ?thesis
      using 1 [of "w - 1"] by (simp add: printnum.simps [of num] dec.simps [of num] digit_char_10 uint_digit del: of_nat_add)
  qed
qed

lemma unat_small_int: "0 \<le> k \<Longrightarrow> k < 2 ^ 64 \<Longrightarrow> unat (word_of_int k :: u64) = nat k"
  by (simp add: unat_eq_nat_uint uint_word_of_int)

lemma vprintfmt_d:
  "vprintfmt ''%d'' [Word w] =
     Some (if sint w < 0 then 45 # map uint (dec (nat (- sint w))) else map uint (dec (nat (sint w))))"
proof -
  have s: "sint (scast w :: u64) = sint w" by (rule sint_up_scast) (simp add: is_up)
  have r: "- (2 ^ 31) \<le> sint w" "sint w < 2 ^ 31" using sint_ge [of w] sint_lt [of w] by simp_all
  have w: "(scast w :: u64) = word_of_int (sint w)" by simp
  have "unat (- scast w :: u64) = nat (- sint w)" if "sint w < 0"
    using unat_small_int [of "- sint w"] that r by (simp only: w of_int_minus) simp
  moreover have "unat (scast w :: u64) = nat (sint w)" if "\<not> sint w < 0"
    using unat_small_int [of "sint w"] that r by (simp only: w) simp
  ultimately show ?thesis
    by (simp add: escape.simps is_digit_def ch_int_def no_flags_def printnum_dec s)
qed

lemma strtol_dec:
  assumes "is_str m p (dec k)"
  shows "strtol_loop m p 10 0 = Some (p + of_nat (length (dec k)), of_nat k)"
  using strtol_loop_digits [OF assms] dec_nonzero by (simp add: dec_value)

text \<open>The characters that arrive in the buffer when there is room for \<open>r\<close> of them.\<close>

lemma sprintputch_fold:
  assumes "r < 2 ^ 32" and "unat b + r < 2 ^ 32"
  shows "\<exists>m'. fold (sprintputch (b + of_nat r)) out (b, c, m) =
      (b + of_nat (min r (length out)), c + int (length out), m') \<and>
    (\<forall>i < min r (length out). m' (b + of_nat i) = word_of_int (out ! i)) \<and>
    (\<forall>a. (\<forall>i < min r (length out). a \<noteq> b + of_nat i) \<longrightarrow> m' a = m a)"
  using assms
proof (induction out arbitrary: b c m r)
  case Nil
  then show ?case by simp
next
  case (Cons ch out)
  have lt: "b < b + of_nat r \<longleftrightarrow> r \<noteq> 0"
    using Cons.prems by (simp add: word_less_nat_alt unat_word_ariths unat_of_nat)
  show ?case
  proof (cases r)
    case 0
    have "fold (sprintputch b) os (b, c, m) = (b, c + int (length os), m)" for os c
      by (induction os arbitrary: c) (simp_all add: sprintputch_def)
    from this [of "ch # out" c] show ?thesis using 0 by (simp del: fold_simps)
  next
    case (Suc k)
    define m1 where "m1 = m(b := word_of_int ch)"
    have e: "b + of_nat r = b + 1 + of_nat k" using Suc by simp
    have u1: "unat (b + 1) = unat b + 1" using Cons.prems Suc by (simp add: unat_word_ariths)
    obtain m' where m': "fold (sprintputch (b + 1 + of_nat k)) out (b + 1, c + 1, m1) =
        (b + 1 + of_nat (min k (length out)), c + 1 + int (length out), m')"
      "\<And>i. i < min k (length out) \<Longrightarrow> m' (b + 1 + of_nat i) = word_of_int (out ! i)"
      "\<And>a. (\<forall>i < min k (length out). a \<noteq> b + 1 + of_nat i) \<Longrightarrow> m' a = m1 a"
      using Cons.IH [of k "b + 1" "c + 1" m1] Cons.prems Suc u1 by auto
    have d0: "b \<noteq> b + 1 + of_nat i" if "i < k" for i
      using of_nat_inj [of 0 "Suc i"] that Cons.prems(1) Suc by (auto simp: add.assoc)
    have st: "fold (sprintputch (b + of_nat r)) (ch # out) (b, c, m) =
        fold (sprintputch (b + 1 + of_nat k)) out (b + 1, c + 1, m1)"
      using lt Suc by (simp add: sprintputch_def m1_def e [symmetric])
    show ?thesis unfolding st
    proof (intro exI conjI allI impI)
      show "fold (sprintputch (b + 1 + of_nat k)) out (b + 1, c + 1, m1) =
          (b + of_nat (min r (length (ch # out))), c + int (length (ch # out)), m')"
        using m'(1) Suc by (simp add: ac_simps)
      fix i assume i: "i < min r (length (ch # out))"
      show "m' (b + of_nat i) = word_of_int ((ch # out) ! i)"
      proof (cases i)
        case 0
        then show ?thesis using m'(3) [of b] d0 by (simp add: m1_def)
      next
        case (Suc j)
        then show ?thesis using m'(2) [of j] i \<open>r = Suc k\<close> by (simp add: ac_simps)
      qed
    next
      fix a assume a: "\<forall>i < min r (length (ch # out)). a \<noteq> b + of_nat i"
      have "a \<noteq> b + 1 + of_nat i" if "i < min k (length out)" for i
        using a [rule_format, of "Suc i"] that Suc by (simp add: ac_simps)
      moreover have "a \<noteq> b" using a [rule_format, of 0] Suc by simp
      ultimately show "m' a = m a" using m'(3) [of a] by (simp add: m1_def)
    qed
  qed
qed

section \<open>Properties\<close>

text \<open>
  C30: \<^verbatim>\<open>strtol\<close> reads back what \<^verbatim>\<open>printf\<close> prints for \<^verbatim>\<open>%d\<close>: for every \<^verbatim>\<open>int\<close>, the smallest one
  included, the value and the end of the printed text.
\<close>

theorem printf_strtol:
  assumes "vprintfmt ''%d'' [Word w] = Some out" and "is_str m p (map word_of_int out)"
  shows "strtol m p 10 = Some (sint w, p + of_nat (length out))"
proof (cases "sint w < 0")
  case True
  let ?ds = "dec (nat (- sint w))"
  have o: "out = 45 # map uint ?ds" using assms(1) True by (simp add: vprintfmt_d del: vprintfmt.simps)
  then have st: "m p = 45" "is_str m (p + 1) ?ds" using assms(2) by (simp_all add: comp_def)
  have "skip_blanks m p = Some p" by (subst skip_blanks.simps) (simp add: st(1))
  moreover have "(of_nat (nat (- sint w)) :: u32) = - w"
    using True by (simp add: of_nat_nat)
  ultimately show ?thesis using strtol_dec [OF st(2)] st(1) o by (simp add: strtol_def ac_simps)
next
  case False
  let ?ds = "dec (nat (sint w))"
  have o: "out = map uint ?ds" using assms(1) False by (simp add: vprintfmt_d del: vprintfmt.simps)
  then have st: "is_str m p ?ds" using assms(2) by (simp add: comp_def)
  have "?ds \<noteq> []" by (subst dec.simps) simp
  then obtain b bs where d: "?ds = b # bs" by (meson neq_Nil_conv)
  then have b: "m p = b" "48 \<le> b" "b \<le> 57" using st dec_nonzero [of b "nat (sint w)"] by simp_all
  then have "b \<noteq> 32" "b \<noteq> 9" "b \<noteq> 43" "b \<noteq> 45" by auto
  moreover from this have "skip_blanks m p = Some p" by (subst skip_blanks.simps) (simp add: b(1))
  moreover have "(of_nat (nat (sint w)) :: u32) = w"
    using False by (simp add: of_nat_nat)
  ultimately show ?thesis using strtol_dec [OF st] b(1) o by (simp add: strtol_def)
qed

lemma dec_12: "dec 12 = [49, 50]"
  by (simp add: dec.simps)

theorem printf_strtol_witness:
  "strtol ((\<lambda>_. 0)(0x1000 := 45, 0x1001 := 49, 0x1002 := 50)) 0x1000 10 = Some (- 12, 0x1003)"
proof -
  have "sint (- 12 :: u32) = - 12" by simp
  then have o: "vprintfmt ''%d'' [Word (- 12)] = Some [45, 49, 50]"
    by (simp add: vprintfmt_d dec_12 del: vprintfmt.simps)
  show ?thesis
    using printf_strtol [OF o, of "(\<lambda>_. 0)(0x1000 := 45, 0x1001 := 49, 0x1002 := 50)" "0x1000"] by simp
qed

text \<open>
  C31: \<^verbatim>\<open>vsnprintf\<close> never writes outside the buffer: it stores the first \<open>n - 1\<close> characters of the
  output and a terminating zero after them, changes no byte before or behind the \<open>n\<close> bytes, and
  returns the length of the whole output.
\<close>

theorem vsnprintf_bounded:
  assumes "vprintfmt fmt ap = Some out" and "buf \<noteq> 0" and "1 \<le> n" and "unat buf + n \<le> 2 ^ 32"
  shows "\<exists>m'. vsnprintf buf (int n) fmt ap m = Some (int (length out), m') \<and>
    (\<forall>i < min (n - 1) (length out). m' (buf + of_nat i) = word_of_int (out ! i)) \<and>
    m' (buf + of_nat (min (n - 1) (length out))) = 0 \<and>
    (\<forall>a. \<not> in_range buf n a \<longrightarrow> m' a = m a)"
proof -
  let ?k = "min (n - 1) (length out)"
  have "0 < unat buf" using assms(2) by (simp add: unat_eq_0 flip: neq0_conv)
  then have r: "n - 1 < 2 ^ 32" "unat buf + (n - 1) < 2 ^ 32" using assms(3,4) by linarith+
  have eb: "buf + word_of_int (int n) - 1 = buf + of_nat (n - 1)" using assms(3) by (simp add: of_nat_diff)
  obtain m1 where f: "fold (sprintputch (buf + of_nat (n - 1))) out (buf, 0, m) = (buf + of_nat ?k, int (length out), m1)"
    "\<And>i. i < ?k \<Longrightarrow> m1 (buf + of_nat i) = word_of_int (out ! i)"
    "\<And>a. (\<forall>i < ?k. a \<noteq> buf + of_nat i) \<Longrightarrow> m1 a = m a"
    using sprintputch_fold [OF r, of out 0 m] by auto
  have kn: "?k < n" using assms(3) by linarith
  have kb: "?k < 2 ^ 32" using r(1) by linarith
  have ne: "buf + of_nat i \<noteq> buf + of_nat ?k" if "i < ?k" for i
  proof -
    have "i < 2 ^ 32" using that kb by linarith
    from of_nat_inj [OF this kb] that show ?thesis by (metis add_left_cancel less_irrefl)
  qed
  let ?m = "m1(buf + of_nat ?k := 0)"
  have "vsnprintf buf (int n) fmt ap m = Some (int (length out), ?m)"
    unfolding vsnprintf_def eb using assms(1-3) f(1) by simp
  moreover have "\<forall>i < ?k. ?m (buf + of_nat i) = word_of_int (out ! i)" using f(2) ne by simp
  moreover have "\<forall>a. \<not> in_range buf n a \<longrightarrow> ?m a = m a"
  proof (intro allI impI)
    fix a assume "\<not> in_range buf n a"
    then have "\<forall>i < n. a \<noteq> buf + of_nat i" using in_range_offset [OF assms(4)] by blast
    with kn have "a \<noteq> buf + of_nat ?k" "\<forall>i < ?k. a \<noteq> buf + of_nat i" by (metis, metis less_trans)
    with f(3) show "?m a = m a" by simp
  qed
  moreover have "?m (buf + of_nat ?k) = 0" by simp
  ultimately show ?thesis by blast
qed

theorem vsnprintf_bounded_witness:
  "\<exists>m'. vsnprintf 0x1000 3 ''abcd'' [] (\<lambda>_. 7) = Some (4, m') \<and> m' 0x1003 = 7"
proof -
  have o: "vprintfmt ''abcd'' [] = Some [97, 98, 99, 100]" by simp
  obtain m' where "vsnprintf 0x1000 (int 3) ''abcd'' [] (\<lambda>_. 7) = Some (int 4, m')"
    "\<forall>a. \<not> in_range 0x1000 3 a \<longrightarrow> m' a = 7"
    using vsnprintf_bounded [OF o, of "0x1000" 3 "\<lambda>_. 7"] by auto
  then show ?thesis by (intro exI [of _ m']) (simp add: in_range_def)
qed

text \<open>
  The flag for left adjustment does not adjust numbers: \<^verbatim>\<open>%-4d\<close> of a one-digit number
  pads on the left, with three minus signs.
\<close>

theorem printf_minus_flag:
  "vprintfmt ''%-4d'' [Word 7] = Some (map ch_int ''---7'')"
  by (simp add: escape.simps is_digit_def ch_int_def no_flags_def printnum_dec process_precision_def
      digits_value_def dec.simps numeral_3_eq_3)

end
