(* ===== verification/Dispatch.thy ===== *)
theory Dispatch
  imports SyscallInv Mouse E1000 Printfmt
begin

text \<open>
  The whole kernel as one machine: the kernel state, the devices on the screen and the keyboard
  controller, and the network card. On it stand \<^verbatim>\<open>cprintf\<close> (\<^verbatim>\<open>kern/printf.c\<close>), the system
  calls of \<^verbatim>\<open>kern/syscall.c\<close> that use a device, and the dispatcher \<^verbatim>\<open>syscall\<close>. A result is
  \<open>None\<close> when the kernel never returns (an endless drawing loop).
\<close>

section \<open>The machine\<close>

record machine =
  kern :: kstate
  dev :: devices
  nic :: e1000

type_synonym 'a mexec = "('a outcome \<times> machine) exec option"

text \<open>What the hardware supplies from outside during one entry into the kernel.\<close>

record inputs =
  in_cr2 :: u32
  in_icr :: u32
  in_junk :: click_type

definition retM :: "'a \<Rightarrow> machine \<Rightarrow> 'a mexec" where
  "retM x m = Some (Inr (Ret x, m))"

definition bindM :: "'a mexec \<Rightarrow> ('a \<Rightarrow> machine \<Rightarrow> 'b mexec) \<Rightarrow> 'b mexec" where
  "bindM x f =
     (case x of
        None \<Rightarrow> None
      | Some (Inl p) \<Rightarrow> Some (Inl p)
      | Some (Inr (Ret v, m)) \<Rightarrow> f v m
      | Some (Inr (Run e, m)) \<Rightarrow> Some (Inr (Run e, m))
      | Some (Inr (Halt, m)) \<Rightarrow> Some (Inr (Halt, m))
      | Some (Inr (Monitor, m)) \<Rightarrow> Some (Inr (Monitor, m)))"

definition liftK :: "(kstate \<Rightarrow> ('a outcome \<times> kstate) exec) \<Rightarrow> machine \<Rightarrow> 'a mexec" where
  "liftK f m = Some (bindE (f (kern m)) (\<lambda>(r, s). Inr (r, m\<lparr>kern := s\<rparr>)))"

definition liftE :: "(kstate \<Rightarrow> 'a exec) \<Rightarrow> machine \<Rightarrow> 'a mexec" where
  "liftE f m = Some (bindE (f (kern m)) (\<lambda>x. Inr (Ret x, m)))"

text \<open>A write of the kernel through the current page directory.\<close>

definition storeM :: "u8 list \<Rightarrow> u32 \<Rightarrow> machine \<Rightarrow> unit mexec" where
  "storeM bs va m = liftK (\<lambda>s. bindE (store_bytes bs va s) (\<lambda>s1. Inr (Ret (), s1))) m"

definition bytes_of_u32 :: "u32 \<Rightarrow> u8 list" where
  "bytes_of_u32 w = map (\<lambda>k. get_byte k w) [0, 1, 2, 3]"

section \<open>Console output\<close>

text \<open>
  \<^verbatim>\<open>putch\<close> means to count the characters, but \<^verbatim>\<open>*cnt++\<close> advances its own copy of the pointer, so
  the count stays what it was.
\<close>

definition putch :: "int \<Rightarrow> int \<times> console \<Rightarrow> int \<times> console" where
  "putch ch = (\<lambda>(cnt, c). (cnt, cputchar (word_of_int ch) c))"

definition vcprintf :: "string \<Rightarrow> varg list \<Rightarrow> console \<Rightarrow> (int \<times> console) option" where
  "vcprintf fmt ap c =
     (case vprintfmt fmt ap of None \<Rightarrow> None | Some out \<Rightarrow> Some (fold putch out (0, c)))"

definition cprintf :: "string \<Rightarrow> varg list \<Rightarrow> machine \<Rightarrow> int mexec" where
  "cprintf fmt args m =
     (case vcprintf fmt args (con (dev m)) of
        None \<Rightarrow> Some (Inl (Panic ''undefined behaviour in vprintfmt''))
      | Some (cnt, c) \<Rightarrow> retM cnt (m\<lparr>dev := (dev m)\<lparr>con := c\<rparr>\<rparr>))"

text \<open>
  The string that \<^verbatim>\<open>%s\<close> reads from memory, at most \<open>precision\<close> characters of it unless that is
  negative. The loop reads a character before it looks at the precision, so it also reads the
  character behind the last one it prints.
\<close>

partial_function (option) load_str :: "int \<Rightarrow> u32 \<Rightarrow> kstate \<Rightarrow> u8 list exec option" where
  "load_str prec p s =
     (case load_byte p s of
        Inl e \<Rightarrow> Some (Inl e)
      | Inr ch \<Rightarrow>
          if ch = 0 \<or> prec = 0 then Some (Inr [])
          else Option.bind (load_str (prec - 1) (p + 1) s)
                 (\<lambda>r. Some (bindE r (\<lambda>cs. Inr (ch # cs)))))"

definition load_strM :: "int \<Rightarrow> u32 \<Rightarrow> machine \<Rightarrow> u8 list mexec" where
  "load_strM prec p m =
     Option.bind (load_str prec p (kern m)) (\<lambda>r. Some (bindE r (\<lambda>cs. Inr (Ret cs, m))))"

section \<open>System calls that use a device\<close>

definition curM :: "machine \<Rightarrow> nat mexec" where
  "curM m = liftE cur m"

definition sys_cputs :: "u32 \<Rightarrow> u32 \<Rightarrow> machine \<Rightarrow> unit mexec" where
  "sys_cputs p len m =
     bindM (curM m) (\<lambda>c m.
     bindM (liftK (user_mem_assert c p len 0) m) (\<lambda>_ m.
     bindM (if p = 0 then retM None m
            else bindM (load_strM (sint len) p m) (\<lambda>cs m. retM (Some (map (\<lambda>b. char_of (unat b)) cs)) m)) (\<lambda>arg m.
     bindM (cprintf ''%.*s'' [Word len, Str arg] m) (\<lambda>_ m. retM () m))))"

definition sys_cgetc :: "machine \<Rightarrow> int mexec" where
  "sys_cgetc m = (let (c, con') = cons_getc (con (dev m)) in retM c (m\<lparr>dev := (dev m)\<lparr>con := con'\<rparr>\<rparr>))"

definition sys_try_transmit :: "u32 \<Rightarrow> u32 \<Rightarrow> machine \<Rightarrow> int mexec" where
  "sys_try_transmit data len m =
     bindM (curM m) (\<lambda>c m.
     bindM (liftK (user_mem_assert c data len 0) m) (\<lambda>_ m.
       Some (bindE (e1000_transmit data (ucast len) (kern m) (nic m)) (\<lambda>(r, n). Inr (Ret r, m\<lparr>nic := n\<rparr>)))))"

definition sys_receive :: "u32 \<Rightarrow> machine \<Rightarrow> int mexec" where
  "sys_receive buf_idx m =
     (case e1000_receive (nic m) of
        (r, None) \<Rightarrow> retM r m
      | (r, Some i) \<Rightarrow> bindM (storeM (bytes_of_u32 (of_nat i)) buf_idx m) (\<lambda>_ m. retM r m))"

definition sys_get_mac_addr :: "u32 \<Rightarrow> machine \<Rightarrow> unit mexec" where
  "sys_get_mac_addr va m =
     bindM (curM m) (\<lambda>c m.
     bindM (liftK (user_mem_assert c va 6 PTE_W) m) (\<lambda>_ m.
       storeM (map (\<lambda>i. e1000_mac (nic m) ! i) [0..<6]) va m))"

text \<open>
  \<^verbatim>\<open>struct draw_type\<close> has 20 bytes: the shape, the border color and the union, whose structures
  start with 16-bit coordinates. A drawing routine that stores below the frame buffer ends the run.
\<close>

definition lo16 :: "u32 \<Rightarrow> u16" where "lo16 w = ucast w"
definition hi16 :: "u32 \<Rightarrow> u16" where "hi16 w = ucast (drop_bit 16 w)"

definition drawM :: "(screen \<Rightarrow> screen drawn option) \<Rightarrow> machine \<Rightarrow> unit mexec" where
  "drawM f m =
     (case f (scr (dev m)) of
        None \<Rightarrow> None
      | Some (Inl a) \<Rightarrow> Some (Inl (Panic ''store below the frame buffer''))
      | Some (Inr scr') \<Rightarrow> retM () (m\<lparr>dev := (dev m)\<lparr>scr := scr'\<rparr>\<rparr>))"

definition updM :: "(devices \<Rightarrow> devices) \<Rightarrow> machine \<Rightarrow> machine" where
  "updM f m = m\<lparr>dev := f (dev m)\<rparr>"

definition sys_draw :: "u32 \<Rightarrow> machine \<Rightarrow> int mexec" where
  "sys_draw shape m =
     bindM (curM m) (\<lambda>c m.
     bindM (liftK (user_mem_assert c shape 20 PTE_W) m) (\<lambda>_ m.
     bindM (liftE (load_words 5 shape) m) (\<lambda>w m.
       let border_color = ucast (w ! 1) :: u8;
           round = \<lparr>circle_x = lo16 (w ! 2), circle_y = hi16 (w ! 2), circle_radius = lo16 (w ! 3), circle_fill = w ! 4\<rparr>;
           finish = (\<lambda>x. bindM x (\<lambda>_ m. retM 0 (updM mouse_update_color_backup m)))
       in if w ! 0 = 0 then finish (drawM (draw_circle round border_color) m)
          else if w ! 0 = 3 then finish (drawM (draw_diamond round border_color) m)
          else if w ! 0 = 1 then
            finish (drawM (draw_line (lo16 (w ! 2)) (hi16 (w ! 2)) (lo16 (w ! 3)) (hi16 (w ! 3)) border_color) m)
          else if w ! 0 = 2 then
            finish (drawM (draw_rectangle \<lparr>rect_x = lo16 (w ! 2), rect_y = hi16 (w ! 2), rect_width = lo16 (w ! 3),
                             rect_height = hi16 (w ! 3), rect_fill = w ! 4\<rparr> border_color) m)
          else if w ! 0 = 4 then
            finish (bindM (load_strM (- 1) (w ! 3) m) (\<lambda>str m.
                      drawM (\<lambda>scr. Some (draw_string str (lo16 (w ! 2)) (hi16 (w ! 2)) border_color scr)) m))
          else retM (- E_INVAL) m)))"

definition sys_clear_screen :: "machine \<Rightarrow> unit mexec" where
  "sys_clear_screen m =
     bindM (drawM (\<lambda>scr. Some (clear_screen scr)) m) (\<lambda>_ m. retM () (updM mouse_update_color_backup m))"

definition sys_free_rx_buf :: "machine \<Rightarrow> unit mexec" where
  "sys_free_rx_buf m = retM () (m\<lparr>nic := e1000_free_rx_buf (nic m)\<rparr>)"

definition click_code :: "click_type \<Rightarrow> u32" where
  "click_code t = (case t of R_CLICK \<Rightarrow> 0 | L_CLICK \<Rightarrow> 1 | DBL_CLICK \<Rightarrow> 2 | NO_CLICK \<Rightarrow> 3)"

definition sys_mouse_getp :: "inputs \<Rightarrow> u32 \<Rightarrow> machine \<Rightarrow> int mexec" where
  "sys_mouse_getp inp pkt m =
     bindM (curM m) (\<lambda>c m.
     bindM (liftK (user_mem_assert c pkt 12 PTE_W) m) (\<lambda>_ m.
       case mouse_getp (in_junk inp) (time_msec (kern m)) (dev m) of
         (None, d) \<Rightarrow>
           bindM (storeM (bytes_of_u32 (click_code NO_CLICK)) (pkt + 8) (m\<lparr>dev := d\<rparr>)) (\<lambda>_ m. retM (- 1) m)
       | (Some p, d) \<Rightarrow>
           bindM (storeM (bytes_of_u32 (word_of_int (pkt_x p)) @ bytes_of_u32 (word_of_int (pkt_y p)) @
                          bytes_of_u32 (click_code (pkt_type p))) pkt (m\<lparr>dev := d\<rparr>)) (\<lambda>_ m. retM 0 m)))"

section \<open>The dispatcher\<close>

definition SYS_cputs :: u32 where SYS_cputs_def [jos_const]: "SYS_cputs = 0"
definition SYS_cgetc :: u32 where SYS_cgetc_def [jos_const]: "SYS_cgetc = 1"
definition SYS_getenvid :: u32 where SYS_getenvid_def [jos_const]: "SYS_getenvid = 2"
definition SYS_env_destroy :: u32 where SYS_env_destroy_def [jos_const]: "SYS_env_destroy = 3"
definition SYS_page_alloc :: u32 where SYS_page_alloc_def [jos_const]: "SYS_page_alloc = 4"
definition SYS_page_map :: u32 where SYS_page_map_def [jos_const]: "SYS_page_map = 5"
definition SYS_page_unmap :: u32 where SYS_page_unmap_def [jos_const]: "SYS_page_unmap = 6"
definition SYS_exofork :: u32 where SYS_exofork_def [jos_const]: "SYS_exofork = 7"
definition SYS_env_set_status :: u32 where SYS_env_set_status_def [jos_const]: "SYS_env_set_status = 8"
definition SYS_env_set_trapframe :: u32 where SYS_env_set_trapframe_def [jos_const]: "SYS_env_set_trapframe = 9"
definition SYS_env_set_pgfault_upcall :: u32 where
  SYS_env_set_pgfault_upcall_def [jos_const]: "SYS_env_set_pgfault_upcall = 10"
definition SYS_yield :: u32 where SYS_yield_def [jos_const]: "SYS_yield = 11"
definition SYS_ipc_try_send :: u32 where SYS_ipc_try_send_def [jos_const]: "SYS_ipc_try_send = 12"
definition SYS_ipc_recv :: u32 where SYS_ipc_recv_def [jos_const]: "SYS_ipc_recv = 13"
definition SYS_time_msec :: u32 where SYS_time_msec_def [jos_const]: "SYS_time_msec = 14"
definition SYS_change_priority :: u32 where SYS_change_priority_def [jos_const]: "SYS_change_priority = 15"
definition SYS_try_transmit :: u32 where SYS_try_transmit_def [jos_const]: "SYS_try_transmit = 16"
definition SYS_receive :: u32 where SYS_receive_def [jos_const]: "SYS_receive = 17"
definition SYS_env_set_type :: u32 where SYS_env_set_type_def [jos_const]: "SYS_env_set_type = 18"
definition SYS_get_mac_addr :: u32 where SYS_get_mac_addr_def [jos_const]: "SYS_get_mac_addr = 19"
definition SYS_draw :: u32 where SYS_draw_def [jos_const]: "SYS_draw = 20"
definition SYS_clear_screen :: u32 where SYS_clear_screen_def [jos_const]: "SYS_clear_screen = 21"
definition SYS_free_rx_buf :: u32 where SYS_free_rx_buf_def [jos_const]: "SYS_free_rx_buf = 22"
definition SYS_mouse_getp :: u32 where SYS_mouse_getp_def [jos_const]: "SYS_mouse_getp = 23"

definition zeroM :: "unit mexec \<Rightarrow> int mexec" where
  "zeroM x = bindM x (\<lambda>_ m. retM 0 m)"

definition syscall :: "inputs \<Rightarrow> u32 \<Rightarrow> u32 \<Rightarrow> u32 \<Rightarrow> u32 \<Rightarrow> u32 \<Rightarrow> u32 \<Rightarrow> machine \<Rightarrow> int mexec" where
  "syscall inp syscallno a1 a2 a3 a4 a5 m =
     (if syscallno = SYS_cputs then zeroM (sys_cputs a1 a2 m)
      else if syscallno = SYS_cgetc then sys_cgetc m
      else if syscallno = SYS_getenvid then liftK sys_getenvid m
      else if syscallno = SYS_env_destroy then liftK (sys_env_destroy a1) m
      else if syscallno = SYS_yield then liftK sys_yield m
      else if syscallno = SYS_exofork then liftK sys_exofork m
      else if syscallno = SYS_env_set_status then liftK (sys_env_set_status a1 a2) m
      else if syscallno = SYS_page_alloc then liftK (sys_page_alloc a1 a2 a3) m
      else if syscallno = SYS_page_map then liftK (sys_page_map a1 a2 a3 a4 a5) m
      else if syscallno = SYS_page_unmap then liftK (sys_page_unmap a1 a2) m
      else if syscallno = SYS_env_set_pgfault_upcall then liftK (sys_env_set_pgfault_upcall a1 a2) m
      else if syscallno = SYS_ipc_recv then liftK (sys_ipc_recv a1) m
      else if syscallno = SYS_ipc_try_send then liftK (sys_ipc_try_send a1 a2 a3 a4) m
      else if syscallno = SYS_change_priority then liftK (sys_change_priority (ucast a1)) m
      else if syscallno = SYS_env_set_trapframe then liftK (sys_env_set_trapframe a1 a2) m
      else if syscallno = SYS_time_msec then liftK sys_time_msec m
      else if syscallno = SYS_try_transmit then sys_try_transmit a1 a2 m
      else if syscallno = SYS_receive then sys_receive a1 m
      else if syscallno = SYS_env_set_type then liftK (sys_env_set_type a1) m
      else if syscallno = SYS_get_mac_addr then zeroM (sys_get_mac_addr a1 m)
      else if syscallno = SYS_draw then sys_draw a1 m
      else if syscallno = SYS_clear_screen then zeroM (sys_clear_screen m)
      else if syscallno = SYS_free_rx_buf then zeroM (sys_free_rx_buf m)
      else if syscallno = SYS_mouse_getp then sys_mouse_getp inp a1 m
      else retM (- E_INVAL) m)"

end
