(* ===== verification/Trap.thy ===== *)
theory Trap
  imports Dispatch
begin

text \<open>
  Entry into the kernel (\<^verbatim>\<open>kern/trap.c\<close>): the interrupt descriptor table, the task state of a
  CPU, the page fault handler with its user-level upcall, and \<^verbatim>\<open>trap\<close> itself, through which
  every system call, exception and interrupt goes. There is no other CPU, so \<^verbatim>\<open>panicstr\<close> is
  null, and the interrupt gates have cleared the interrupt flag that \<^verbatim>\<open>trap\<close> asserts to be
  clear. The kernel monitor that a breakpoint starts is the outcome \<open>Monitor\<close>.
\<close>

section \<open>Trap numbers\<close>

definition T_BRKPT :: u32 where T_BRKPT_def [jos_const]: "T_BRKPT = 3"
definition T_PGFLT :: u32 where T_PGFLT_def [jos_const]: "T_PGFLT = 14"
definition T_SYSCALL :: u32 where T_SYSCALL_def [jos_const]: "T_SYSCALL = 48"
definition IRQ_OFFSET :: u32 where IRQ_OFFSET_def [jos_const]: "IRQ_OFFSET = 32"
definition IRQ_TIMER :: u32 where IRQ_TIMER_def [jos_const]: "IRQ_TIMER = 0"
definition IRQ_KBD :: u32 where IRQ_KBD_def [jos_const]: "IRQ_KBD = 1"
definition IRQ_SERIAL :: u32 where IRQ_SERIAL_def [jos_const]: "IRQ_SERIAL = 4"
definition IRQ_SPURIOUS :: u32 where IRQ_SPURIOUS_def [jos_const]: "IRQ_SPURIOUS = 7"
definition IRQ_E1000 :: u32 where IRQ_E1000_def [jos_const]: "IRQ_E1000 = 11"
definition IRQ_MOUSE :: u32 where IRQ_MOUSE_def [jos_const]: "IRQ_MOUSE = 12"
definition IRQ_IDE :: u32 where IRQ_IDE_def [jos_const]: "IRQ_IDE = 14"
definition IRQ_ERROR :: u32 where IRQ_ERROR_def [jos_const]: "IRQ_ERROR = 19"

definition excnames :: "string list" where
  "excnames = [''Divide error'', ''Debug'', ''Non-Maskable Interrupt'', ''Breakpoint'', ''Overflow'',
     ''BOUND Range Exceeded'', ''Invalid Opcode'', ''Device Not Available'', ''Double Fault'',
     ''Coprocessor Segment Overrun'', ''Invalid TSS'', ''Segment Not Present'', ''Stack Fault'',
     ''General Protection'', ''Page Fault'', ''(unknown trap)'', ''x87 FPU Floating-Point Error'',
     ''Alignment Check'', ''Machine-Check'', ''SIMD Floating-Point Exception'']"

definition trapname :: "u32 \<Rightarrow> string" where
  "trapname trapno =
     (if unat trapno < length excnames then excnames ! unat trapno
      else if trapno = T_SYSCALL then ''System call''
      else if sint trapno \<ge> sint IRQ_OFFSET \<and> sint trapno < sint IRQ_OFFSET + 16 then ''Hardware Interrupt''
      else ''(unknown trap)'')"

section \<open>Descriptor tables\<close>

type_synonym idt = "u32 \<Rightarrow> Gatedesc"

definition set_gate :: "(u32 \<Rightarrow> u32) \<Rightarrow> 2 word \<Rightarrow> u32 \<Rightarrow> idt \<Rightarrow> idt" where
  "set_gate handlers dpl i t = t(i := SETGATE False GD_KT (handlers i) dpl)"

text \<open>\<open>handlers\<close> is the table of entry points that the assembly file fills.\<close>

definition idt_gates :: "(u32 \<Rightarrow> u32) \<Rightarrow> idt \<Rightarrow> idt" where
  "idt_gates handlers t =
     (let t1 = fold (\<lambda>i t. if i = 9 \<or> i = 15 then t
                           else if i = T_BRKPT then set_gate handlers 3 i t
                           else set_gate handlers 0 i t) (map of_nat [0..<20]) t;
          t2 = set_gate handlers 3 T_SYSCALL t1
      in fold (\<lambda>i. set_gate handlers 0 (IRQ_OFFSET + i))
           [IRQ_TIMER, IRQ_KBD, IRQ_SERIAL, IRQ_SPURIOUS, IRQ_E1000, IRQ_MOUSE, IRQ_IDE, IRQ_ERROR] t2)"

definition STS_T32A :: "4 word" where STS_T32A_def [jos_const]: "STS_T32A = 0x9"
definition GD_KD :: u16 where GD_KD_def [jos_const]: "GD_KD = 0x10"
definition GD_TSS0 :: u16 where GD_TSS0_def [jos_const]: "GD_TSS0 = 0x28"

definition SEG16 :: "4 word \<Rightarrow> u32 \<Rightarrow> u32 \<Rightarrow> 2 word \<Rightarrow> Segdesc" where
  "SEG16 type base lim dpl =
     \<lparr>sd_lim_15_0 = ucast (lim AND 0xffff), sd_base_15_0 = ucast (base AND 0xffff),
      sd_base_23_16 = ucast (drop_bit 16 base AND 0xff), sd_type = type, sd_s = 1, sd_dpl = dpl,
      sd_p = 1, sd_lim_19_16 = ucast (drop_bit 16 lim), sd_avl = 0, sd_rsv1 = 0, sd_db = 1,
      sd_g = 0, sd_base_31_24 = ucast (drop_bit 24 base)\<rparr>"

text \<open>
  The stack pointer and the segment of a CPU's task state, the descriptor table with the
  CPU's slot filled (\<open>tss\<close> is the address of its task state, which has 104 bytes), the task
  register and the limit of the interrupt descriptor table that \<^verbatim>\<open>lidt\<close> loads (256 gates of 8 bytes).
\<close>

record percpu =
  ts_esp0 :: u32
  ts_ss0 :: u16
  gdt :: "nat \<Rightarrow> Segdesc"
  task_reg :: u16
  idt_limit :: u16

definition trap_init_percpu :: "nat \<Rightarrow> u32 \<Rightarrow> percpu \<Rightarrow> percpu" where
  "trap_init_percpu cpu_index tss p =
     p\<lparr>ts_esp0 := KSTACKTOP - of_nat cpu_index * (KSTKGAP + KSTKSIZE),
       ts_ss0 := GD_KD,
       gdt := (gdt p)(unat (drop_bit 3 GD_TSS0) + cpu_index := (SEG16 STS_T32A tss (104 - 1) 0)\<lparr>sd_s := 0\<rparr>),
       task_reg := GD_TSS0 + of_nat (cpu_index * 8),
       idt_limit := 256 * 8 - 1\<rparr>"

definition trap_init :: "(u32 \<Rightarrow> u32) \<Rightarrow> nat \<Rightarrow> u32 \<Rightarrow> idt \<times> percpu \<Rightarrow> idt \<times> percpu" where
  "trap_init handlers cpu_index tss = (\<lambda>(t, p). (idt_gates handlers t, trap_init_percpu cpu_index tss p))"

section \<open>Printing a trap frame\<close>

definition printM :: "string \<Rightarrow> varg list \<Rightarrow> machine \<Rightarrow> unit mexec" where
  "printM fmt args m = bindM (cprintf fmt args m) (\<lambda>_ m. retM () m)"

text \<open>A list of \<^verbatim>\<open>cprintf\<close> calls, and a string with a newline behind it.\<close>

primrec printsM :: "(string \<times> varg list) list \<Rightarrow> machine \<Rightarrow> unit mexec" where
  "printsM [] m = retM () m"
| "printsM (p # ps) m = bindM (printM (fst p) (snd p) m) (\<lambda>_ m. printsM ps m)"

definition ln :: "string \<Rightarrow> string" where
  "ln s = s @ [CHR 0x0A]"

definition print_regs :: "PushRegs \<Rightarrow> machine \<Rightarrow> unit mexec" where
  "print_regs regs m = printsM
     [(ln ''  edi  0x%08x'', [Word (reg_edi regs)]), (ln ''  esi  0x%08x'', [Word (reg_esi regs)]),
      (ln ''  ebp  0x%08x'', [Word (reg_ebp regs)]), (ln ''  oesp 0x%08x'', [Word (reg_oesp regs)]),
      (ln ''  ebx  0x%08x'', [Word (reg_ebx regs)]), (ln ''  edx  0x%08x'', [Word (reg_edx regs)]),
      (ln ''  ecx  0x%08x'', [Word (reg_ecx regs)]), (ln ''  eax  0x%08x'', [Word (reg_eax regs)])] m"

text \<open>\<open>va\<close> is the address of the frame, \<open>is_last\<close> whether it is \<^verbatim>\<open>last_tf\<close>.\<close>

definition print_trapframe :: "inputs \<Rightarrow> u32 \<Rightarrow> bool \<Rightarrow> Trapframe \<Rightarrow> machine \<Rightarrow> unit mexec" where
  "print_trapframe inp va is_last tf m =
     bindM (printM (ln ''TRAP frame at %p from CPU %d'') [Word va, Word (of_nat (cpunum (kern m)))] m) (\<lambda>_ m.
     bindM (print_regs (tf_regs tf) m) (\<lambda>_ m.
     printsM
       ([(ln ''  es   0x----%04x'', [Word (ucast (tf_es tf))]), (ln ''  ds   0x----%04x'', [Word (ucast (tf_ds tf))]),
         (ln ''  trap 0x%08x %s'', [Word (tf_trapno tf), Str (Some (trapname (tf_trapno tf)))])] @
        (if is_last \<and> tf_trapno tf = T_PGFLT then [(ln ''  cr2  0x%08x'', [Word (in_cr2 inp)])] else []) @
        [(''  err  0x%08x'', [Word (tf_err tf)])] @
        (if tf_trapno tf = T_PGFLT
         then [(ln '' [%s, %s, %s]'', [Str (Some (if tf_err tf AND 4 \<noteq> 0 then ''user'' else ''kernel'')),
                  Str (Some (if tf_err tf AND 2 \<noteq> 0 then ''write'' else ''read'')),
                  Str (Some (if tf_err tf AND 1 \<noteq> 0 then ''protection'' else ''not-present''))])]
         else [(ln '''', [])]) @
        [(ln ''  eip  0x%08x'', [Word (tf_eip tf)]), (ln ''  cs   0x----%04x'', [Word (ucast (tf_cs tf))]),
         (ln ''  flag 0x%08x'', [Word (tf_eflags tf)])] @
        (if tf_cs tf AND 3 \<noteq> 0
         then [(ln ''  esp  0x%08x'', [Word (tf_esp tf)]), (ln ''  ss   0x----%04x'', [Word (ucast (tf_ss tf))])]
         else [])) m))"

section \<open>Page faults\<close>

record UTrapframe =
  utf_fault_va :: u32
  utf_err :: u32
  utf_regs :: PushRegs
  utf_eip :: u32
  utf_eflags :: u32
  utf_esp :: u32

definition words_of_utf :: "UTrapframe \<Rightarrow> u32 list" where
  "words_of_utf u =
     [utf_fault_va u, utf_err u, reg_edi (utf_regs u), reg_esi (utf_regs u), reg_ebp (utf_regs u),
      reg_oesp (utf_regs u), reg_ebx (utf_regs u), reg_edx (utf_regs u), reg_ecx (utf_regs u),
      reg_eax (utf_regs u), utf_eip u, utf_eflags u, utf_esp u]"

definition utf_frame :: "u32 \<Rightarrow> u32" where
  "utf_frame esp = (if esp \<ge> UXSTACKTOP - PGSIZE \<and> esp < UXSTACKTOP then esp - 4 - 52 else UXSTACKTOP - 52)"

definition page_fault_handler :: "inputs \<Rightarrow> u32 \<Rightarrow> Trapframe \<Rightarrow> machine \<Rightarrow> unit mexec" where
  "page_fault_handler inp va tf m =
     (let fault_va = in_cr2 inp in
      if tf_cs tf AND 3 = 0 then Some (Inl (Panic ''Page fault in kernel mode''))
      else bindM (curM m) (\<lambda>c m.
        if env_pgfault_upcall (envs (kern m) c) \<noteq> 0 then
          (let frame = utf_frame (tf_esp tf);
               utf = \<lparr>utf_fault_va = fault_va, utf_err = tf_err tf, utf_regs = tf_regs tf, utf_eip = tf_eip tf,
                      utf_eflags = tf_eflags tf, utf_esp = tf_esp tf\<rparr>
           in bindM (liftK (user_mem_assert c frame 52 (PTE_W OR PTE_U)) m) (\<lambda>_ m.
              bindM (storeM (concat (map bytes_of_u32 (words_of_utf utf))) frame m) (\<lambda>_ m.
              liftK (\<lambda>s. env_run (curenv s)
                (upd_env c (\<lambda>v. v\<lparr>env_tf := (env_tf v)\<lparr>tf_eip := env_pgfault_upcall v, tf_esp := frame\<rparr>\<rparr>) s)) m)))
        else
          bindM (printM (ln ''[%08x] user fault va %08x ip %08x'')
                   [Word (env_id (envs (kern m) c)), Word fault_va, Word (tf_eip tf)] m) (\<lambda>_ m.
          bindM (print_trapframe inp va True tf m) (\<lambda>_ m.
          liftK (env_destroy c) m))))"

section \<open>Dispatch\<close>

text \<open>
  \<open>home\<close> says where the frame is: \<open>Some c\<close> for the saved frame of environment \<open>c\<close>, to which the
  result of a system call goes, \<open>None\<close> for the kernel's stack.
\<close>

definition set_result :: "nat option \<Rightarrow> int \<Rightarrow> machine \<Rightarrow> machine" where
  "set_result home r m =
     (case home of
        None \<Rightarrow> m
      | Some c \<Rightarrow> m\<lparr>kern := upd_env c (\<lambda>v. v\<lparr>env_tf :=
           (env_tf v)\<lparr>tf_regs := (tf_regs (env_tf v))\<lparr>reg_eax := word_of_int r\<rparr>\<rparr>\<rparr>) (kern m)\<rparr>)"

definition trap_dispatch :: "inputs \<Rightarrow> u32 \<Rightarrow> nat option \<Rightarrow> Trapframe \<Rightarrow> machine \<Rightarrow> unit mexec" where
  "trap_dispatch inp va home tf m =
     (let no = tf_trapno tf; r = tf_regs tf in
      if no = T_PGFLT then page_fault_handler inp va tf m
      else if no = T_BRKPT then Some (Inr (Monitor, m))
      else if no = T_SYSCALL then
        bindM (syscall inp (reg_eax r) (reg_edx r) (reg_ecx r) (reg_ebx r) (reg_edi r) (reg_esi r) m)
          (\<lambda>x m. retM () (set_result home x m))
      else if no = IRQ_OFFSET + IRQ_SPURIOUS then
        bindM (printM (ln ''Spurious interrupt on irq 7'') [] m) (\<lambda>_ m. print_trapframe inp va True tf m)
      else if no = IRQ_OFFSET + IRQ_TIMER then
        bindM (if cpunum (kern m) = 0
               then liftK (\<lambda>s. bindE (time_tick s) (\<lambda>s1. Inr (Ret (), s1))) m
               else retM () m) (\<lambda>_ m. liftK sched_yield m)
      else if no = IRQ_OFFSET + IRQ_KBD then
        retM () (updM (\<lambda>d. d\<lparr>con := kbd_intr (con d)\<rparr>) m)
      else if no = IRQ_OFFSET + IRQ_SERIAL then
        retM () (updM (\<lambda>d. d\<lparr>con := serial_intr (con d)\<rparr>) m)
      else if no = IRQ_OFFSET + IRQ_E1000 then
        (let (s, n) = e1000_intr (in_icr inp) (kern m) (nic m) in retM () (m\<lparr>kern := s, nic := n\<rparr>))
      else if no = IRQ_OFFSET + IRQ_MOUSE then
        retM () (updM (mouse_intr (in_junk inp) (time_msec (kern m))) m)
      else
        bindM (print_trapframe inp va True tf m) (\<lambda>_ m.
          if tf_cs tf = GD_KT then Some (Inl (Panic ''unhandled trap in kernel''))
          else bindM (curM m) (\<lambda>c m. liftK (env_destroy c) m)))"

definition trap_lock :: "kstate \<Rightarrow> kstate exec" where
  "trap_lock s =
     (let s1 = s\<lparr>cpu_status := CPU_STARTED\<rparr>
      in if cpu_status s = CPU_HALTED then lock_kernel s1 else Inr s1)"

text \<open>The end of \<^verbatim>\<open>trap\<close>: back to the current environment, or to another one.\<close>

definition trap_return :: "machine \<Rightarrow> unit mexec" where
  "trap_return m = liftK (\<lambda>s.
     case curenv s of
       Some c \<Rightarrow> if env_status (envs s c) = ENV_RUNNING then env_run (Some c) s else sched_yield s
     | None \<Rightarrow> sched_yield s) m"

definition trap :: "inputs \<Rightarrow> u32 \<Rightarrow> Trapframe \<Rightarrow> machine \<Rightarrow> unit mexec" where
  "trap inp va tf m0 =
     bindM (liftK (\<lambda>s. bindE (trap_lock s) (\<lambda>s1. Inr (Ret (), s1))) m0) (\<lambda>_ m1.
     if tf_cs tf AND 3 = 3 then
       bindM (liftK (\<lambda>s. bindE (lock_kernel s) (\<lambda>s1. Inr (Ret (), s1))) m1) (\<lambda>_ m2.
       case curenv (kern m2) of
         None \<Rightarrow> Some (Inl (Panic ''assertion failed: curenv''))
       | Some c \<Rightarrow>
           if env_status (envs (kern m2) c) = ENV_DYING then
             liftK (\<lambda>s. bindE (env_free c s) (\<lambda>s1. sched_yield (s1\<lparr>curenv := None\<rparr>))) m2
           else
             bindM (trap_dispatch inp va (Some c) tf
                      (m2\<lparr>kern := upd_env c (\<lambda>v. v\<lparr>env_tf := tf\<rparr>) (kern m2)\<rparr>)) (\<lambda>_ m. trap_return m))
     else bindM (trap_dispatch inp va None tf m1) (\<lambda>_ m. trap_return m))"

end
