(* ===== verification/TrapInv.thy ===== *)
theory TrapInv
  imports Trap
begin

text \<open>
  What holds when the kernel hands the CPU back: every entry through \<^verbatim>\<open>trap\<close> from a running
  environment ends with the kernel invariant intact, in a live environment that runs on its own
  page directory with the lock released, in a halted CPU or in the monitor.
\<close>

section \<open>Stores into user memory\<close>

lemma kinv_set_word:
  assumes k: "kinv s" and m: "mappers (dirs s) s f \<noteq> {}"
  shows "kinv (set_word f i w s)" and "same_view (dirs s) s (set_word f i w s)"
    and "dirs (set_word f i w s) = dirs s" and "live (set_word f i w s) e = live s e"
proof -
  let ?t = "set_word f i w s"
  have mp: "mappable (dirs s) s f" by (rule vm_invD(9) [OF kinvD(2) [OF k] m])
  have pm: "pmem ?t g = pmem s g" if "g \<in> dirs s \<union> tables (dirs s) s" for g
    using that mp by (auto simp: mappable_def)
  note V = view_elsewhere [where D = "dirs s" and s = s and t = ?t, OF pm]
  have E: "envs ?t = envs s" "env_free_list ?t = env_free_list s" by simp_all
  note C = env_cong [OF E]
  show "same_view (dirs s) s ?t" by (rule V(3))
  show "dirs ?t = dirs s" "live ?t e = live s e" by (rule C)+
  have fp: "free_pages ?t = free_pages s" "alloc_inv ?t = alloc_inv s"
    by (simp_all add: free_pages_def alloc_inv_def)
  have tb: "tables (dirs s) ?t = tables (dirs s) s" and mb: "mappers (dirs s) ?t = mappers (dirs s) s"
    by (rule V(1), assumption) (rule V(4), assumption)
  have "tables_ok (dirs s) ?t" using kinvD(2) [OF k] V(2) by (simp add: vm_inv_def)
  then have "vm_inv (dirs s) ?t"
    using kinvD(2) [OF k] by (simp add: vm_inv_def mappable_def tb mb fp)
  moreover have "f \<noteq> kern_pgdir s" using m kinvD(3) [OF k] by (auto simp: kern_ok_def)
  then have "kern_ok (dirs s) ?t"
    using kinvD(3) [OF k] by (simp add: kern_ok_def reserved_def tb mb fp pde_present_def)
  ultimately show "kinv ?t" unfolding kinv_def C using kinvD(1) [OF k] by blast
qed

definition user_ctx :: "kstate \<Rightarrow> nat \<Rightarrow> bool" where
  "user_ctx s c \<longleftrightarrow> in_call s c \<and> env_pgdir (envs s c) = Some (cr3 s)"

text \<open>What such a store leaves alone.\<close>

definition store_same :: "kstate \<Rightarrow> kstate \<Rightarrow> bool" where
  "store_same s t \<longleftrightarrow> kinv t \<and> envs t = envs s \<and> curenv t = curenv s \<and> cr3 t = cr3 s \<and> cpu_same s t \<and>
     dirs t = dirs s \<and> (\<forall>e. live t e = live s e) \<and> same_view (dirs s) s t \<and> env_free_list t = env_free_list s"

lemma store_same_trans: "store_same s t \<Longrightarrow> store_same t u \<Longrightarrow> store_same s u"
  by (auto simp: store_same_def cpu_same_def same_view_def)

lemma store_byte_user:
  assumes k: "kinv s" and d: "cr3 s \<in> dirs s" and va: "va < UTOP" and al: "allowed s (cr3 s) perm va"
    and w: "perm AND PTE_W \<noteq> 0"
  shows "\<exists>t. store_byte va b s = Inr t \<and> store_same s t"
proof -
  obtain e where e: "pte_at s (cr3 s) (unat (PDX va)) (unat (PTX va)) = Some e" "e AND perm = perm"
    using al by (auto simp: allowed_def split: option.splits)
  have "(cr3 s, unat (PDX va), unat (PTX va)) \<in> mappers (dirs s) s (unat (PGNUM e))"
    using e(1) d va PTX_bound [of va] by (simp add: mappers_def user_va_iff)
  then have m: "mappers (dirs s) s (unat (PGNUM e)) \<noteq> {}" by blast
  have "e AND PTE_W \<noteq> 0" using e(2) w by (metis and.assoc and.commute and_zero_eq)
  then show ?thesis using e(1) kinv_set_word [OF k m]
    by (simp add: store_byte_def Let_def store_same_def cpu_same_def)
qed

lemma allowed_same:
  assumes "store_same s t" and "d \<in> dirs s" and "a < UTOP"
  shows "allowed t d perm a = allowed s d perm a"
  using assms by (simp add: store_same_def same_view_def allowed_def user_va_iff)

lemma store_bytes_user:
  assumes "perm AND PTE_W \<noteq> 0"
  shows "kinv s \<Longrightarrow> cr3 s \<in> dirs s \<Longrightarrow> unat va + length bs \<le> unat UTOP \<Longrightarrow>
    (\<And>b. va \<le> b \<Longrightarrow> unat b < unat va + length bs \<Longrightarrow> allowed s (cr3 s) perm b) \<Longrightarrow>
    \<exists>t. store_bytes bs va s = Inr t \<and> store_same s t"
proof (induction bs arbitrary: va s)
  case Nil
  then show ?case by (simp add: store_same_def cpu_same_def same_view_def)
next
  case (Cons b bs)
  have va: "va < UTOP" using Cons.prems(3) by (simp add: word_less_nat_alt)
  have u1: "unat (va + 1) = unat va + 1"
    using Cons.prems(3) by (simp add: unat_word_ariths jos_const)
  have "allowed s (cr3 s) perm va" using Cons.prems(4) by simp
  from store_byte_user [OF Cons.prems(1,2) va this assms] obtain t
    where t: "store_byte va b s = Inr t" "store_same s t" by blast
  have c: "cr3 t = cr3 s" "dirs t = dirs s" "kinv t" using t(2) by (simp_all add: store_same_def)
  have "allowed t (cr3 t) perm a" if "va + 1 \<le> a" "unat a < unat (va + 1) + length bs" for a
  proof -
    have "va \<le> a" "unat a < unat va + length (b # bs)"
      using that u1 by (simp_all add: word_le_nat_alt)
    moreover from this have "a < UTOP" using Cons.prems(3) by (simp add: word_less_nat_alt)
    ultimately show ?thesis using Cons.prems(2,4) allowed_same [OF t(2)] c by simp
  qed
  then obtain u where "store_bytes bs (va + 1) t = Inr u" "store_same t u"
    using Cons.IH [of t "va + 1"] c Cons.prems(2,3) u1 by auto
  then show ?case using t store_same_trans by auto
qed

lemma user_mem_assert_cur:
  fixes va len perm :: u32
  assumes c: "user_ctx s c" and l: "0 < len" and r: "unat va + unat len \<le> unat UTOP"
  shows "user_mem_assert c va len perm s = Inr (Ret (), s) \<and>
      (\<forall>b. va \<le> b \<and> unat b < unat va + unat len \<longrightarrow> allowed s (cr3 s) (perm OR PTE_U OR PTE_P) b) \<or>
    (\<exists>r s'. user_mem_assert c va len perm s = Inr (r, s') \<and> out_ok r s' \<and> (\<forall>x. r \<noteq> Ret x))"
proof -
  have ic: "in_call s c" and p: "env_pgdir (envs s c) = Some (cr3 s)" using c by (simp_all add: user_ctx_def)
  note k = in_callD(1) [OF ic] and lv = in_callD(4) [OF ic]
  have d: "cr3 s \<in> dirs s" using dirsI [OF lv p] .
  consider "user_mem_check (cr3 s) va len (perm OR PTE_U) s = Inr (0, s)"
      "\<forall>b. va \<le> b \<and> unat b < unat va + unat len \<longrightarrow> allowed s (cr3 s) (perm OR PTE_U OR PTE_P) b"
    | b where "user_mem_check (cr3 s) va len (perm OR PTE_U) s = Inr (- E_FAULT, s\<lparr>user_mem_check_addr := b\<rparr>)"
    using user_mem_check_spec [OF kinvD(2) [OF k] d l r, of "perm OR PTE_U"] by (auto simp: or.assoc)
  then show ?thesis
  proof cases
    case 1
    then show ?thesis by (simp add: user_mem_assert_def env_dir_def p)
  next
    case (2 b)
    let ?s = "s\<lparr>user_mem_check_addr := b\<rparr>"
    have "kinv ?s" "cur_ok ?s" "live ?s c" using ic lv by (simp_all add: in_call_def cur_ok_def)
    from env_destroy_spec [OF this] obtain r s' where
      "env_destroy c ?s = Inr (r, s')" "out_ok r s'" "\<forall>x. r = Ret x \<longrightarrow> curenv ?s \<noteq> Some c" by blast
    moreover have "curenv ?s = Some c" using in_callD(3) [OF ic] by simp
    ultimately show ?thesis using 2 by (simp add: user_mem_assert_def env_dir_def p E_FAULT_def)
  qed
qed

section \<open>Reading user memory\<close>

definition range_ok :: "kstate \<Rightarrow> u32 \<Rightarrow> u32 \<Rightarrow> nat \<Rightarrow> bool" where
  "range_ok s perm va n \<longleftrightarrow> unat va + n \<le> unat UTOP \<and>
     (\<forall>b. va \<le> b \<and> unat b < unat va + n \<longrightarrow> allowed s (cr3 s) perm b)"

lemma range_okD: "range_ok s perm va n \<Longrightarrow> 0 < n \<Longrightarrow> allowed s (cr3 s) perm va"
  "range_ok s perm va n \<Longrightarrow> 0 < n \<Longrightarrow> va < UTOP"
  by (simp_all add: range_ok_def word_less_nat_alt)

lemma range_ok_next:
  assumes r: "range_ok s perm va n" and k: "k \<le> n"
  shows "range_ok s perm (va + of_nat k) (n - k)"
proof -
  have b: "unat va + n < 4294967296" using r by (simp add: range_ok_def jos_const)
  then have u: "unat (va + of_nat k) = unat va + k" using k by (simp add: unat_word_ariths unat_of_nat)
  show ?thesis using r k unfolding range_ok_def word_le_nat_alt u by auto
qed

lemma load_byte_user: "allowed s (cr3 s) perm va \<Longrightarrow> \<exists>b. load_byte va s = Inr b"
  by (auto simp: allowed_def load_byte_def split: option.splits)

lemma load_u32_user:
  assumes "range_ok s perm va n" and "4 \<le> n"
  shows "\<exists>w. load_u32 va s = Inr w"
proof -
  have "\<exists>b. load_byte (va + of_nat k) s = Inr b" if "k < 4" for k
    using load_byte_user [OF range_okD(1) [OF range_ok_next [OF assms(1), of k]]] that assms(2) by simp
  from this [of 0] this [of 1] this [of 2] this [of 3] show ?thesis by (auto simp: load_u32_def)
qed

lemma load_words_user:
  "range_ok s perm va (4 * n) \<Longrightarrow> \<exists>ws. load_words n va s = Inr ws"
proof (induction n arbitrary: va)
  case (Suc n)
  obtain w where "load_u32 va s = Inr w" using load_u32_user [OF Suc.prems] by auto
  moreover obtain ws where "load_words n (va + 4) s = Inr ws"
    using Suc.IH [of "va + 4"] range_ok_next [OF Suc.prems, of 4] by auto
  ultimately show ?case by simp
qed simp

lemma load_str_user:
  "range_ok s perm p (Suc n) \<Longrightarrow> \<exists>cs. load_str (int n) p s = Some (Inr cs)"
proof (induction n arbitrary: p)
  case 0
  obtain b where "load_byte p s = Inr b" using load_byte_user [OF range_okD(1) [OF 0]] by auto
  then show ?case by (simp add: load_str.simps)
next
  case (Suc n)
  obtain b where b: "load_byte p s = Inr b" using load_byte_user [OF range_okD(1) [OF Suc.prems]] by auto
  obtain cs where "load_str (int n) (p + 1) s = Some (Inr cs)"
    using Suc.IH [of "p + 1"] range_ok_next [OF Suc.prems, of 1] by auto
  then show ?case using b by (subst load_str.simps) simp
qed

section \<open>Contracts on the machine\<close>

definition mok :: "'a mexec \<Rightarrow> bool" where
  "mok x \<longleftrightarrow> (\<exists>r m. x = Some (Inr (r, m)) \<and> out_ok r (kern m))"

lemma bindM_simps [simp]:
  "bindM (retM x m) f = f x m" "bindM (Some (Inl p)) f = Some (Inl p)" "bindM None f = None"
  "bindM (Some (Inr (Ret x, m))) f = f x m"
  "bindM (Some (Inr (Run e, m))) f = Some (Inr (Run e, m))"
  "bindM (Some (Inr (Halt, m))) f = Some (Inr (Halt, m))"
  "bindM (Some (Inr (Monitor, m))) f = Some (Inr (Monitor, m))"
  by (simp_all add: bindM_def retM_def)

lemma retM_eq [simp]: "retM x m = retM y m' \<longleftrightarrow> x = y \<and> m = m'"
  by (auto simp: retM_def)

lemma mok_retM: "mok (retM x m) \<longleftrightarrow> kinv (kern m) \<and> cur_ok (kern m)"
  by (simp add: mok_def retM_def out_ok_def)

lemma mok_bind:
  assumes "mok x" and "\<And>v m. x = Some (Inr (Ret v, m)) \<Longrightarrow> kinv (kern m) \<Longrightarrow> cur_ok (kern m) \<Longrightarrow> mok (f v m)"
  shows "mok (bindM x f)"
proof -
  obtain r m where x: "x = Some (Inr (r, m))" "out_ok r (kern m)" using assms(1) by (auto simp: mok_def)
  show ?thesis using x assms(2) by (cases r) (auto simp: mok_def out_ok_def)
qed

lemma mok_liftK: "sys_ok (f (kern m)) \<Longrightarrow> mok (liftK f m)"
  by (auto simp: mok_def sys_ok_def liftK_def)

lemma user_ctxD:
  assumes "user_ctx s c"
  shows "in_call s c" "kinv s" "cur_ok s" "live s c" "cr3 s \<in> dirs s" "curenv s = Some c"
  using assms in_callD [of s c] dirsI [of s c "cr3 s"] by (simp_all add: user_ctx_def)

lemma bind_curM: "user_ctx (kern m) c \<Longrightarrow> bindM (curM m) f = f c m"
  using in_callD(5) [OF user_ctxD(1)] by (simp add: curM_def liftE_def)

lemma mok_user_mem_assert:
  assumes c: "user_ctx (kern m) c" and l: "0 < len" and r: "unat va + unat len \<le> unat UTOP"
    and f: "range_ok (kern m) (perm OR PTE_U OR PTE_P) va (unat len) \<Longrightarrow> mok (f () m)"
  shows "mok (bindM (liftK (user_mem_assert c va len perm) m) f)"
  using user_mem_assert_cur [OF c l r, of perm]
proof
  assume "user_mem_assert c va len perm (kern m) = Inr (Ret (), kern m) \<and>
      (\<forall>b. va \<le> b \<and> unat b < unat va + unat len \<longrightarrow> allowed (kern m) (cr3 (kern m)) (perm OR PTE_U OR PTE_P) b)"
  then show ?thesis using f r by (simp add: liftK_def range_ok_def)
next
  assume "\<exists>r s'. user_mem_assert c va len perm (kern m) = Inr (r, s') \<and> out_ok r s' \<and> (\<forall>x. r \<noteq> Ret x)"
  then obtain q s' where q: "user_mem_assert c va len perm (kern m) = Inr (q, s')" "out_ok q s'" "\<forall>x. q \<noteq> Ret x" by blast
  then show ?thesis by (cases q) (auto simp: liftK_def mok_def out_ok_def)
qed

lemma user_ctx_store:
  assumes "user_ctx s c" and "store_same s t"
  shows "user_ctx t c"
  using assms cur_ok_same [of s t] by (auto simp: user_ctx_def in_call_def store_same_def)

lemma mok_storeM:
  assumes c: "user_ctx (kern m) c" and r: "range_ok (kern m) perm va (length bs)" and w: "perm AND PTE_W \<noteq> 0"
    and f: "\<And>m'. store_same (kern m) (kern m') \<Longrightarrow> user_ctx (kern m') c \<Longrightarrow> dev m' = dev m \<Longrightarrow> nic m' = nic m \<Longrightarrow> mok (f () m')"
  shows "mok (bindM (storeM bs va m) f)"
proof -
  obtain t where t: "store_bytes bs va (kern m) = Inr t" "store_same (kern m) t"
    using store_bytes_user [OF w user_ctxD(2,5) [OF c], of va bs] r unfolding range_ok_def by blast
  have "mok (f () (m\<lparr>kern := t\<rparr>))" using f [of "m\<lparr>kern := t\<rparr>"] t(2) user_ctx_store [OF c t(2)] by simp
  then show ?thesis using t(1) by (simp add: storeM_def liftK_def)
qed

lemma cprintf_ok:
  assumes "vprintfmt fmt args \<noteq> None"
  shows "\<exists>n m'. cprintf fmt args m = retM n m' \<and> kern m' = kern m \<and> nic m' = nic m"
  using assms by (auto simp: cprintf_def vcprintf_def split: option.split prod.split)

lemma printM_ok:
  assumes "vprintfmt fmt args \<noteq> None"
  shows "\<exists>m'. printM fmt args m = retM () m' \<and> kern m' = kern m \<and> nic m' = nic m"
  using cprintf_ok [OF assms, of m] by (auto simp: printM_def)

lemma printsM_ok:
  "(\<forall>p \<in> set ps. vprintfmt (fst p) (snd p) \<noteq> None) \<Longrightarrow>
     \<exists>m'. printsM ps m = retM () m' \<and> kern m' = kern m \<and> nic m' = nic m"
proof (induction ps arbitrary: m)
  case (Cons p ps)
  obtain m1 where m1: "printM (fst p) (snd p) m = retM () m1" "kern m1 = kern m" "nic m1 = nic m"
    using printM_ok [of "fst p" "snd p" m] Cons.prems by auto
  obtain m2 where "printsM ps m1 = retM () m2" "kern m2 = kern m1" "nic m2 = nic m1"
    using Cons.IH [of m1] Cons.prems by auto
  then show ?case using m1 by simp
qed (simp add: retM_def)

lemmas fmt_simps = ln_def escape.simps is_digit_def ch_int_def no_flags_def process_precision_def digits_value_def

lemma print_regs_ok: "\<exists>m'. print_regs regs m = retM () m' \<and> kern m' = kern m \<and> nic m' = nic m"
  unfolding print_regs_def by (rule printsM_ok) (simp add: fmt_simps)

lemma print_trapframe_ok:
  "\<exists>m'. print_trapframe inp va l tf m = retM () m' \<and> kern m' = kern m \<and> nic m' = nic m"
proof -
  obtain m1 where m1: "printM (ln ''TRAP frame at %p from CPU %d'') [Word va, Word (of_nat (cpunum (kern m)))] m = retM () m1"
      "kern m1 = kern m" "nic m1 = nic m"
    using printM_ok [of "ln ''TRAP frame at %p from CPU %d''" "[Word va, Word (of_nat (cpunum (kern m)))]" m]
    by (auto simp: fmt_simps)
  obtain m2 where m2: "print_regs (tf_regs tf) m1 = retM () m2" "kern m2 = kern m1" "nic m2 = nic m1"
    using print_regs_ok [of "tf_regs tf" m1] by blast
  have "\<exists>m'. print_trapframe inp va l tf m = retM () m' \<and> kern m' = kern m2 \<and> nic m' = nic m2"
    unfolding print_trapframe_def m1(1) m2(1) bindM_simps by (rule printsM_ok) (auto simp: fmt_simps)
  then show ?thesis using m1 m2 by simp
qed

section \<open>Clearing the screen\<close>

lemma draw_each_returns:
  "(\<And>p t. p \<in> set ps \<Longrightarrow> \<exists>t'. f p t = Inr t') \<Longrightarrow> \<exists>t'. draw_each f ps t = Inr t'"
proof (induction ps arbitrary: t)
  case (Cons p ps)
  obtain t' where "f p t = Inr t'" using Cons.prems [of p] by auto
  then show ?case using Cons.IH [of t'] Cons.prems by simp
qed simp

lemma clear_screen_Inr: "\<exists>t'. clear_screen t = Inr t'"
  unfolding clear_screen_def
proof (intro draw_each_returns)
  fix x y and t :: screen
  assume "x \<in> set [0..<SCREEN_WIDTH]" "y \<in> set [0..<SCREEN_HEIGHT]"
  then have "x < 320" "y < 200" unfolding set_upt by (simp_all add: jos_const)
  moreover have "pixel_addr (of_nat x) (of_nat y) = addr x y" by (simp add: pixel_addr_def addr_def jos_const)
  ultimately show "\<exists>t'. write_pixel (of_nat x) (of_nat y) (ucast VGA_BLACK) t = Inr t'"
    using addr_not_below [of x y] by (simp add: write_pixel_def Let_def)
qed

section \<open>System calls on devices\<close>

lemma user_ctx_mok: "user_ctx (kern m) c \<Longrightarrow> kern m' = kern m \<Longrightarrow> mok (retM x m')"
  by (simp add: mok_retM user_ctxD)

lemma sys_cputs_mok:
  assumes c: "user_ctx (kern m) c" and l: "0 < len" "len < 0x80000000"
    and r: "range_ok (kern m) (PTE_U OR PTE_P) p (Suc (unat len))"
  shows "mok (sys_cputs p len m)"
proof -
  have "uint len < 2147483648" using l(2) by (simp add: word_less_def)
  then have n: "sint len = int (unat len)" 
    using signed_take_bit_int_eq_self [of 31 "uint len"] order_trans [OF _ uint_ge_0 [of len]] by (simp add: sint_uint)
  obtain cs where cs: "load_str (int (unat len)) p (kern m) = Some (Inr cs)" using load_str_user [OF r] by blast
  have fin: "mok (bindM (cprintf ''%.*s'' [Word len, Str arg] m) (\<lambda>_ m. retM () m))" for arg
  proof -
    obtain n m' where "cprintf ''%.*s'' [Word len, Str arg] m = retM n m'" "kern m' = kern m"
      using cprintf_ok [of "''%.*s''" "[Word len, Str arg]" m] by (auto simp: fmt_simps)
    then show ?thesis using user_ctx_mok [OF c] by simp
  qed
  have "unat p + unat len \<le> unat UTOP" using r by (simp add: range_ok_def)
  then show ?thesis unfolding sys_cputs_def bind_curM [OF c]
    by (intro mok_user_mem_assert [OF c l(1)]) (use fin cs in \<open>simp_all add: load_strM_def n\<close>)
qed

lemma e1000_transmit_user:
  assumes c: "user_ctx s c" and r: "range_ok s perm data n" and n: "0 < n"
  shows "\<exists>x. e1000_transmit data len s nc = Inr x"
proof -
  note k = user_ctxD(2) [OF c] and va = range_okD(2) [OF r n]
  have d: "env_dir c s = Inr (cr3 s)" using c by (simp add: user_ctx_def env_dir_def)
  have "pte_at s (cr3 s) (unat (PDX data)) (unat (PTX data)) \<noteq> None"
    using range_okD(1) [OF r n] by (auto simp: allowed_def split: option.splits)
  then have "pde_present s (cr3 s) (unat (PDX data))" by (simp add: pte_at_def split: if_splits)
  note W = pgdir_walk_present [OF kinvD(2) [OF k] user_ctxD(5) [OF c] va this, of False]
  show ?thesis
    using W by (auto simp: e1000_transmit_def in_callD(5) [OF user_ctxD(1) [OF c]] d Let_def)
qed

lemma sys_try_transmit_mok:
  assumes c: "user_ctx (kern m) c" and l: "0 < len" and r: "unat va + unat len \<le> unat UTOP"
  shows "mok (sys_try_transmit va len m)"
  unfolding sys_try_transmit_def bind_curM [OF c]
proof (rule mok_user_mem_assert [OF c l r])
  assume "range_ok (kern m) (0 OR PTE_U OR PTE_P) va (unat len)"
  moreover have "0 < unat len" using l by (simp add: word_less_nat_alt)
  ultimately obtain x where "e1000_transmit va (ucast len) (kern m) (nic m) = Inr x"
    using e1000_transmit_user [OF c] by blast
  then show "mok (Some (bindE (e1000_transmit va (ucast len) (kern m) (nic m)) (\<lambda>(r, n). Inr (Ret r, m\<lparr>nic := n\<rparr>))))"
    using user_ctxD(2,3) [OF c] by (cases x) (simp add: mok_def out_ok_def)
qed

lemma sys_receive_mok:
  assumes c: "user_ctx (kern m) c" and r: "range_ok (kern m) (PTE_W OR PTE_P) va 4"
  shows "mok (sys_receive va m)"
proof -
  have w: "(PTE_W OR PTE_P) AND PTE_W \<noteq> 0" by (simp add: jos_const)
  have "length (bytes_of_u32 x) = 4" for x by (simp add: bytes_of_u32_def)
  then show ?thesis unfolding sys_receive_def
    by (auto simp: user_ctx_mok [OF c] split: prod.split option.split
        intro!: mok_storeM [OF c _ w] elim!: user_ctx_mok) (use r in simp)
qed

lemma perm_W: "(PTE_W OR PTE_U OR PTE_P) AND PTE_W \<noteq> 0"
  by (simp add: jos_const)

lemma bytes_of_u32_length [simp]: "length (bytes_of_u32 w) = 4"
  by (simp add: bytes_of_u32_def)

lemma sys_get_mac_addr_mok:
  assumes c: "user_ctx (kern m) c" and r: "unat va + 6 \<le> unat UTOP"
  shows "mok (zeroM (sys_get_mac_addr va m))"
proof -
  have "mok (bindM (storeM (map (\<lambda>i. e1000_mac (nic m) ! i) [0..<6]) va m) (\<lambda>_ m. retM 0 m))"
    if "range_ok (kern m) (PTE_W OR PTE_U OR PTE_P) va (unat (6 :: u32))"
    by (rule mok_storeM [OF c _ perm_W]) (use that in \<open>auto intro: user_ctx_mok\<close>)
  then have "mok (bindM (liftK (user_mem_assert c va 6 PTE_W) m)
      (\<lambda>_ m. bindM (storeM (map (\<lambda>i. e1000_mac (nic m) ! i) [0..<6]) va m) (\<lambda>_ m. retM 0 m)))"
    using r by (intro mok_user_mem_assert [OF c]) simp_all
  moreover have "bindM (bindM x f) g = bindM x (\<lambda>v m. bindM (f v m) g)" for x :: "unit mexec" and f :: "unit \<Rightarrow> machine \<Rightarrow> unit mexec" and g :: "unit \<Rightarrow> machine \<Rightarrow> int mexec"
    by (simp add: bindM_def split: option.split sum.split prod.split outcome.split)
  ultimately show ?thesis by (simp add: zeroM_def sys_get_mac_addr_def bind_curM [OF c])
qed

lemma user_ctx_dev: "user_ctx (kern (m\<lparr>dev := d\<rparr>)) c = user_ctx (kern m) c"
  by simp

lemma sys_mouse_getp_mok:
  assumes c: "user_ctx (kern m) c" and r: "unat va + 12 \<le> unat UTOP"
  shows "mok (sys_mouse_getp inp va m)"
  unfolding sys_mouse_getp_def bind_curM [OF c]
proof (rule mok_user_mem_assert [OF c])
  show "(0 :: u32) < 12" "unat va + unat (12 :: u32) \<le> unat UTOP" using r by simp_all
  assume R: "range_ok (kern m) (PTE_W OR PTE_U OR PTE_P) va (unat (12 :: u32))"
  then have R8: "range_ok (kern m) (PTE_W OR PTE_U OR PTE_P) (va + 8) 4"
    using range_ok_next [OF R, of 8] by simp
  have c': "user_ctx (kern (m\<lparr>dev := d\<rparr>)) c" for d using c by simp
  show "mok (case mouse_getp (in_junk inp) (time_msec (kern m)) (dev m) of
       (None, d) \<Rightarrow>
         bindM (storeM (bytes_of_u32 (click_code NO_CLICK)) (va + 8) (m\<lparr>dev := d\<rparr>)) (\<lambda>_ m. retM (- 1) m)
     | (Some p, d) \<Rightarrow>
         bindM (storeM (bytes_of_u32 (word_of_int (pkt_x p)) @ bytes_of_u32 (word_of_int (pkt_y p)) @
                        bytes_of_u32 (click_code (pkt_type p))) va (m\<lparr>dev := d\<rparr>)) (\<lambda>_ m. retM 0 m))"
    by (auto split: prod.split option.split intro!: mok_storeM [OF c' _ perm_W] intro: user_ctx_mok)
      (use R R8 in simp_all)
qed

lemma sys_env_set_trapframe_mok:
  assumes c: "user_ctx (kern m) c" and r: "unat va + 68 \<le> unat UTOP"
  shows "mok (liftK (sys_env_set_trapframe 0 va) m)"
proof -
  let ?s = "kern m"
  have cu: "curenv ?s = Some c" by (rule user_ctxD(6) [OF c])
  have "sys_ok (bindO (user_mem_assert c va 68 PTE_W ?s) (\<lambda>_ s1.
       bindE (load_tf va s1) (\<lambda>t.
         let t' = t\<lparr>tf_cs := tf_cs t OR 3, tf_eflags := (tf_eflags t OR FL_IF) AND NOT FL_IOPL_3\<rparr>
         in Inr (Ret (0 :: int), upd_env c (\<lambda>v. v\<lparr>env_tf := t'\<rparr>) s1))))" (is "sys_ok (bindO _ ?f)")
  proof -
    consider "user_mem_assert c va 68 PTE_W ?s = Inr (Ret (), ?s)" "range_ok ?s (PTE_W OR PTE_U OR PTE_P) va 68"
      | q s' where "user_mem_assert c va 68 PTE_W ?s = Inr (q, s')" "out_ok q s'" "\<forall>x. q \<noteq> Ret x"
      using user_mem_assert_cur [OF c, of "68" va PTE_W] r by (auto simp: range_ok_def)
    then show ?thesis
    proof cases
      case 1
      then obtain ws where "load_words 17 va ?s = Inr ws" using load_words_user [of ?s _ va 17] by auto
      moreover have "sys_ok (Inr (Ret (0 :: int), upd_env c (\<lambda>v. v\<lparr>env_tf := t\<rparr>) ?s))" for t
        by (rule sys_ok_soft [OF user_ctxD(1) [OF c]]) (simp add: soft_def)
      ultimately show ?thesis using 1(1) by (simp add: load_tf_def Let_def)
    next
      case (2 q s')
      then show ?thesis by (cases q) (auto simp: sys_ok_def out_ok_def)
    qed
  qed
  then show ?thesis
    by (intro mok_liftK) (simp add: sys_env_set_trapframe_def with_env_def envid2env_def cu)
qed

section \<open>The dispatcher\<close>

text \<open>
  What the handlers rely on but do not check: that no page is mapped 65535 times, that a string
  to print is readable including the byte behind it, that packets are not empty, that the
  index pointer of \<^verbatim>\<open>sys_receive\<close> is writable, and that no structure wraps around the address space.
\<close>

definition call_pre :: "u32 \<Rightarrow> u32 \<Rightarrow> u32 \<Rightarrow> kstate \<Rightarrow> bool" where
  "call_pre no a1 a2 s \<longleftrightarrow>
     no \<noteq> SYS_draw \<and>
     (no = SYS_page_map \<or> no = SYS_ipc_try_send \<longrightarrow> refs_small s) \<and>
     (no = SYS_cputs \<longrightarrow> 0 < a2 \<and> a2 < 0x80000000 \<and> range_ok s (PTE_U OR PTE_P) a1 (Suc (unat a2))) \<and>
     (no = SYS_env_set_trapframe \<longrightarrow> a1 = 0 \<and> unat a2 + 68 \<le> unat UTOP) \<and>
     (no = SYS_try_transmit \<longrightarrow> 0 < a2 \<and> unat a1 + unat a2 \<le> unat UTOP) \<and>
     (no = SYS_receive \<longrightarrow> range_ok s (PTE_W OR PTE_P) a1 4) \<and>
     (no = SYS_get_mac_addr \<longrightarrow> unat a1 + 6 \<le> unat UTOP) \<and>
     (no = SYS_mouse_getp \<longrightarrow> unat a1 + 12 \<le> unat UTOP)"

lemma zeroM_mok: "mok x \<Longrightarrow> mok (zeroM x)"
  unfolding zeroM_def by (rule mok_bind) (simp_all add: mok_retM)

lemma syscall_mok:
  assumes c: "user_ctx (kern m) c" and p: "call_pre no a1 a2 (kern m)"
  shows "mok (syscall inp no a1 a2 a3 a4 a5 m)"
proof -
  note ic = user_ctxD(1) [OF c]
  note ok = sys_getenvid_ok [OF ic] sys_env_destroy_ok [OF ic] sys_yield_ok [OF ic] sys_exofork_ok [OF ic]
    sys_env_set_status_ok [OF ic] sys_page_alloc_ok [OF ic] sys_page_unmap_ok [OF ic]
    sys_env_set_pgfault_upcall_ok [OF ic] sys_ipc_recv_ok [OF ic] sys_change_priority_ok [OF ic]
    sys_time_msec_ok [OF ic] sys_env_set_type_ok [OF ic] sys_page_map_ok [OF ic] sys_ipc_try_send_ok [OF ic]
  have "mok (sys_cgetc m)"
    by (auto simp: sys_cgetc_def split: prod.split intro!: user_ctx_mok [OF c])
  moreover have "mok (zeroM (sys_clear_screen m))"
    using clear_screen_Inr [of "scr (dev m)"]
    by (auto simp: zeroM_def sys_clear_screen_def drawM_def updM_def intro!: user_ctx_mok [OF c])
  moreover have "mok (zeroM (sys_free_rx_buf m))"
    by (auto simp: zeroM_def sys_free_rx_buf_def intro!: user_ctx_mok [OF c])
  moreover have "mok (retM x m)" for x :: int by (rule user_ctx_mok [OF c]) simp
  ultimately show ?thesis
    using p sys_cputs_mok [OF c] sys_env_set_trapframe_mok [OF c] sys_try_transmit_mok [OF c]
      sys_receive_mok [OF c] sys_get_mac_addr_mok [OF c] sys_mouse_getp_mok [OF c]
    unfolding syscall_def call_pre_def by (simp add: zeroM_mok mok_liftK ok)
qed

section \<open>Page faults\<close>

lemma utf_frame_range: "unat (utf_frame esp) + 52 \<le> unat UTOP"
proof (cases "esp \<ge> UXSTACKTOP - PGSIZE \<and> esp < UXSTACKTOP")
  case True
  then have b: "unat esp < 4005560320" "4005556224 \<le> unat esp"
    by (simp_all add: jos_const word_less_nat_alt word_le_nat_alt)
  then have "(56 :: u32) \<le> esp" by (simp add: word_le_nat_alt)
  then have "unat (esp - 56) = unat esp - 56" by (simp add: unat_sub)
  moreover have "utf_frame esp = esp - 56" using True by (simp add: utf_frame_def)
  ultimately show ?thesis using b by (simp add: jos_const)
next
  case False
  then have "utf_frame esp = UXSTACKTOP - 52" by (auto simp: utf_frame_def)
  then show ?thesis by (simp add: jos_const)
qed

lemma env_run_cur_ok:
  assumes "in_call s c"
  shows "sys_ok (env_run (curenv s) s)"
  using env_run_spec [OF in_callD(1,2) [OF assms] in_callD(4) [OF assms]] in_callD(3) [OF assms]
  by (auto simp: sys_ok_def)

lemma env_destroy_ok: "in_call s c \<Longrightarrow> live s e \<Longrightarrow> sys_ok (env_destroy e s)"
  using env_destroy_spec [of s e] by (auto simp: sys_ok_def in_callD)

lemma page_fault_mok:
  assumes c: "user_ctx (kern m) c" and u: "tf_cs tf AND 3 \<noteq> 0"
  shows "mok (page_fault_handler inp va tf m)"
proof (cases "env_pgfault_upcall (envs (kern m) c) = 0")
  case True
  obtain m1 where m1: "printM (ln ''[%08x] user fault va %08x ip %08x'')
      [Word (env_id (envs (kern m) c)), Word (in_cr2 inp), Word (tf_eip tf)] m = retM () m1" "kern m1 = kern m"
    using printM_ok [of "ln ''[%08x] user fault va %08x ip %08x''"
        "[Word (env_id (envs (kern m) c)), Word (in_cr2 inp), Word (tf_eip tf)]" m] by (auto simp: fmt_simps)
  obtain m2 where m2: "print_trapframe inp va True tf m1 = retM () m2" "kern m2 = kern m1"
    using print_trapframe_ok [of inp va True tf m1] by blast
  have "mok (liftK (env_destroy c) m2)"
    using user_ctxD(1,4) [OF c] m1 m2 by (intro mok_liftK env_destroy_ok) simp_all
  then show ?thesis using u True m1(1) m2(1) by (simp add: page_fault_handler_def Let_def bind_curM [OF c])
next
  case False
  let ?fr = "utf_frame (tf_esp tf)"
  let ?up = "\<lambda>v. v\<lparr>env_tf := (env_tf v)\<lparr>tf_eip := env_pgfault_upcall v, tf_esp := ?fr\<rparr>\<rparr>"
  let ?utf = "\<lparr>utf_fault_va = in_cr2 inp, utf_err = tf_err tf, utf_regs = tf_regs tf, utf_eip = tf_eip tf,
                      utf_eflags = tf_eflags tf, utf_esp = tf_esp tf\<rparr>"
  have run: "mok (liftK (\<lambda>s. env_run (curenv s) (upd_env c ?up s)) m')" if "user_ctx (kern m') c" for m'
  proof -
    have "soft ?up (envs (kern m') c)" by (simp add: soft_def)
    from in_call_soft(1) [OF user_ctxD(1) [OF that] this] have ic: "in_call (upd_env c ?up (kern m')) c" .
    have "curenv (upd_env c ?up (kern m')) = curenv (kern m')" by simp
    then show ?thesis using env_run_cur_ok [OF ic] by (intro mok_liftK) simp
  qed
  have len: "length (concat (map bytes_of_u32 (words_of_utf ?utf))) = 52"
    by (simp add: words_of_utf_def)
  have "(PTE_W OR PTE_U) OR PTE_U OR PTE_P = PTE_W OR PTE_U OR PTE_P" by (simp add: jos_const)
  then have "mok (bindM (liftK (user_mem_assert c ?fr 52 (PTE_W OR PTE_U)) m) (\<lambda>_ m.
      bindM (storeM (concat (map bytes_of_u32 (words_of_utf ?utf))) ?fr m) (\<lambda>_ m.
        liftK (\<lambda>s. env_run (curenv s) (upd_env c ?up s)) m)))"
    using utf_frame_range [of "tf_esp tf"]
    by (intro mok_user_mem_assert [OF c] mok_storeM [OF c _ perm_W] run) (simp_all add: len)
  then show ?thesis using u False by (simp add: page_fault_handler_def Let_def bind_curM [OF c])
qed

section \<open>Traps\<close>

definition servers_live :: "kstate \<Rightarrow> e1000 \<Rightarrow> bool" where
  "servers_live s n \<longleftrightarrow>
     (out_ns n > 0 \<longrightarrow> live s (nat (out_ns n))) \<and> (in_ns n > 0 \<longrightarrow> live s (nat (in_ns n))) \<and>
     (\<forall>e < NENV. env_type (envs s e) = ENV_TYPE_OUT_NS \<or> env_type (envs s e) = ENV_TYPE_IN_NS \<longrightarrow> live s e)"

text \<open>The preconditions of a trap: of the call, of the clock, and of the network interrupt.\<close>

definition trap_pre :: "Trapframe \<Rightarrow> machine \<Rightarrow> bool" where
  "trap_pre tf m \<longleftrightarrow>
     (tf_trapno tf = T_SYSCALL \<longrightarrow>
        call_pre (reg_eax (tf_regs tf)) (reg_edx (tf_regs tf)) (reg_ecx (tf_regs tf)) (kern m)) \<and>
     (tf_trapno tf = IRQ_OFFSET + IRQ_TIMER \<longrightarrow> unat (ticks (kern m)) * 10 + 10 < 2 ^ 32) \<and>
     (tf_trapno tf = IRQ_OFFSET + IRQ_E1000 \<longrightarrow> servers_live (kern m) (nic m))"

lemma find_type_range: "find_type_from is ty s = k \<Longrightarrow> k > 0 \<Longrightarrow> nat k \<in> set is \<and> env_type (envs s (nat k)) = ty"
  by (induction "is") (auto split: if_splits)

lemma wake_ok:
  assumes "kinv s" and "cur_ok s" and "k > 0 \<Longrightarrow> live s (nat k)"
  shows "kinv (wake k b s) \<and> cur_ok (wake k b s) \<and> (\<forall>e. live (wake k b s) e = live s e)"
proof (cases "k > 0 \<and> b")
  case True
  then have "soft (\<lambda>v. v\<lparr>env_status := ENV_RUNNABLE\<rparr>) (envs s (nat k))"
    using assms(3) by (simp add: soft_def live_def)
  then show ?thesis using True assms by (simp add: wake_def kinv_soft soft_cong cur_ok_def)
next
  case False
  then have "wake k b s = s" by (auto simp: wake_def)
  then show ?thesis using assms by simp
qed

lemma e1000_intr_ok:
  assumes k: "kinv s" "cur_ok s" and sl: "servers_live s n"
  shows "kinv (fst (e1000_intr icr s n)) \<and> cur_ok (fst (e1000_intr icr s n))"
proof -
  let ?n = "find_servers s n"
  have "env_find_by_type ty s > 0 \<Longrightarrow> live s (nat (env_find_by_type ty s))" if "ty = ENV_TYPE_OUT_NS \<or> ty = ENV_TYPE_IN_NS" for ty
    using that sl find_type_range [of "[0..<NENV]" ty s] by (auto simp: env_find_by_type_def servers_live_def)
  then have l: "out_ns ?n > 0 \<Longrightarrow> live s (nat (out_ns ?n))" "in_ns ?n > 0 \<Longrightarrow> live s (nat (in_ns ?n))"
    using sl by (auto simp: find_servers_def servers_live_def)
  let ?w = "wake (out_ns ?n) (icr AND E1000_ICR_TXDW \<noteq> 0) s"
  have w: "kinv ?w" "cur_ok ?w" "\<forall>e. live ?w e = live s e" using wake_ok [OF k l(1)] by simp_all
  show ?thesis using wake_ok [OF w(1,2), of "in_ns ?n"] l(2) w(3) by (simp add: e1000_intr_def Let_def)
qed

lemma time_tick_ok:
  assumes "unat (ticks s) * 10 + 10 < 2 ^ 32"
  shows "time_tick s = Inr (s\<lparr>ticks := ticks s + 1\<rparr>)"
proof -
  have u: "unat (ticks s + 1) = unat (ticks s) + 1" using assms by (simp add: unat_word_ariths)
  then have "unat ((ticks s + 1) * 10) = (unat (ticks s) + 1) * 10" using assms by (simp add: unat_word_ariths)
  then have "\<not> (ticks s + 1) * 10 < ticks s + 1" using u by (simp add: word_less_nat_alt)
  then show ?thesis by (simp add: time_tick_def Let_def)
qed

lemma sched_yield_mok: "kinv (kern m) \<Longrightarrow> cur_ok (kern m) \<Longrightarrow> mok (liftK sched_yield m)"
  using sched_yield_spec [of "kern m"] by (intro mok_liftK) (auto simp: sys_ok_def)

text \<open>Interrupts, which may also arrive while the CPU is halted, with no current environment.\<close>

definition irq_of :: "Trapframe \<Rightarrow> bool" where
  "irq_of tf \<longleftrightarrow> tf_trapno tf \<in> {IRQ_OFFSET + IRQ_SPURIOUS, IRQ_OFFSET + IRQ_TIMER, IRQ_OFFSET + IRQ_KBD,
     IRQ_OFFSET + IRQ_SERIAL, IRQ_OFFSET + IRQ_E1000, IRQ_OFFSET + IRQ_MOUSE}"

lemma trap_dispatch_irq:
  assumes k: "kinv (kern m)" "cur_ok (kern m)" and i: "irq_of tf" and p: "trap_pre tf m"
  shows "mok (trap_dispatch inp va home tf m)"
proof -
  have ret: "mok (retM () (m\<lparr>dev := d\<rparr>))" for d using k by (simp add: mok_retM)
  have sp: "mok (bindM (printM (ln ''Spurious interrupt on irq 7'') [] m) (\<lambda>_ m. print_trapframe inp va True tf m))"
  proof -
    obtain m1 where m1: "printM (ln ''Spurious interrupt on irq 7'') [] m = retM () m1" "kern m1 = kern m"
      using printM_ok [of "ln ''Spurious interrupt on irq 7''" "[]" m] by (auto simp: fmt_simps)
    obtain m2 where "print_trapframe inp va True tf m1 = retM () m2" "kern m2 = kern m1"
      using print_trapframe_ok [of inp va True tf m1] by blast
    then show ?thesis using m1 k by (simp add: mok_retM)
  qed
  have ti: "mok (bindM (if cpunum (kern m) = 0 then liftK (\<lambda>s. bindE (time_tick s) (\<lambda>s1. Inr (Ret (), s1))) m
        else retM () m) (\<lambda>_ m. liftK sched_yield m))" if "tf_trapno tf = IRQ_OFFSET + IRQ_TIMER"
  proof -
    have "time_tick (kern m) = Inr ((kern m)\<lparr>ticks := ticks (kern m) + 1\<rparr>)"
      using p that by (intro time_tick_ok) (simp add: trap_pre_def)
    then have t: "liftK (\<lambda>s. bindE (time_tick s) (\<lambda>s1. Inr (Ret (), s1))) m =
        retM () (m\<lparr>kern := (kern m)\<lparr>ticks := ticks (kern m) + 1\<rparr>\<rparr>)" by (simp add: liftK_def retM_def)
    have "cur_ok ((kern m)\<lparr>ticks := ticks (kern m) + 1\<rparr>)" using k(2) by (simp add: cur_ok_def)
    then show ?thesis using k unfolding t by (auto intro!: sched_yield_mok)
  qed
  have nw: "mok (let (s, n) = e1000_intr (in_icr inp) (kern m) (nic m) in retM () (m\<lparr>kern := s, nic := n\<rparr>))"
    if "tf_trapno tf = IRQ_OFFSET + IRQ_E1000"
    using e1000_intr_ok [OF k, of "nic m" "in_icr inp"] p that
    by (auto simp: trap_pre_def mok_retM split: prod.split)
  have ne: "tf_trapno tf \<noteq> T_PGFLT" "tf_trapno tf \<noteq> T_BRKPT" "tf_trapno tf \<noteq> T_SYSCALL"
    using i by (auto simp: irq_of_def jos_const)
  show ?thesis using i ne ret sp ti nw unfolding trap_dispatch_def irq_of_def updM_def by (auto simp: Let_def)
qed

lemma set_result_ok:
  assumes "kinv (kern m)" and "cur_ok (kern m)"
  shows "mok (retM () (set_result home r m))"
proof (cases home)
  case (Some c)
  have "soft (\<lambda>v. v\<lparr>env_tf := (env_tf v)\<lparr>tf_regs := (tf_regs (env_tf v))\<lparr>reg_eax := word_of_int r\<rparr>\<rparr>\<rparr>) (envs (kern m) c)"
    by (simp add: soft_def)
  then show ?thesis using assms Some by (simp add: mok_retM set_result_def kinv_soft cur_ok_def soft_cong)
qed (use assms in \<open>simp add: mok_retM set_result_def\<close>)

lemma trap_dispatch_user:
  assumes c: "user_ctx (kern m) c" and u: "tf_cs tf AND 3 = 3" and p: "trap_pre tf m"
  shows "mok (trap_dispatch inp va home tf m)"
proof (cases "irq_of tf")
  case True
  then show ?thesis using trap_dispatch_irq [OF user_ctxD(2,3) [OF c]] p by blast
next
  case False
  have u0: "tf_cs tf AND 3 \<noteq> 0" "tf_cs tf \<noteq> GD_KT" using u by (auto simp: jos_const)
  have sc: "mok (bindM (syscall inp (reg_eax (tf_regs tf)) (reg_edx (tf_regs tf)) (reg_ecx (tf_regs tf))
      (reg_ebx (tf_regs tf)) (reg_edi (tf_regs tf)) (reg_esi (tf_regs tf)) m) (\<lambda>x m. retM () (set_result home x m)))"
    if "tf_trapno tf = T_SYSCALL"
    using p that by (intro mok_bind [OF syscall_mok [OF c]] set_result_ok) (simp_all add: trap_pre_def)
  have mo: "mok (Some (Inr (Monitor :: unit outcome, m)))"
    using user_ctxD(2) [OF c] by (simp add: mok_def out_ok_def)
  obtain m1 where m1: "print_trapframe inp va True tf m = retM () m1" "kern m1 = kern m"
    using print_trapframe_ok [of inp va True tf m] by blast
  have c1: "user_ctx (kern m1) c" using c m1(2) by simp
  have de: "mok (liftK (env_destroy c) m1)"
    by (intro mok_liftK env_destroy_ok [OF user_ctxD(1) [OF c1] user_ctxD(4) [OF c1]])
  show ?thesis
    using False page_fault_mok [OF c u0(1), of inp va] sc mo de u0 m1(1)
    unfolding trap_dispatch_def irq_of_def by (simp add: Let_def bind_curM [OF c1])
qed

lemma trap_return_ok:
  assumes "kinv (kern m)" and "cur_ok (kern m)"
  shows "\<exists>r m'. trap_return m = Some (Inr (r, m')) \<and> out_ok r (kern m') \<and> (\<forall>x. r \<noteq> Ret x)"
proof (cases "\<exists>c. curenv (kern m) = Some c \<and> env_status (envs (kern m) c) = ENV_RUNNING")
  case True
  then obtain c where c: "curenv (kern m) = Some c" "env_status (envs (kern m) c) = ENV_RUNNING" by blast
  then have "live (kern m) c" using assms(2) by (simp add: cur_ok_def)
  from env_run_spec [OF assms this] obtain s' where
    "env_run (Some c) (kern m) = Inr (Run c :: unit outcome, s')" "out_ok (Run c :: unit outcome) s'" by blast
  then show ?thesis using c by (simp add: trap_return_def liftK_def)
next
  case False
  then have "trap_return m = liftK sched_yield m"
    by (auto simp: trap_return_def liftK_def split: option.split)
  moreover obtain r s where "sched_yield (kern m) = Inr (r, s)" "out_ok r s" "\<forall>x :: unit. r \<noteq> Ret x"
    using sched_yield_spec [OF assms] by blast
  ultimately show ?thesis by (auto simp: liftK_def)
qed

lemma trap_end:
  assumes "mok x"
  shows "\<exists>r m'. bindM x (\<lambda>_ m. trap_return m) = Some (Inr (r, m')) \<and> out_ok r (kern m') \<and> (\<forall>y. r \<noteq> Ret y)"
proof -
  obtain r m where x: "x = Some (Inr (r, m))" "out_ok r (kern m)" using assms by (auto simp: mok_def)
  show ?thesis
  proof (cases r)
    case (Ret v)
    then show ?thesis using x trap_return_ok [of m] by (simp add: out_ok_def)
  qed (use x in \<open>auto simp: out_ok_def\<close>)
qed

section \<open>Entry from user mode and from the idle CPU\<close>

text \<open>An environment runs in user mode: \<open>out_ok (Run c)\<close> without its claim on the status.\<close>

definition user_entry :: "kstate \<Rightarrow> nat \<Rightarrow> bool" where
  "user_entry s c \<longleftrightarrow> kinv s \<and> curenv s = Some c \<and> live s c \<and> env_pgdir (envs s c) = Some (cr3 s) \<and>
     \<not> kernel_locked s \<and> cpu_status s = CPU_STARTED"

definition idle_entry :: "kstate \<Rightarrow> bool" where
  "idle_entry s \<longleftrightarrow> kinv s \<and> curenv s = None \<and> \<not> kernel_locked s \<and> cpu_status s = CPU_HALTED"

lemma out_ok_entry: "out_ok (Run c) s \<Longrightarrow> user_entry s c" "out_ok Halt s \<Longrightarrow> idle_entry s"
  by (simp_all add: out_ok_def user_entry_def idle_entry_def)

lemma view_writes [simp]:
  "dirs (s\<lparr>cpu_status := x\<rparr>) = dirs s" "dirs (s\<lparr>kernel_locked := b\<rparr>) = dirs s"
  by (simp_all add: dirs_def)

lemma call_pre_upd:
  assumes "soft g (envs s c)"
  shows "call_pre no a1 a2 (upd_env c g (s\<lparr>cpu_status := x, kernel_locked := b\<rparr>)) = call_pre no a1 a2 s"
proof -
  have "soft g (envs (s\<lparr>cpu_status := x, kernel_locked := b\<rparr>) c)" using assms by simp
  then show ?thesis by (simp add: call_pre_def refs_small_def range_ok_def allowed_def soft_cong)
qed

lemma trap_pre_upd:
  assumes "soft g (envs (kern m) c)" and "\<And>v. env_type (g v) = env_type v"
  shows "trap_pre tf (m\<lparr>kern := upd_env c g ((kern m)\<lparr>cpu_status := x, kernel_locked := b\<rparr>)\<rparr>) = trap_pre tf m"
proof -
  have s: "soft g (envs ((kern m)\<lparr>cpu_status := x, kernel_locked := b\<rparr>) c)" using assms by simp
  have ty: "env_type (envs (upd_env c g ((kern m)\<lparr>cpu_status := x, kernel_locked := b\<rparr>)) e) = env_type (envs (kern m) e)" for e
    using assms(2) by simp
  have "servers_live (upd_env c g ((kern m)\<lparr>cpu_status := x, kernel_locked := b\<rparr>)) (nic m) = servers_live (kern m) (nic m)"
    unfolding servers_live_def ty soft_cong(2) [OF s] by simp
  then show ?thesis by (simp add: trap_pre_def call_pre_upd [OF assms(1)])
qed

lemma trap_user:
  assumes c: "user_entry (kern m) c" and u: "tf_cs tf AND 3 = 3" and p: "trap_pre tf m"
  shows "\<exists>r m'. trap inp va tf m = Some (Inr (r, m')) \<and> out_ok r (kern m') \<and> (\<forall>x. r \<noteq> Ret x)"
proof -
  let ?s = "(kern m)\<lparr>cpu_status := CPU_STARTED, kernel_locked := True\<rparr>"
  let ?g = "\<lambda>v. v\<lparr>env_tf := tf\<rparr>"
  have e: "kinv (kern m)" "curenv (kern m) = Some c" "live (kern m) c" "env_pgdir (envs (kern m) c) = Some (cr3 (kern m))"
    "\<not> kernel_locked (kern m)" "cpu_status (kern m) = CPU_STARTED"
    using c by (simp_all add: user_entry_def)
  have st: "cpu_status (kern m) \<noteq> CPU_HALTED" using e(6) by simp
  have ok: "kinv ?s" "cur_ok ?s" "live ?s c" using e by (simp_all add: cur_ok_def)
  show ?thesis
  proof (cases "env_status (envs (kern m) c) = ENV_DYING")
    case True
    obtain s1 where s1: "env_free c ?s = Inr s1" "kinv s1" "cpu_same ?s s1"
      using env_free_spec [OF ok(1,3)] by blast
    have "kinv (s1\<lparr>curenv := None\<rparr>)" "cur_ok (s1\<lparr>curenv := None\<rparr>)"
      using s1(2,3) by (simp_all add: cur_ok_def cpu_same_def)
    from sched_yield_spec [OF this] obtain r s2 where
      "sched_yield (s1\<lparr>curenv := None\<rparr>) = Inr (r :: unit outcome, s2)" "out_ok r s2" "\<forall>x. r \<noteq> Ret x" by blast
    then show ?thesis using u e st True s1(1)
      by (simp add: trap_def liftK_def trap_lock_def lock_kernel_def Let_def)
  next
    case False
    let ?m = "m\<lparr>kern := upd_env c ?g ?s\<rparr>"
    have sg: "soft ?g (envs ?s c)" "soft ?g (envs (kern m) c)" by (simp_all add: soft_def)
    have ic: "in_call ?s c" using ok e(2) by (simp add: in_call_def)
    have "user_ctx (kern ?m) c"
      using in_call_soft(1) [OF ic sg(1)] e(4) by (simp add: user_ctx_def)
    moreover have "trap_pre tf ?m" using trap_pre_upd [OF sg(2)] p by simp
    ultimately have "mok (trap_dispatch inp va (Some c) tf ?m)" using trap_dispatch_user u by blast
    from trap_end [OF this] show ?thesis using u e st False
      by (simp add: trap_def liftK_def trap_lock_def lock_kernel_def Let_def)
  qed
qed

lemma trap_idle:
  assumes c: "idle_entry (kern m)" and u: "tf_cs tf = GD_KT" and i: "irq_of tf" and p: "trap_pre tf m"
  shows "\<exists>r m'. trap inp va tf m = Some (Inr (r, m')) \<and> out_ok r (kern m') \<and> (\<forall>x. r \<noteq> Ret x)"
proof -
  let ?s = "(kern m)\<lparr>cpu_status := CPU_STARTED, kernel_locked := True\<rparr>"
  let ?m = "m\<lparr>kern := ?s\<rparr>"
  have ok: "kinv (kern ?m)" "cur_ok (kern ?m)" using c by (simp_all add: idle_entry_def cur_ok_def)
  have t: "upd_env 0 (\<lambda>v. v) ?s = ?s" by (simp add: upd_env_def)
  have "trap_pre tf ?m" using trap_pre_upd [of "\<lambda>v. v" m 0 tf True CPU_STARTED] p by (simp add: soft_def t)
  then have "mok (trap_dispatch inp va None tf ?m)" using trap_dispatch_irq [OF ok i] by blast
  from trap_end [OF this] show ?thesis using u c
    by (simp add: trap_def liftK_def trap_lock_def lock_kernel_def Let_def idle_entry_def GD_KT_def)
qed

section \<open>Runs of the system\<close>

text \<open>
  What happens between two kernel entries and at each of them: the devices change as they
  like, the running environment stores into its own writable memory, and a trap arrives.
\<close>

inductive kstep :: "unit outcome \<times> machine \<Rightarrow> unit outcome \<times> machine \<Rightarrow> bool" where
  devices: "kstep (r, m) (r, m\<lparr>dev := d, nic := n\<rparr>)"
| user_store: "va < UTOP \<Longrightarrow> allowed (kern m) (cr3 (kern m)) (PTE_W OR PTE_U OR PTE_P) va \<Longrightarrow>
    store_byte va b (kern m) = Inr s \<Longrightarrow> kstep (Run c, m) (Run c, m\<lparr>kern := s\<rparr>)"
| user_trap: "tf_cs tf AND 3 = 3 \<Longrightarrow> trap_pre tf m \<Longrightarrow> trap inp va tf m = Some (Inr x) \<Longrightarrow> kstep (Run c, m) x"
| idle_irq: "tf_cs tf = GD_KT \<Longrightarrow> irq_of tf \<Longrightarrow> trap_pre tf m \<Longrightarrow> trap inp va tf m = Some (Inr x) \<Longrightarrow> kstep (Halt, m) x"

inductive_cases kstepE: "kstep (r, m) x"

lemma kstep_ok:
  assumes "kstep x y" and "out_ok (fst x) (kern (snd x))"
  shows "out_ok (fst y) (kern (snd y))"
  using assms
proof induction
  case (devices r m d n)
  then show ?case by simp
next
  case (user_store va m b s c)
  then have o: "kinv (kern m)" "live (kern m) c" "env_pgdir (envs (kern m) c) = Some (cr3 (kern m))"
    by (simp_all add: out_ok_def)
  obtain t where "store_byte va b (kern m) = Inr t" "store_same (kern m) t"
    using store_byte_user [OF o(1) dirsI [OF o(2,3)] user_store(1,2) perm_W] by blast
  then show ?case using user_store by (simp add: out_ok_def store_same_def cpu_same_def)
next
  case (user_trap tf m inp va x c)
  have "user_entry (kern m) c" using user_trap.prems by (intro out_ok_entry) simp
  from trap_user [OF this user_trap(1,2), of inp va] show ?case using user_trap(3) by (cases x) auto
next
  case (idle_irq tf m inp va x)
  have "idle_entry (kern m)" using idle_irq.prems by (intro out_ok_entry) simp
  from trap_idle [OF this idle_irq(1-3), of inp va] show ?case using idle_irq(4) by (cases x) auto
qed

lemma kstep_star_ok:
  "kstep\<^sup>*\<^sup>* x y \<Longrightarrow> out_ok (fst x) (kern (snd x)) \<Longrightarrow> out_ok (fst y) (kern (snd y))"
  by (induction rule: rtranclp_induct) (auto intro: kstep_ok)

end
