(* ===== verification/TwoEnvs.thy ===== *)
theory TwoEnvs
  imports TrapInv
begin

text \<open>
  A small machine on which the properties of the kernel are tried: environment 0 runs, with a
  writable page at 0x800000, an exception stack and a page fault handler; its child 1 waits for a message and wants a page at 0x900000; the
  other entries of the table are free.
\<close>

definition demo_env :: "nat \<Rightarrow> Env" where
  "demo_env e = blank_env\<lparr>env_link := (if Suc e < NENV then Some (Suc e) else None)\<rparr>"

definition parent_env :: Env where
  "parent_env = (demo_env 0)\<lparr>env_id := 0x1000, env_status := ENV_RUNNING, env_pgdir := Some 1,
     env_pgfault_upcall := 0x800020\<rparr>"

definition child_env :: Env where
  "child_env = (demo_env 1)\<lparr>env_id := 0x1001, env_parent_id := 0x1000, env_status := ENV_NOT_RUNNABLE,
     env_pgdir := Some 6, env_ipc_recving := True, env_ipc_dstva := 0x900000\<rparr>"

definition two_envs :: kstate where
  "two_envs = \<lparr>npages = 12, npages_basemem = 12,
     pages = (\<lambda>p. if p = 2 then \<lparr>pp_link = Some 3, pp_ref = 0\<rparr>
                   else if p = 3 then \<lparr>pp_link = None, pp_ref = 0\<rparr>
                   else \<lparr>pp_link = None, pp_ref = 1\<rparr>),
     page_free_list = Some 2, nextfree = KERNBASE + 0xc000, pse_support = 0, kern_pgdir = 5,
     pmem = (\<lambda>f i. if f = 1 \<and> i = 2 then 0x7007 else if f = 1 \<and> i = 954 then 0x9007
                     else if f = 7 \<and> i = 0 then 0x8007 else if f = 9 \<and> i = 1023 then 0xA007
                     else if f = 8 then 0x41414141 else 0),
     mmio_base = MMIOBASE, user_mem_check_addr = 0,
     envs = (\<lambda>e. if e = 0 then parent_env else if e = 1 then child_env else demo_env e),
     env_free_list = Some 2, curenv = Some 0, cpunum = 0, cpu_status = CPU_STARTED,
     kernel_locked = False, cr3 = 1, tlb_flushed = [], ticks = 0\<rparr>"

lemma two_envs_pte:
  assumes "d = 1 \<or> d = 6"
  shows "pde_present two_envs d i \<longleftrightarrow> d = 1 \<and> (i = 2 \<or> i = 954)"
    and "pte_at two_envs d i j = (if d = 1 \<and> i = 2 \<and> j = 0 then Some 0x8007
           else if d = 1 \<and> i = 954 \<and> j = 1023 then Some 0xA007 else None)"
  using assms by (auto simp: pte_at_def pde_present_def pt_frame_def PGNUM_def two_envs_def jos_const)

lemma pt_frame_two_envs: "pt_frame two_envs 1 2 = 7" "pt_frame two_envs 1 954 = 9"
  by (simp_all add: pt_frame_def PGNUM_def two_envs_def)

lemma two_envs_live: "live two_envs e \<longleftrightarrow> e = 0 \<or> e = 1"
  by (auto simp: live_def two_envs_def parent_env_def child_env_def demo_env_def blank_env_def NENV_def)

lemma two_envs_dirs: "dirs two_envs = {1, 6}"
  unfolding dirs_def two_envs_live by (auto simp: two_envs_def parent_env_def child_env_def)

lemma two_envs_tables: "tables {1, 6} two_envs = {7, 9}"
proof -
  have "tables {1, 6} two_envs = {pt_frame two_envs 1 2, pt_frame two_envs 1 954}"
    unfolding tables_def using two_envs_pte(1) by (force simp del: One_nat_def)
  then show ?thesis by (simp only: pt_frame_two_envs)
qed

lemma two_envs_mappers:
  "mappers {1, 6} two_envs p = (if p = 8 then {(1, 2, 0)} else if p = 10 then {(1, 954, 1023)} else {})"
proof -
  have pn: "unat (PGNUM 0x8007) = 8" "unat (PGNUM 0xA007) = 10" by (simp_all add: PGNUM_def)
  have "x \<in> mappers {1, 6} two_envs p \<longleftrightarrow> x = (1, 2, 0) \<and> p = 8 \<or> x = (1, 954, 1023) \<and> p = 10" for x
    unfolding mappers_def by (cases x) (auto simp: two_envs_pte(2) pn simp del: One_nat_def split: if_splits)
  then show ?thesis by auto
qed

lemma two_envs_free: "free_pages two_envs = [2, 3]"
  by (rule free_pages_eqI) (simp_all add: two_envs_def)

lemma two_envs_alloc: "alloc_inv two_envs"
  unfolding alloc_inv_def two_envs_free by (simp add: two_envs_def)

lemma two_envs_vm: "vm_inv {1, 6} two_envs"
proof -
  have "tables_ok {1, 6} two_envs"
    unfolding tables_ok_def two_envs_tables
  proof (intro conjI allI impI)
    fix d i d' i'
    assume "d \<in> {1, 6} \<and> i < 955 \<and> pde_present two_envs d i \<and> d' \<in> {1, 6} \<and> i' < 955 \<and>
      pde_present two_envs d' i' \<and> pt_frame two_envs d i = pt_frame two_envs d' i'"
    then show "d = d'" "i = i'" using two_envs_pte(1) pt_frame_two_envs by (auto simp del: One_nat_def)
  qed simp
  moreover have "mappable {1, 6} two_envs 8" "mappable {1, 6} two_envs 10"
    unfolding mappable_def two_envs_free two_envs_tables two_envs_mappers by (simp_all add: two_envs_def)
  ultimately show ?thesis
    unfolding vm_inv_def two_envs_free two_envs_tables two_envs_mappers using two_envs_alloc
    by (simp add: two_envs_def)
qed

lemma two_envs_env_inv: "env_inv two_envs"
proof -
  have lk: "env_link (envs two_envs e) = (if Suc e < NENV then Some (Suc e) else None)" for e
    by (simp add: two_envs_def parent_env_def child_env_def demo_env_def NENV_def)
  have ch: "chain (\<lambda>e. env_link (envs two_envs e)) (env_free_list two_envs) [2..<NENV]"
  proof -
    have "env_free_list two_envs = Some 2" by (simp add: two_envs_def)
    moreover have "2 < NENV" by (simp add: NENV_def)
    ultimately show ?thesis using chain_upt [of NENV "\<lambda>e. env_link (envs two_envs e)" 2] lk by metis
  qed
  have f: "free_envs two_envs = [2..<NENV]" using ch by (rule free_envs_eqI) (simp add: set_upt)
  have id: "env_id (envs two_envs e) = (if e = 0 then 0x1000 else if e = 1 then 0x1001 else 0)" for e
    by (simp add: two_envs_def parent_env_def child_env_def demo_env_def blank_env_def)
  have pg: "env_pgdir (envs two_envs 0) = Some 1" "env_pgdir (envs two_envs 1) = Some 6"
    by (simp_all add: two_envs_def parent_env_def child_env_def)
  show ?thesis unfolding env_inv_def f two_envs_live
  proof (intro conjI allI impI)
    show "chain (\<lambda>e. env_link (envs two_envs e)) (env_free_list two_envs) [2..<NENV]" by (rule ch)
  next
    show "set [2..<NENV] = {e. e < NENV \<and> \<not> (e = 0 \<or> e = 1)}" unfolding set_upt by auto
    show "env_id (envs two_envs e) = 0 \<or> ENVX (env_id (envs two_envs e)) = e \<and> 0 < sint (env_id (envs two_envs e))" for e
      by (simp add: id ENVX_mod)
    show "env_id (envs two_envs e) \<noteq> 0" "env_pgdir (envs two_envs e) \<noteq> None" if "e = 0 \<or> e = 1" for e
      using that by (auto simp: id pg simp del: One_nat_def)
    show "e = e'" if "(e = 0 \<or> e = 1) \<and> (e' = 0 \<or> e' = 1) \<and> env_pgdir (envs two_envs e) = env_pgdir (envs two_envs e')" for e e'
      using that pg by (auto simp del: One_nat_def)
  qed
qed

lemma two_envs_kinv: "kinv two_envs"
proof -
  have "kern_ok {1, 6} two_envs"
    unfolding kern_ok_def reserved_def two_envs_tables two_envs_mappers two_envs_free
    by (simp add: two_envs_def pde_present_def)
  then show ?thesis
    unfolding kinv_def two_envs_dirs using two_envs_env_inv two_envs_vm by simp
qed

lemma two_envs_run: "out_ok (Run 0) two_envs"
  using two_envs_kinv two_envs_live [of 0] by (simp add: out_ok_def) (simp add: two_envs_def parent_env_def)

text \<open>The same state inside a system call of environment 0.\<close>

definition calling :: kstate where
  "calling = two_envs\<lparr>kernel_locked := True\<rparr>"

lemma calling_fields:
  "curenv calling = Some 0" "kernel_locked calling" "cpu_status calling = CPU_STARTED" "cr3 calling = 1"
  "envs calling 0 = parent_env" "envs calling 1 = child_env" "env_free_list calling = Some 2"
  by (simp_all add: calling_def two_envs_def parent_env_def)

lemma calling_same: "kinv calling" "dirs calling = {1, 6}" "live calling e \<longleftrightarrow> e = 0 \<or> e = 1"
  using two_envs_kinv two_envs_dirs two_envs_live by (simp_all add: calling_def)

lemma calling_ctx: "user_ctx calling 0"
  using calling_same by (simp add: user_ctx_def in_call_def cur_ok_def calling_fields parent_env_def)

lemma calling_call: "in_call calling 0"
  by (rule user_ctxD(1) [OF calling_ctx])

definition demo_machine :: machine where
  "demo_machine = \<lparr>kern = two_envs, dev = demo_dev, nic = demo_nic\<rparr>"

lemma calling_free: "free_pages calling = [2, 3]"
  using two_envs_free by (simp add: calling_def)

lemma calling_small: "refs_small calling"
  unfolding refs_small_def calling_same using two_envs_mappers by (simp add: calling_def)

lemma calling_id2env: "envid2env 0 chk calling = Inr (0, Some 0)" "envid2env 0x1001 chk calling = Inr (0, Some 1)"
  using calling_fields by (simp_all add: envid2env_def ENVX_mod Let_def parent_env_def child_env_def)

definition demo_inputs :: inputs where
  "demo_inputs = \<lparr>in_cr2 = 0x800004, in_icr = 0, in_junk = NO_CLICK\<rparr>"

definition call_frame :: "u32 \<Rightarrow> Trapframe" where
  "call_frame no = fresh_tf\<lparr>tf_trapno := T_SYSCALL, tf_regs := (tf_regs fresh_tf)\<lparr>reg_eax := no\<rparr>\<rparr>"

lemma call_frame_user: "tf_cs (call_frame no) AND 3 = 3"
  by (simp add: call_frame_def fresh_tf_def GD_UT_def)

lemma call_frame_pre: "trap_pre (call_frame SYS_exofork) m"
  by (simp add: trap_pre_def call_frame_def call_pre_def jos_const)

lemma demo_entry: "user_entry (kern demo_machine) 0"
  using out_ok_entry(1) [OF two_envs_run] by (simp add: demo_machine_def)

text \<open>The child has been made runnable.\<close>

definition both_run :: machine where
  "both_run = demo_machine\<lparr>kern := upd_env 1 (\<lambda>v. v\<lparr>env_status := ENV_RUNNABLE\<rparr>) two_envs\<rparr>"

lemma both_run_ok: "out_ok (Run 0 :: unit outcome) (kern both_run)"
proof -
  let ?g = "\<lambda>v. v\<lparr>env_status := ENV_RUNNABLE\<rparr>"
  have "soft ?g (envs two_envs 1)" using two_envs_live [of 1] by (simp add: soft_def live_def)
  then show ?thesis using two_envs_run
    by (simp add: both_run_def out_ok_def kinv_soft soft_cong del: One_nat_def)
qed

end
