(* ===== verification/Fairness.thy ===== *)
theory Fairness
  imports TwoEnvs
begin

text \<open>
  The round-robin scheduler of \<^verbatim>\<open>kern/sched.c\<close> lets every runnable environment run: a measure
  of how far the scan still has to go decreases with every trap that gives up the CPU.
\<close>

section \<open>Fairness of the scheduler\<close>

text \<open>How many table entries lie between the running environment and another one.\<close>

definition away :: "nat \<Rightarrow> nat \<Rightarrow> nat" where
  "away c e = (if c < e then e - c - 1 else e + NENV - c - 1)"

lemma away_less: "c < NENV \<Longrightarrow> e < NENV \<Longrightarrow> away c e < NENV"
  by (auto simp: away_def)

lemma wrap_once: "a < 2 * NENV \<Longrightarrow> a mod NENV = (if a < NENV then a else a - NENV)"
  by (simp add: le_mod_geq)

lemma away_step:
  assumes "c < NENV" "e < NENV" "j < away c e"
  shows "away ((c + 1 + j) mod NENV) e < away c e" "(c + 1 + j) mod NENV \<noteq> e"
proof -
  have m: "(c + 1 + j) mod NENV = (if c + 1 + j < NENV then c + 1 + j else c + 1 + j - NENV)"
    using assms by (intro wrap_once) (auto simp: away_def split: if_splits)
  show "away ((c + 1 + j) mod NENV) e < away c e" "(c + 1 + j) mod NENV \<noteq> e"
    using assms unfolding m by (auto simp: away_def split: if_splits)
qed

lemma away_hit: "c < NENV \<Longrightarrow> e < NENV \<Longrightarrow> (c + 1 + away c e) mod NENV = e"
  by (subst wrap_once) (auto simp: away_def)

lemma find_first:
  assumes "k < n" and "P (f k)"
  shows "\<exists>j \<le> k. List.find P (map f [0..<n]) = Some (f j) \<and> P (f j)"
proof -
  define j where "j = (LEAST j. P (f j))"
  have j: "P (f j)" "j \<le> k" using assms(2) by (auto simp: j_def intro: LeastI Least_le)
  have "\<not> P (f i)" if "i < j" for i using that not_less_Least unfolding j_def by blast
  then have "List.find P (map f [0..<n]) = Some (f j)"
    unfolding find_Some_iff using j assms(1) by (intro exI [of _ j]) simp
  then show ?thesis using j by blast
qed

text \<open>The state after \<^verbatim>\<open>env_run\<close> does not depend on who called it.\<close>

lemma env_run_poly:
  "env_run (Some e) s = Inr (Run e :: 'a outcome, s') \<Longrightarrow> env_run (Some e) s = Inr (Run e :: 'b outcome, s')"
  by (auto simp: env_run_def Let_def env_pop_tf_def unlock_kernel_def split: option.splits if_splits)

lemma yield_step:
  assumes k: "kinv s" and cu: "cur_ok s" "curenv s = Some c" and r: "env_status (envs s c) = ENV_RUNNING"
  shows "\<exists>i s'. sched_yield s = Inr (Run i :: 'a outcome, s') \<and> sched_yield s = Inr (Run i :: 'b outcome, s') \<and>
     out_ok (Run i :: 'a outcome) s' \<and> ticks s' = ticks s \<and>
     (\<forall>e < NENV. env_status (envs s e) = ENV_RUNNABLE \<longrightarrow>
        i = e \<or> env_status (envs s' e) = ENV_RUNNABLE \<and> away i e < away c e)"
proof -
  have lc: "live s c" using cu by (simp add: cur_ok_def)
  then have c: "c < NENV" by (simp add: live_def)
  have "env_id (envs s c) \<noteq> 0" using env_invD(4) [OF kinvD(1) [OF k] lc] .
  then have st: "sched_start s = c + 1" using env_invD(3) [OF kinvD(1) [OF k] c] cu(2) by (simp add: sched_start_def)
  let ?f = "\<lambda>j. (sched_start s + j) mod NENV"
  let ?P = "\<lambda>i. env_status (envs s i) = ENV_RUNNABLE"
  obtain i where i: "live s i" "\<forall>(_ :: 'a). sched_yield s = (env_run (Some i) s :: ('a outcome \<times> kstate) exec)"
      "\<forall>(_ :: 'b). sched_yield s = (env_run (Some i) s :: ('b outcome \<times> kstate) exec)"
      "\<forall>e < NENV. ?P e \<longrightarrow> i = e \<or> away i e < away c e"
  proof (cases "\<exists>e < NENV. ?P e")
    case True
    have first: "\<exists>j \<le> away c e. List.find ?P (map ?f [0..<NENV]) = Some (?f j) \<and> ?P (?f j)" if "e < NENV" "?P e" for e
      using find_first [of "away c e" NENV ?P ?f] away_less [OF c that(1)] away_hit [OF c that(1)] that(2) st by simp
    then obtain i where i: "List.find ?P (map ?f [0..<NENV]) = Some i" "?P i" using True by blast
    have "i = e \<or> away i e < away c e" if e: "e < NENV" "?P e" for e
    proof -
      obtain j where j: "j \<le> away c e" "i = ?f j" using first [OF e] i(1) by auto
      then show ?thesis using away_hit [OF c e(1)] away_step [OF c e(1), of j] st by (cases "j = away c e") auto
    qed
    moreover have "i < NENV" using i(1) by (auto simp: find_Some_iff NENV_def)
    ultimately show ?thesis using that [of i] i by (auto simp: sched_yield_def find_runnable_eq live_def)
  next
    case False
    then have "List.find ?P (map ?f [0..<NENV]) = None" by (auto simp: find_None_iff NENV_def)
    then show ?thesis using that [of c] False lc cu r by (auto simp: sched_yield_def find_runnable_eq)
  qed
  obtain s' where s': "env_run (Some i) s = Inr (Run i :: 'a outcome, s')" "out_ok (Run i :: 'a outcome) s'"
      "\<forall>x. x \<noteq> i \<and> Some x \<noteq> curenv s \<longrightarrow> envs s' x = envs s x"
    using env_run_spec [OF k cu(1) i(1)] by blast
  have "ticks s' = ticks s" using s'(1)
    by (auto simp: env_run_def Let_def env_pop_tf_def unlock_kernel_def split: option.splits if_splits)
  moreover have "env_status (envs s' e) = ENV_RUNNABLE" if "?P e" "i \<noteq> e" for e
    using that s'(3) r cu(2) by auto
  ultimately show ?thesis using i(2-4) s'(1,2) env_run_poly [OF s'(1)]
    by (intro exI [of _ i] exI [of _ s']) auto
qed

text \<open>A trap in which the environment gives up the CPU: a call of \<^verbatim>\<open>sys_yield\<close> or a clock interrupt.\<close>

definition gives_up :: "Trapframe \<Rightarrow> bool" where
  "gives_up tf \<longleftrightarrow> tf_cs tf AND 3 = 3 \<and>
     (tf_trapno tf = T_SYSCALL \<and> reg_eax (tf_regs tf) = SYS_yield \<or> tf_trapno tf = IRQ_OFFSET + IRQ_TIMER)"

lemma trap_gives_up:
  assumes o: "out_ok (Run c :: unit outcome) (kern m)" and g: "gives_up tf" and t: "unat (ticks (kern m)) * 10 + 10 < 2 ^ 32"
  shows "\<exists>i m'. trap inp va tf m = Some (Inr (Run i, m')) \<and> out_ok (Run i :: unit outcome) (kern m') \<and>
     unat (ticks (kern m')) \<le> unat (ticks (kern m)) + 1 \<and>
     (\<forall>e < NENV. env_status (envs (kern m) e) = ENV_RUNNABLE \<longrightarrow>
        i = e \<or> env_status (envs (kern m') e) = ENV_RUNNABLE \<and> away i e < away c e)"
proof -
  define s where "s = upd_env c (\<lambda>v. v\<lparr>env_tf := tf\<rparr>) ((kern m)\<lparr>cpu_status := CPU_STARTED, kernel_locked := True\<rparr>)"
  have k: "kinv (kern m)" "curenv (kern m) = Some c" "live (kern m) c" "env_status (envs (kern m) c) = ENV_RUNNING"
    "\<not> kernel_locked (kern m)" "cpu_status (kern m) = CPU_STARTED"
    using o by (simp_all add: out_ok_def)
  have soft: "soft (\<lambda>v. v\<lparr>env_tf := tf\<rparr>) (envs ((kern m)\<lparr>cpu_status := CPU_STARTED, kernel_locked := True\<rparr>) c)"
    by (simp add: soft_def)
  have st: "kinv s" "cur_ok s" "curenv s = Some c" "\<And>e. env_status (envs s e) = env_status (envs (kern m) e)" "ticks s = ticks (kern m)"
    using k kinv_soft [OF soft] by (simp_all add: s_def cur_ok_def soft_cong [OF soft])
  have t1: "unat (ticks (kern m) + 1) = unat (ticks (kern m)) + 1" using t by (simp add: unat_word_ariths)
  have tr: "trap inp va tf m = bindM (trap_dispatch inp va (Some c) tf (m\<lparr>kern := s\<rparr>)) (\<lambda>_ m. trap_return m)"
    using g k by (simp add: gives_up_def trap_def liftK_def trap_lock_def lock_kernel_def Let_def s_def)
  show ?thesis
  proof (cases "tf_trapno tf = T_SYSCALL")
    case True
    then have "reg_eax (tf_regs tf) = SYS_yield" using g by (simp add: gives_up_def jos_const)
    moreover obtain i s' where y: "sched_yield s = Inr (Run i :: int outcome, s')" "out_ok (Run i :: unit outcome) s'" "ticks s' = ticks s"
       "\<forall>e < NENV. env_status (envs s e) = ENV_RUNNABLE \<longrightarrow> i = e \<or> env_status (envs s' e) = ENV_RUNNABLE \<and> away i e < away c e"
      using yield_step [OF st(1-3), where 'a = unit and 'b = int] st(4) k(4) by auto
    ultimately have "trap inp va tf m = Some (Inr (Run i, m\<lparr>kern := s'\<rparr>))"
      using True unfolding tr by (simp add: trap_dispatch_def syscall_def liftK_def sys_yield_def jos_const Let_def)
    then show ?thesis using y st by (intro exI [of _ i] exI [of _ "m\<lparr>kern := s'\<rparr>"]) simp
  next
    case False
    then have no: "tf_trapno tf = IRQ_OFFSET + IRQ_TIMER" using g by (simp add: gives_up_def)
    define u where "u = (if cpunum s = 0 then s\<lparr>ticks := ticks s + 1\<rparr> else s)"
    have u: "kinv u" "cur_ok u" "curenv u = Some c" "envs u = envs s" "unat (ticks u) \<le> unat (ticks (kern m)) + 1"
      using st t1 by (simp_all add: u_def cur_ok_def)
    obtain i s' where y: "sched_yield u = Inr (Run i :: unit outcome, s')" "out_ok (Run i :: unit outcome) s'" "ticks s' = ticks u"
       "\<forall>e < NENV. env_status (envs u e) = ENV_RUNNABLE \<longrightarrow> i = e \<or> env_status (envs s' e) = ENV_RUNNABLE \<and> away i e < away c e"
      using yield_step [OF u(1-3), where 'a = unit and 'b = int] st(4) k(4) u(4) by auto
    have "time_tick s = Inr (s\<lparr>ticks := ticks s + 1\<rparr>)" using time_tick_ok [of s] st(5) t by simp
    then have "trap inp va tf m = Some (Inr (Run i, m\<lparr>kern := s'\<rparr>))"
      using no y(1) unfolding tr by (auto simp: trap_dispatch_def liftK_def jos_const Let_def u_def split: if_splits)
    then show ?thesis using y st u by (intro exI [of _ i] exI [of _ "m\<lparr>kern := s'\<rparr>"]) simp
  qed
qed

text \<open>A sequence of such traps, with the environments that get the CPU.\<close>

fun turns :: "inputs \<Rightarrow> Trapframe list \<Rightarrow> machine \<Rightarrow> (nat list \<times> machine) option" where
  "turns inp [] m = Some ([], m)"
| "turns inp (tf # tfs) m =
     (case trap inp 0 tf m of
        Some (Inr (Run e, m1)) \<Rightarrow> map_option (\<lambda>(es, m2). (e # es, m2)) (turns inp tfs m1)
      | _ \<Rightarrow> None)"

lemma turns_reach:
  "out_ok (Run c :: unit outcome) (kern m) \<Longrightarrow> \<forall>tf \<in> set tfs. gives_up tf \<Longrightarrow>
   unat (ticks (kern m)) * 10 + 10 * length tfs < 2 ^ 32 \<Longrightarrow>
   \<exists>es m'. turns inp tfs m = Some (es, m') \<and> out_ok (Run (last (c # es)) :: unit outcome) (kern m') \<and>
     (\<forall>e < NENV. env_status (envs (kern m) e) = ENV_RUNNABLE \<and> away c e < length tfs \<longrightarrow> e \<in> set es)"
proof (induction tfs arbitrary: c m)
  case (Cons tf tfs)
  obtain i m1 where t: "trap inp 0 tf m = Some (Inr (Run i, m1))" "out_ok (Run i :: unit outcome) (kern m1)"
      "unat (ticks (kern m1)) \<le> unat (ticks (kern m)) + 1"
      "\<forall>e < NENV. env_status (envs (kern m) e) = ENV_RUNNABLE \<longrightarrow>
        i = e \<or> env_status (envs (kern m1) e) = ENV_RUNNABLE \<and> away i e < away c e"
  proof -
    have "gives_up tf" "unat (ticks (kern m)) * 10 + 10 < 2 ^ 32" using Cons.prems(2,3) by simp_all
    from trap_gives_up [OF Cons.prems(1) this, of inp 0] show ?thesis using that by blast
  qed
  have "unat (ticks (kern m1)) * 10 + 10 * length tfs < 2 ^ 32" using t(3) Cons.prems(3) by simp
  then obtain es m' where "turns inp tfs m1 = Some (es, m')" "out_ok (Run (last (i # es)) :: unit outcome) (kern m')"
      "\<forall>e < NENV. env_status (envs (kern m1) e) = ENV_RUNNABLE \<and> away i e < length tfs \<longrightarrow> e \<in> set es"
    using Cons.IH [OF t(2)] Cons.prems(2) by auto
  then show ?case using t(1,4) by (intro exI [of _ "i # es"] exI [of _ m']) fastforce
qed simp

text \<open>
  C6: No runnable environment starves. As long as the environments only give up the CPU, by
  \<^verbatim>\<open>sys_yield\<close> or at a clock interrupt, every environment that is runnable at the start has
  run after at most \<^verbatim>\<open>NENV\<close> traps, and the CPU never idles.
\<close>

theorem round_robin_fair:
  assumes "out_ok (Run c :: unit outcome) (kern m)" and "\<forall>tf \<in> set tfs. gives_up tf" and "NENV \<le> length tfs"
    and "unat (ticks (kern m)) * 10 + 10 * length tfs < 2 ^ 32"
  shows "\<exists>es m'. turns inp tfs m = Some (es, m') \<and>
     (\<forall>e < NENV. env_status (envs (kern m) e) = ENV_RUNNABLE \<longrightarrow> e \<in> set es)"
proof -
  have "c < NENV" using assms(1) by (simp add: out_ok_def live_def)
  then have "away c e < length tfs" if "e < NENV" for e using away_less [of c e] that assms(3) by simp
  then show ?thesis using turns_reach [OF assms(1,2,4)] by blast
qed

lemma round_robin_fair_witness:
  "\<exists>es m'. turns demo_inputs (replicate NENV (call_frame SYS_yield)) both_run = Some (es, m') \<and> 1 \<in> set es"
proof -
  have g: "\<forall>tf \<in> set (replicate NENV (call_frame SYS_yield)). gives_up tf"
    using call_frame_user by (simp add: gives_up_def call_frame_def)
  have t: "ticks (kern both_run) = 0" "env_status (envs (kern both_run) 1) = ENV_RUNNABLE" "1 < NENV"
    by (simp_all add: both_run_def two_envs_def NENV_def)
  from round_robin_fair [OF both_run_ok g, of demo_inputs] show ?thesis using t by (auto simp: NENV_def)
qed

end
