(* ===== verification/UserTraps.thy ===== *)
theory UserTraps
  imports TwoEnvs
begin

text \<open>
  Traps as user code sees them: stores into user memory are read back, a page fault
  arrives in the registered handler with a complete frame, \<^verbatim>\<open>sys_cputs\<close> reads too far, and the
  interrupt descriptor table lets user code raise two vectors only.
\<close>

section \<open>Loads after stores\<close>

lemma bit_put_byte:
  "bit (put_byte k b w) n \<longleftrightarrow> n < 32 \<and> (if 8 * k \<le> n \<and> n < 8 * k + 8 then bit b (n - 8 * k) else bit w n)"
proof -
  have ff: "(0xFF :: u32) = mask 8" by (simp add: mask_eq_exp_minus_1)
  have "bit b m \<Longrightarrow> m < 8" for m using bit_imp_le_length [of b m] by simp
  then show ?thesis unfolding put_byte_def ff
    by (auto simp: bit_simps dest: bit_imp_le_length)
qed

lemma get_put_byte:
  "k < 4 \<Longrightarrow> get_byte k (put_byte k b w) = b"
  "k < 4 \<Longrightarrow> j < 4 \<Longrightarrow> j \<noteq> k \<Longrightarrow> get_byte j (put_byte k b w) = get_byte j w"
proof -
  assume "k < 4"
  then show "get_byte k (put_byte k b w) = b"
    by (intro bit_word_eqI) (auto simp: get_byte_def bit_put_byte bit_simps)
next
  assume "k < 4" "j < 4" "j \<noteq> k"
  then show "get_byte j (put_byte k b w) = get_byte j w"
    by (intro bit_word_eqI) (auto simp: get_byte_def bit_put_byte bit_simps)
qed

lemma load_after_store:
  assumes st: "store_byte va b s = Inr t" and same: "store_same s t" and d: "cr3 s \<in> dirs s" and a: "a < UTOP" "va < UTOP"
  shows "a = va \<Longrightarrow> load_byte a t = Inr b" and "PGOFF a \<noteq> PGOFF va \<Longrightarrow> load_byte a t = load_byte a s"
proof -
  obtain e where e: "pte_at s (cr3 s) (unat (PDX va)) (unat (PTX va)) = Some e"
    and t: "t = set_word (unat (PGNUM e)) (unat (PGOFF va) div 4)
       (put_byte (unat (PGOFF va) mod 4) b (pmem s (unat (PGNUM e)) (unat (PGOFF va) div 4))) s"
    using st by (auto simp: store_byte_def Let_def split: option.splits if_splits)
  have v: "pte_at t (cr3 t) (unat (PDX x)) (unat (PTX x)) = pte_at s (cr3 s) (unat (PDX x)) (unat (PTX x))" if "x < UTOP" for x
    using same d that by (simp add: store_same_def same_view_def user_va_iff)
  show "load_byte a t = Inr b" if "a = va"
    using that v [OF a(2)] e by (simp add: load_byte_def t get_put_byte)
  assume "PGOFF a \<noteq> PGOFF va"
  then have ne: "unat (PGOFF a) \<noteq> unat (PGOFF va)" by (simp add: word_unat_eq_iff)
  have "get_byte (unat (PGOFF a) mod 4) (pmem t f (unat (PGOFF a) div 4)) =
      get_byte (unat (PGOFF a) mod 4) (pmem s f (unat (PGOFF a) div 4))" for f
  proof (cases "unat (PGOFF a) div 4 = unat (PGOFF va) div 4 \<and> f = unat (PGNUM e)")
    case True
    then have "unat (PGOFF a) mod 4 \<noteq> unat (PGOFF va) mod 4" using ne by (metis div_mult_mod_eq)
    then show ?thesis using True by (simp add: t get_put_byte)
  qed (auto simp: t)
  then show "load_byte a t = load_byte a s" using v [OF a(1)] by (simp add: load_byte_def split: option.split)
qed

text \<open>A list of bytes stored over less than a page is read back, even where pages are mapped twice.\<close>

lemma store_bytes_load:
  assumes "perm AND PTE_W \<noteq> 0"
  shows "kinv s \<Longrightarrow> cr3 s \<in> dirs s \<Longrightarrow> unat va + length bs \<le> unat UTOP \<Longrightarrow> length bs \<le> 4096 \<Longrightarrow>
    (\<And>b. va \<le> b \<Longrightarrow> unat b < unat va + length bs \<Longrightarrow> allowed s (cr3 s) perm b) \<Longrightarrow>
    \<exists>t. store_bytes bs va s = Inr t \<and> store_same s t \<and>
      (\<forall>i < length bs. load_byte (va + of_nat i) t = Inr (bs ! i)) \<and>
      (\<forall>a < UTOP. (\<forall>i < length bs. PGOFF a \<noteq> PGOFF (va + of_nat i)) \<longrightarrow> load_byte a t = load_byte a s)"
proof (induction bs arbitrary: va s)
  case Nil
  then show ?case by (simp add: store_same_def cpu_same_def same_view_def)
next
  case (Cons b bs)
  have va: "va < UTOP" using Cons.prems(3) by (simp add: word_less_nat_alt)
  have ub: "unat va + length (b # bs) < 4294967296" using Cons.prems(3) by (simp add: jos_const)
  have un: "unat (va + of_nat i) = unat va + i" if "i < length (b # bs)" for i
    using that ub by (simp add: unat_word_ariths unat_of_nat)
  have "allowed s (cr3 s) perm va" using Cons.prems(5) by simp
  from store_byte_user [OF Cons.prems(1,2) va this assms] obtain t
    where t: "store_byte va b s = Inr t" "store_same s t" by blast
  have c: "cr3 t = cr3 s" "dirs t = dirs s" "kinv t" using t(2) by (simp_all add: store_same_def)
  have u1: "unat (va + 1) = unat va + 1" using un [of 1] by (cases bs) (use ub in \<open>auto simp: unat_word_ariths\<close>)
  have "allowed t (cr3 t) perm a" if "va + 1 \<le> a" "unat a < unat (va + 1) + length bs" for a
  proof -
    have "va \<le> a" "unat a < unat va + length (b # bs)" using that u1 by (simp_all add: word_le_nat_alt)
    moreover from this have "a < UTOP" using Cons.prems(3) by (simp add: word_less_nat_alt)
    ultimately show ?thesis using Cons.prems(2,5) allowed_same [OF t(2)] c by simp
  qed
  then obtain u where u: "store_bytes bs (va + 1) t = Inr u" "store_same t u"
      "\<forall>i < length bs. load_byte (va + 1 + of_nat i) u = Inr (bs ! i)"
      "\<forall>a < UTOP. (\<forall>i < length bs. PGOFF a \<noteq> PGOFF (va + 1 + of_nat i)) \<longrightarrow> load_byte a u = load_byte a t"
    using Cons.IH [of t "va + 1"] c Cons.prems(2,3,4) u1 by auto
  have off: "PGOFF va \<noteq> PGOFF (va + 1 + of_nat i)" if "i < length bs" for i
  proof
    assume "PGOFF va = PGOFF (va + 1 + of_nat i)"
    then have "unat va mod 4096 = (unat va + (Suc i)) mod 4096"
      using un [of "Suc i"] that unat_PGOFF [of va] unat_PGOFF [of "va + of_nat (Suc i)"] by (simp add: add.assoc)
    then have "4096 dvd Suc i" by (metis add_diff_cancel_left' le_add1 mod_eq_dvd_iff_nat)
    then show False using that Cons.prems(4) dvd_imp_le [of 4096 "Suc i"] by simp
  qed
  have b: "load_byte va u = Inr b" using u(4) va off load_after_store(1) [OF t Cons.prems(2) va va] by simp
  have all: "load_byte (va + of_nat i) u = Inr ((b # bs) ! i)" if "i < length (b # bs)" for i
    using that b u(3) by (cases i) (simp_all add: add.assoc)
  have oth: "load_byte a u = load_byte a s"
    if a: "a < UTOP" and o: "\<forall>i < length (b # bs). PGOFF a \<noteq> PGOFF (va + of_nat i)" for a
  proof -
    have "PGOFF a \<noteq> PGOFF va" "\<forall>i < length bs. PGOFF a \<noteq> PGOFF (va + 1 + of_nat i)"
      using o [rule_format, of 0] o [rule_format, of "Suc i" for i] by (auto simp: add.assoc)
    then show ?thesis using u(4) a load_after_store(2) [OF t Cons.prems(2) a va] by simp
  qed
  show ?case using t u(1,2) store_same_trans all oth by (intro exI [of _ u]) auto
qed

lemma bit_get_byte: "bit (get_byte k w) n \<longleftrightarrow> n < 8 \<and> bit w (8 * k + n)"
  by (simp add: get_byte_def bit_simps)

lemma load_u32_bytes:
  assumes "\<And>i. i < 4 \<Longrightarrow> load_byte (va + of_nat i) t = Inr (bytes_of_u32 w ! i)"
  shows "load_u32 va t = Inr w"
proof -
  let ?x = "ucast (get_byte 0 w) OR push_bit 8 (ucast (get_byte 1 w)) OR push_bit 16 (ucast (get_byte 2 w)) OR
      push_bit 24 (ucast (get_byte 3 w)) :: u32"
  have w: "?x = w"
  proof (rule bit_word_eqI)
    fix n assume "n < LENGTH(32)"
    then have "n < 8 \<or> 8 \<le> n \<and> n < 16 \<or> 16 \<le> n \<and> n < 24 \<or> 24 \<le> n \<and> n < 32" by auto
    then show "bit ?x n = bit w n"
      by (elim disjE conjE) (simp_all add: bit_get_byte bit_simps, auto)
  qed
  show ?thesis using assms [of 0] assms [of 1] assms [of 2] assms [of 3] w
    by (simp add: load_u32_def bytes_of_u32_def)
qed

lemma load_words_bytes:
  "(\<And>i. i < 4 * length ws \<Longrightarrow> load_byte (va + of_nat i) t = Inr (concat (map bytes_of_u32 ws) ! i)) \<Longrightarrow>
   load_words (length ws) va t = Inr ws"
proof (induction ws arbitrary: va)
  case (Cons w ws)
  have "load_u32 va t = Inr w"
  proof (rule load_u32_bytes)
    fix i :: nat assume "i < 4"
    then show "load_byte (va + of_nat i) t = Inr (bytes_of_u32 w ! i)"
      using Cons.prems [of i] by (simp add: nth_append)
  qed
  moreover have "load_words (length ws) (va + 4) t = Inr ws"
  proof (rule Cons.IH)
    fix i assume "i < 4 * length ws"
    then show "load_byte (va + 4 + of_nat i) t = Inr (concat (map bytes_of_u32 ws) ! i)"
      using Cons.prems [of "i + 4"] by (simp add: nth_append ac_simps)
  qed
  ultimately show ?case by simp
qed simp

lemma load_cong:
  assumes "pmem t = pmem s" and "cr3 t = cr3 s"
  shows "load_byte a t = load_byte a s" and "load_words n a t = load_words n a s"
proof -
  show b: "load_byte a t = load_byte a s" for a
    using assms by (simp add: load_byte_def pte_at_def pde_present_def pt_frame_def)
  show "load_words n a t = load_words n a s" by (induction n arbitrary: a) (simp_all add: load_u32_def b)
qed

lemma env_run_mem:
  assumes "env_run (Some e) s = Inr (Run e, s')"
  shows "pmem s' = pmem s" and "env_pgdir (envs s e) = Some (cr3 s')" and "env_tf (envs s' x) = env_tf (envs s x)"
  using assms by (auto simp: env_run_def Let_def env_pop_tf_def unlock_kernel_def split: option.splits if_splits)

section \<open>Page faults\<close>

lemma user_mem_assert_pass:
  assumes c: "user_ctx s c" and l: "0 < len" and r: "range_ok s (perm OR PTE_U OR PTE_P) va (unat len)"
  shows "user_mem_assert c va len perm s = Inr (Ret (), s)"
proof -
  have p: "env_pgdir (envs s c) = Some (cr3 s)" using c by (simp add: user_ctx_def)
  note ic = user_ctxD(1) [OF c]
  have d: "cr3 s \<in> dirs s" using dirsI [OF in_callD(4) [OF ic] p] .
  have "user_mem_check (cr3 s) va len (perm OR PTE_U) s = Inr (0, s)"
    using user_mem_check_spec [OF kinvD(2) [OF in_callD(1) [OF ic]] d l, of va "perm OR PTE_U"] r
    by (auto simp: range_ok_def or.assoc)
  then show ?thesis by (simp add: user_mem_assert_def env_dir_def p)
qed

lemma page_fault_frame:
  fixes tf :: Trapframe and inp :: inputs
  defines "frame \<equiv> utf_frame (tf_esp tf)"
    and "utf \<equiv> \<lparr>utf_fault_va = in_cr2 inp, utf_err = tf_err tf, utf_regs = tf_regs tf,
             utf_eip = tf_eip tf, utf_eflags = tf_eflags tf, utf_esp = tf_esp tf\<rparr>"
  assumes uc: "user_ctx (kern m) c" and tf: "tf_cs tf AND 3 = 3" and up: "env_pgfault_upcall (envs (kern m) c) \<noteq> 0"
    and rng: "range_ok (kern m) (PTE_W OR PTE_U OR PTE_P) frame 52"
  shows "\<exists>m'. page_fault_handler inp va tf m = Some (Inr (Run c, m')) \<and> out_ok (Run c :: unit outcome) (kern m') \<and>
    env_tf (envs (kern m') c) = (env_tf (envs (kern m) c))\<lparr>tf_eip := env_pgfault_upcall (envs (kern m) c), tf_esp := frame\<rparr> \<and>
    load_words 13 frame (kern m') = Inr (words_of_utf utf) \<and>
    (\<forall>a < UTOP. (\<forall>i < 52. PGOFF a \<noteq> PGOFF (frame + of_nat i)) \<longrightarrow> load_byte a (kern m') = load_byte a (kern m))"
proof -
  let ?s = "kern m" and ?bs = "concat (map bytes_of_u32 (words_of_utf utf))"
  let ?up = "\<lambda>v. v\<lparr>env_tf := (env_tf v)\<lparr>tf_eip := env_pgfault_upcall v, tf_esp := frame\<rparr>\<rparr>"
  note ic = user_ctxD(1) [OF uc]
  have d: "cr3 ?s \<in> dirs ?s" using uc dirsI [OF in_callD(4) [OF ic]] by (simp add: user_ctx_def)
  have len: "length ?bs = 52" by (simp add: words_of_utf_def)
  obtain t where t: "store_bytes ?bs frame ?s = Inr t" "store_same ?s t"
      "\<forall>i < 52. load_byte (frame + of_nat i) t = Inr (?bs ! i)"
      "\<forall>a < UTOP. (\<forall>i < 52. PGOFF a \<noteq> PGOFF (frame + of_nat i)) \<longrightarrow> load_byte a t = load_byte a ?s"
    using store_bytes_load [OF perm_W in_callD(1) [OF ic] d, of frame ?bs] rng len by (auto simp: range_ok_def)
  define v where "v = upd_env c ?up t"
  have tc: "in_call t c" using t(2) ic cur_ok_same [of ?s t] by (simp add: store_same_def in_call_def)
  have "soft ?up (envs t c)" by (simp add: soft_def)
  then have vc: "in_call v c" unfolding v_def by (rule in_call_soft(1) [OF tc])
  obtain s' where s': "env_run (Some c) v = Inr (Run c :: unit outcome, s')" "out_ok (Run c :: unit outcome) s'"
    using env_run_spec [OF in_callD(1,2,4) [OF vc]] by blast
  note M = env_run_mem [OF s'(1)]
  have pg: "pmem s' = pmem t" "cr3 s' = cr3 t" using M uc t(2) by (simp_all add: v_def store_same_def user_ctx_def)
  have "(PTE_W OR PTE_U) OR PTE_U OR PTE_P = PTE_W OR PTE_U OR PTE_P" by (simp add: jos_const)
  then have as: "user_mem_assert c frame 52 (PTE_W OR PTE_U) ?s = Inr (Ret (), ?s)"
    using user_mem_assert_pass [OF uc, of 52 "PTE_W OR PTE_U" frame] rng by simp
  have "page_fault_handler inp va tf m = Some (Inr (Run c, m\<lparr>kern := s'\<rparr>))"
    using tf up t(1) s'(1) in_callD(3) [OF tc] as
    by (simp add: page_fault_handler_def Let_def bind_curM [OF uc] frame_def [symmetric] utf_def [symmetric]
          liftK_def storeM_def v_def)
  moreover have "load_words 13 frame s' = Inr (words_of_utf utf)"
  proof -
    have n: "length (words_of_utf utf) = 13" by (simp add: words_of_utf_def)
    then have "load_words (length (words_of_utf utf)) frame t = Inr (words_of_utf utf)"
      using t(3) by (intro load_words_bytes) (simp only: n)
    then show ?thesis unfolding load_cong(2) [OF pg] n .
  qed
  moreover have "envs t = envs ?s" using t(2) by (simp add: store_same_def)
  ultimately show ?thesis using s'(2) t(4) M(3) load_cong(1) [OF pg]
    by (intro exI [of _ "m\<lparr>kern := s'\<rparr>"]) (simp add: v_def)
qed

text \<open>
  C7: A page fault of an environment that has registered a handler resumes the environment
  in the handler. If the user exception stack is writable, the frame that \<^verbatim>\<open>trap\<close>
  leaves there, found at the new stack pointer, holds the faulting address, the error code and
  all registers of the interrupted code, so that the handler can return to it. For a
  fault inside the handler the frame lies below the interrupted stack with one free word between.
\<close>

theorem page_fault_upcall:
  assumes u: "user_entry (kern m) c" "env_status (envs (kern m) c) \<noteq> ENV_DYING"
    and tf: "tf_cs tf AND 3 = 3" "tf_trapno tf = T_PGFLT"
    and up: "env_pgfault_upcall (envs (kern m) c) \<noteq> 0"
    and rng: "range_ok (kern m) (PTE_W OR PTE_U OR PTE_P) (utf_frame (tf_esp tf)) 52"
  shows "\<exists>m'. trap inp va tf m = Some (Inr (Run c, m')) \<and> out_ok (Run c :: unit outcome) (kern m') \<and>
    env_tf (envs (kern m') c) = tf\<lparr>tf_eip := env_pgfault_upcall (envs (kern m) c), tf_esp := utf_frame (tf_esp tf)\<rparr> \<and>
    load_words 13 (utf_frame (tf_esp tf)) (kern m') =
      Inr (words_of_utf \<lparr>utf_fault_va = in_cr2 inp, utf_err = tf_err tf, utf_regs = tf_regs tf,
             utf_eip = tf_eip tf, utf_eflags = tf_eflags tf, utf_esp = tf_esp tf\<rparr>) \<and>
    (\<forall>a < UTOP. (\<forall>i < 52. PGOFF a \<noteq> PGOFF (utf_frame (tf_esp tf) + of_nat i)) \<longrightarrow>
       load_byte a (kern m') = load_byte a (kern m))"
proof -
  let ?s0 = "(kern m)\<lparr>cpu_status := CPU_STARTED, kernel_locked := True\<rparr>"
  define s where "s = upd_env c (\<lambda>v. v\<lparr>env_tf := tf\<rparr>) ?s0"
  have e: "kinv (kern m)" "curenv (kern m) = Some c" "live (kern m) c" "env_pgdir (envs (kern m) c) = Some (cr3 (kern m))"
    "\<not> kernel_locked (kern m)" "cpu_status (kern m) = CPU_STARTED"
    using u by (simp_all add: user_entry_def)
  have sg: "soft (\<lambda>v. v\<lparr>env_tf := tf\<rparr>) (envs ?s0 c)" by (simp add: soft_def)
  have ic: "in_call ?s0 c" using e by (simp add: in_call_def cur_ok_def)
  have uc: "user_ctx (kern (m\<lparr>kern := s\<rparr>)) c" using in_call_soft(1) [OF ic sg] e(4) by (simp add: user_ctx_def s_def)
  have r: "range_ok (kern (m\<lparr>kern := s\<rparr>)) (PTE_W OR PTE_U OR PTE_P) (utf_frame (tf_esp tf)) 52"
    using rng by (simp add: range_ok_def allowed_def s_def)
  have up': "env_pgfault_upcall (envs (kern (m\<lparr>kern := s\<rparr>)) c) \<noteq> 0" using up by (simp add: s_def)
  have tr: "trap inp va tf m = bindM (page_fault_handler inp va tf (m\<lparr>kern := s\<rparr>)) (\<lambda>_ m. trap_return m)"
    using u(2) tf e by (simp add: trap_def liftK_def trap_lock_def lock_kernel_def Let_def s_def trap_dispatch_def)
  have lb: "load_byte a s = load_byte a (kern m)" for a by (rule load_cong) (simp_all add: s_def)
  show ?thesis using page_fault_frame [OF uc tf(1) up' r, of inp va] unfolding tr
    by (auto simp: lb) (simp add: s_def)
qed

lemma demo_stack: "range_ok two_envs (PTE_W OR PTE_U OR PTE_P) (utf_frame USTACKTOP) 52"
  unfolding range_ok_def
proof (intro conjI allI impI)
  have f: "utf_frame USTACKTOP = 0xEEBFFFCC" by (simp add: utf_frame_def jos_const)
  then show "unat (utf_frame USTACKTOP) + 52 \<le> unat UTOP" by (simp add: jos_const)
  fix b assume b: "utf_frame USTACKTOP \<le> b \<and> unat b < unat (utf_frame USTACKTOP) + 52"
  then have "4005560268 \<le> unat b" "unat b < 4005560320" unfolding f by (simp_all add: word_le_nat_alt)
  then have "unat b div 4194304 = 954" "unat b div 4096 = 977919" by simp_all
  then have "unat (PDX b) = 954" "unat (PTX b) = 1023" unfolding unat_PDX unat_PTX by simp_all
  moreover have "pte_at two_envs 1 954 1023 = Some 0xA007" using two_envs_pte(2) [of 1 954 1023] by simp
  moreover have "cr3 two_envs = 1" by (simp add: two_envs_def)
  ultimately show "allowed two_envs (cr3 two_envs) (PTE_W OR PTE_U OR PTE_P) b" by (simp add: allowed_def jos_const)
qed

lemma page_fault_upcall_witness:
  "\<exists>m'. trap demo_inputs 0 (fresh_tf\<lparr>tf_trapno := T_PGFLT, tf_err := 6\<rparr>) demo_machine = Some (Inr (Run 0, m')) \<and>
     tf_eip (env_tf (envs (kern m') 0)) = 0x800020 \<and> tf_esp (env_tf (envs (kern m') 0)) = 0xEEBFFFCC \<and>
     load_words 13 0xEEBFFFCC (kern m') = Inr [0x800004, 6, 0, 0, 0, 0, 0, 0, 0, 0, 0, FL_IF, USTACKTOP]"
proof -
  let ?tf = "fresh_tf\<lparr>tf_trapno := T_PGFLT, tf_err := 6\<rparr>"
  have f: "utf_frame USTACKTOP = 0xEEBFFFCC" by (simp add: utf_frame_def jos_const)
  have d: "kern demo_machine = two_envs" "envs two_envs 0 = parent_env" "in_cr2 demo_inputs = 0x800004"
    by (simp_all add: demo_machine_def two_envs_def demo_inputs_def)
  have tf: "tf_esp ?tf = USTACKTOP" "tf_cs ?tf AND 3 = 3" "tf_trapno ?tf = T_PGFLT"
    by (simp_all add: fresh_tf_def GD_UT_def)
  have st: "env_status (envs (kern demo_machine) 0) \<noteq> ENV_DYING" "env_pgfault_upcall (envs (kern demo_machine) 0) = 0x800020"
    by (simp_all add: d parent_env_def)
  have "range_ok (kern demo_machine) (PTE_W OR PTE_U OR PTE_P) (utf_frame (tf_esp ?tf)) 52"
    using demo_stack by (simp add: tf d)
  from page_fault_upcall [OF demo_entry st(1) tf(2,3) _ this, of demo_inputs 0] st(2)
  obtain m' where m': "trap demo_inputs 0 ?tf demo_machine = Some (Inr (Run 0, m'))"
    "env_tf (envs (kern m') 0) = ?tf\<lparr>tf_eip := 0x800020, tf_esp := 0xEEBFFFCC\<rparr>"
    "load_words 13 0xEEBFFFCC (kern m') = Inr (words_of_utf \<lparr>utf_fault_va = 0x800004, utf_err = tf_err ?tf, utf_regs = tf_regs ?tf,
        utf_eip = tf_eip ?tf, utf_eflags = tf_eflags ?tf, utf_esp = USTACKTOP\<rparr>)"
    unfolding tf(1) f d(3) by auto
  then show ?thesis by (intro exI [of _ m']) (simp add: words_of_utf_def fresh_tf_def zero_tf_def zero_regs_def)
qed

section \<open>Printing user strings\<close>

lemma load_str_fault:
  "\<forall>i < n. load_byte (p + of_nat i) s = Inr (f i) \<and> f i \<noteq> 0 \<Longrightarrow> load_byte (p + of_nat n) s = Inl e \<Longrightarrow>
   load_str (int n) p s = Some (Inl e)"
proof (induction n arbitrary: p f)
  case 0
  then show ?case by (simp add: load_str.simps)
next
  case (Suc n)
  have "load_str (int n) (p + 1) s = Some (Inl e)"
  proof (rule Suc.IH [of "p + 1" "\<lambda>i. f (Suc i)"])
    show "\<forall>i < n. load_byte (p + 1 + of_nat i) s = Inr (f (Suc i)) \<and> f (Suc i) \<noteq> 0"
    proof (intro allI impI)
      fix i assume "i < n"
      then show "load_byte (p + 1 + of_nat i) s = Inr (f (Suc i)) \<and> f (Suc i) \<noteq> 0"
        using Suc.prems(1) [rule_format, of "Suc i"] by (simp add: add.assoc)
    qed
    show "load_byte (p + 1 + of_nat n) s = Inl e" using Suc.prems(2) by (simp add: add.assoc)
  qed
  moreover have "load_byte p s = Inr (f 0)" "f 0 \<noteq> 0" using Suc.prems(1) by (auto dest: spec [of _ 0])
  ultimately show ?case by (subst load_str.simps) simp
qed

text \<open>
  C25: A legal call of \<^verbatim>\<open>sys_cputs\<close> can kill the kernel. All bytes of the string are readable by
  the caller, so \<^verbatim>\<open>user_mem_assert\<close> lets it pass; but \<^verbatim>\<open>vprintfmt\<close> reads the byte behind the
  last one before it looks at the precision, and if that byte is on an unmapped page the kernel
  takes a page fault in kernel mode and panics.
\<close>

theorem cputs_overread:
  assumes c: "user_ctx (kern m) c" and l: "0 < len" "len < 0x80000000" "p \<noteq> 0"
    and r: "range_ok (kern m) (PTE_U OR PTE_P) p (unat len)"
    and nz: "\<forall>i < unat len. load_byte (p + of_nat i) (kern m) \<noteq> Inr 0"
    and behind: "pte_at (kern m) (cr3 (kern m)) (unat (PDX (p + len))) (unat (PTX (p + len))) = None"
  shows "sys_cputs p len m = Some (Inl (Panic ''page fault in kernel''))"
proof -
  have as: "user_mem_assert c p len 0 (kern m) = Inr (Ret (), kern m)"
    using user_mem_assert_pass [OF c l(1), of 0 p] r by simp
  have "\<exists>b. load_byte (p + of_nat i) (kern m) = Inr b \<and> b \<noteq> 0" if "i < unat len" for i
    using load_byte_user [OF range_okD(1) [OF range_ok_next [OF r, of i]]] that nz by auto
  then obtain f where "\<forall>i < unat len. load_byte (p + of_nat i) (kern m) = Inr (f i) \<and> f i \<noteq> 0" by metis
  moreover have "load_byte (p + of_nat (unat len)) (kern m) = Inl (Panic ''page fault in kernel'')"
    using behind by (simp add: load_byte_def)
  ultimately have ls: "load_str (int (unat len)) p (kern m) = Some (Inl (Panic ''page fault in kernel''))"
    by (rule load_str_fault)
  have "uint len < 2147483648" using l(2) by (simp add: word_less_def)
  then have "sint len = int (unat len)"
    using signed_take_bit_int_eq_self [of 31 "uint len"] order_trans [OF _ uint_ge_0 [of len]] by (simp add: sint_uint)
  then show ?thesis using l(3) ls
    by (simp add: sys_cputs_def bind_curM [OF c] liftK_def as load_strM_def)
qed

lemma cputs_overread_witness:
  "sys_cputs 0x800FFC 4 (demo_machine\<lparr>kern := calling\<rparr>) = Some (Inl (Panic ''page fault in kernel''))"
proof (rule cputs_overread)
  let ?s = "kern (demo_machine\<lparr>kern := calling\<rparr>)"
  have pt: "pte_at ?s (cr3 ?s) i j = pte_at two_envs 1 i j" for i j
    using calling_fields(4) by (simp add: calling_def)
  have al: "allowed ?s (cr3 ?s) (PTE_U OR PTE_P) b \<and> load_byte b ?s = Inr 0x41" if "0x800FFC \<le> unat b" "unat b < 0x801000" for b
  proof -
    have "unat b div 4194304 = 2" "unat b div 4096 = 2048" using that by simp_all
    then have "unat (PDX b) = 2" "unat (PTX b) = 0" unfolding unat_PDX unat_PTX by simp_all
    moreover have "pte_at two_envs 1 2 0 = Some 0x8007" using two_envs_pte(2) [of 1 2 0] by simp
    moreover have "pmem calling 8 i = 0x41414141" for i by (simp add: calling_def two_envs_def)
    moreover have "get_byte k 0x41414141 = 0x41" if "k < 4" for k
    proof -
      have "k = 0 \<or> k = 1 \<or> k = 2 \<or> k = 3" using that by auto
      then show ?thesis by (elim disjE) (simp_all add: get_byte_def)
    qed
    ultimately show ?thesis using pt by (simp add: allowed_def load_byte_def jos_const PGNUM_def)
  qed
  show "user_ctx ?s 0" using calling_ctx by simp
  show "range_ok ?s (PTE_U OR PTE_P) 0x800FFC (unat (4 :: u32))"
    using al by (auto simp: range_ok_def jos_const word_le_nat_alt)
  show "\<forall>i < unat (4 :: u32). load_byte (0x800FFC + of_nat i) ?s \<noteq> Inr 0"
  proof (intro allI impI)
    fix i assume "i < unat (4 :: u32)"
    then have "unat (0x800FFC + of_nat i :: u32) = 0x800FFC + i" by (simp add: unat_word_ariths unat_of_nat)
    then show "load_byte (0x800FFC + of_nat i) ?s \<noteq> Inr 0" using al [of "0x800FFC + of_nat i"] \<open>i < unat (4 :: u32)\<close> by simp
  qed
  show "pte_at ?s (cr3 ?s) (unat (PDX (0x800FFC + 4))) (unat (PTX (0x800FFC + 4))) = None"
    unfolding pt using two_envs_pte(2) [of 1 2 1] by (simp add: unat_PDX unat_PTX)
qed simp_all

section \<open>The interrupt descriptor table\<close>

lemma fold_gates: "fold (\<lambda>i t. if P i then t else t(i := F i)) xs t v = (if v \<in> set xs \<and> \<not> P v then F v else t v)"
  by (induction xs arbitrary: t) auto

lemma upto20: "(v :: u32) \<in> set (map of_nat [0..<20]) \<longleftrightarrow> v < 20"
proof
  assume "v < 20"
  then have "v = of_nat (unat v)" "unat v \<in> set [0..<20]" by (simp_all add: word_less_nat_alt del: upt_rec_numeral)
  then show "v \<in> set (map of_nat [0..<20])" unfolding set_map by blast
next
  assume "v \<in> set (map of_nat [0..<20])"
  then obtain n where "n < 20" "v = of_nat n" unfolding set_map set_upt by auto
  then show "v < 20" by (simp add: word_less_nat_alt unat_of_nat)
qed

lemma idt_gates_eq:
  "idt_gates handlers t v =
     (if v < 20 \<and> v \<noteq> 9 \<and> v \<noteq> 15 \<or> v \<in> {32, 33, 36, 39, 43, 44, 46, 48, 51}
      then SETGATE False GD_KT (handlers v) (if v = T_BRKPT \<or> v = T_SYSCALL then 3 else 0) else t v)"
proof -
  let ?F = "\<lambda>i. SETGATE False GD_KT (handlers i) (if i = T_BRKPT then 3 else 0)"
  let ?xs = "map of_nat [0..<20] :: u32 list"
  have a: "fold (\<lambda>i t. if i = 9 \<or> i = 15 then t else if i = T_BRKPT then set_gate handlers 3 i t
        else set_gate handlers 0 i t) ?xs t = fold (\<lambda>i t. if i = 9 \<or> i = 15 then t else t(i := ?F i)) ?xs t"
    by (intro fold_cong) (auto simp: set_gate_def fun_eq_iff)
  have "fold (\<lambda>i t. if i = 9 \<or> i = 15 then t else t(i := ?F i)) ?xs t v = (if v < 20 \<and> v \<noteq> 9 \<and> v \<noteq> 15 then ?F v else t v)"
    unfolding fold_gates upto20 by simp
  then show ?thesis unfolding idt_gates_def a Let_def
    by (auto simp: set_gate_def jos_const)
qed


end
