(* ===== verification/Spinlock.thy ===== *)
theory Spinlock
  imports KState
begin

text \<open>
  The spin lock of \<^verbatim>\<open>kern/spinlock.c\<close>, with its debugging checks on, as several CPUs see it. The
  steps between which other CPUs can run are the steps of the relation: the test
  \<^verbatim>\<open>holding\<close>, every turn of the loop around \<^verbatim>\<open>xchg\<close>, the writes that record the holder, and the
  final \<^verbatim>\<open>xchg\<close>. A CPU is known by its number; \<^verbatim>\<open>thiscpu\<close> is the one that takes the step.
\<close>

section \<open>The lock\<close>

record spinlock =
  locked :: u32
  lk_name :: string
  lk_cpu :: "nat option"
  lk_pcs :: "u32 list"

definition kernel_lock :: spinlock where
  "kernel_lock = \<lparr>locked = 0, lk_name = ''kernel_lock'', lk_cpu = None, lk_pcs = replicate 10 0\<rparr>"

definition spin_initlock :: "string \<Rightarrow> spinlock \<Rightarrow> spinlock" where
  "spin_initlock nm lk = lk\<lparr>locked := 0, lk_name := nm, lk_cpu := None\<rparr>"

text \<open>The chain of saved frame pointers, \<open>mem\<close> being the memory it is in.\<close>

primrec caller_pcs :: "nat \<Rightarrow> (u32 \<Rightarrow> u32) \<Rightarrow> u32 \<Rightarrow> u32 list" where
  "caller_pcs 0 mem ebp = []"
| "caller_pcs (Suc n) mem ebp =
     (if ebp = 0 \<or> ebp < ULIM then replicate (Suc n) 0 else mem (ebp + 4) # caller_pcs n mem (mem ebp))"

definition get_caller_pcs :: "(u32 \<Rightarrow> u32) \<Rightarrow> u32 \<Rightarrow> u32 list" where
  "get_caller_pcs mem ebp = caller_pcs 10 mem ebp"

definition holding :: "nat \<Rightarrow> spinlock \<Rightarrow> bool" where
  "holding c lk \<longleftrightarrow> locked lk \<noteq> 0 \<and> lk_cpu lk = Some c"

definition xchg_locked :: "u32 \<Rightarrow> spinlock \<Rightarrow> u32 \<times> spinlock" where
  "xchg_locked v lk = (locked lk, lk\<lparr>locked := v\<rparr>)"

section \<open>The steps of the CPUs\<close>

text \<open>
  Where a CPU is: outside; in the loop of \<^verbatim>\<open>spin_lock\<close>; behind the loop, before the holder is
  recorded; inside the critical section; in \<^verbatim>\<open>spin_unlock\<close> behind its test, with the record
  cleared; or in a panic.
\<close>

datatype place = Outside | Looping | Acquired | Inside | Leaving | Panicking

type_synonym lock_state = "(nat \<Rightarrow> place) \<times> spinlock"

inductive lock_step :: "lock_state \<Rightarrow> lock_state \<Rightarrow> bool" where
  enter: "at c = Outside \<Longrightarrow> \<not> holding c lk \<Longrightarrow> lock_step (at, lk) (at(c := Looping), lk)"
| enter_twice: "at c = Outside \<Longrightarrow> holding c lk \<Longrightarrow> lock_step (at, lk) (at(c := Panicking), lk)"
| spin: "at c = Looping \<Longrightarrow> xchg_locked 1 lk = (old, lk') \<Longrightarrow> old \<noteq> 0 \<Longrightarrow> lock_step (at, lk) (at, lk')"
| acquire: "at c = Looping \<Longrightarrow> xchg_locked 1 lk = (old, lk') \<Longrightarrow> old = 0 \<Longrightarrow> lock_step (at, lk) (at(c := Acquired), lk')"
| note_holder: "at c = Acquired \<Longrightarrow>
    lock_step (at, lk) (at(c := Inside), lk\<lparr>lk_cpu := Some c, lk_pcs := get_caller_pcs mem ebp\<rparr>)"
| leave: "at c = Inside \<Longrightarrow> holding c lk \<Longrightarrow>
    lock_step (at, lk) (at(c := Leaving), lk\<lparr>lk_pcs := (lk_pcs lk)[0 := 0], lk_cpu := None\<rparr>)"
| leave_foreign: "at c = Inside \<Longrightarrow> \<not> holding c lk \<Longrightarrow> lock_step (at, lk) (at(c := Panicking), lk)"
| release: "at c = Leaving \<Longrightarrow> xchg_locked 0 lk = (old, lk') \<Longrightarrow> lock_step (at, lk) (at(c := Outside), lk')"

inductive_cases lock_stepE: "lock_step (at, lk) x"

section \<open>The invariant\<close>

text \<open>The places in which a CPU owns the lock.\<close>

definition owns :: "place \<Rightarrow> bool" where
  "owns p \<longleftrightarrow> p = Acquired \<or> p = Inside \<or> p = Leaving"

definition lock_inv :: "lock_state \<Rightarrow> bool" where
  "lock_inv = (\<lambda>(at, lk).
     (\<forall>c d. owns (at c) \<and> owns (at d) \<longrightarrow> c = d) \<and>
     (locked lk \<noteq> 0 \<longleftrightarrow> (\<exists>c. owns (at c))) \<and>
     (\<forall>c. lk_cpu lk = Some c \<longleftrightarrow> at c = Inside) \<and>
     (\<forall>c. at c \<noteq> Panicking))"

lemma owns_simps [simp]:
  "owns Acquired" "owns Inside" "owns Leaving" "\<not> owns Outside" "\<not> owns Looping" "\<not> owns Panicking"
  by (simp_all add: owns_def)

lemma lock_step_inv:
  assumes "lock_step x y" and "lock_inv x"
  shows "lock_inv y"
  using assms
proof induction
  case (acquire "at" c lk old lk')
  then show ?case by (auto simp: lock_inv_def xchg_locked_def split: if_splits)
next
  case (note_holder "at" c lk mem ebp)
  then show ?case by (auto simp: lock_inv_def split: if_splits; metis owns_simps)
next
  case (leave "at" c lk)
  then show ?case by (auto simp: lock_inv_def holding_def split: if_splits; metis owns_simps)
next
  case (leave_foreign "at" c lk)
  then show ?case by (auto simp: lock_inv_def holding_def; metis owns_simps)
next
  case (release "at" c lk old lk')
  then show ?case by (auto simp: lock_inv_def xchg_locked_def split: if_splits; metis owns_simps)
qed (auto simp: lock_inv_def xchg_locked_def holding_def split: if_splits; metis owns_simps place.distinct)+

lemma lock_steps_inv: "lock_step\<^sup>*\<^sup>* x y \<Longrightarrow> lock_inv x \<Longrightarrow> lock_inv y"
  by (induction rule: rtranclp_induct) (auto intro: lock_step_inv)

lemma lock_inv_start: "lock_inv (\<lambda>_. Outside, kernel_lock)"
  by (simp add: lock_inv_def kernel_lock_def)

text \<open>
  C9: However the steps of any number of CPUs are interleaved, at most one of them is between
  the successful \<^verbatim>\<open>xchg\<close> of \<^verbatim>\<open>spin_lock\<close> and the \<^verbatim>\<open>xchg\<close> of \<^verbatim>\<open>spin_unlock\<close>, and the lock word is set exactly
  while one is. Inside the critical section the lock names its holder, and neither of the
  two debugging checks ever fires. When the lock is free, every waiting CPU can take it.
\<close>

theorem spin_lock_excludes:
  assumes "lock_step\<^sup>*\<^sup>* (\<lambda>_. Outside, kernel_lock) (at, lk)"
  shows "(\<forall>c d. owns (at c) \<and> owns (at d) \<longrightarrow> c = d) \<and> (locked lk = 0 \<longleftrightarrow> (\<forall>c. \<not> owns (at c))) \<and>
    (\<forall>c. at c = Inside \<longrightarrow> lk_cpu lk = Some c \<and> holding c lk) \<and> (\<forall>c. at c \<noteq> Panicking) \<and>
    (\<forall>c. at c = Looping \<and> (\<forall>d. \<not> owns (at d)) \<longrightarrow> lock_step (at, lk) (at(c := Acquired), lk\<lparr>locked := 1\<rparr>))"
proof -
  have inv: "lock_inv (at, lk)" using lock_steps_inv [OF assms lock_inv_start] .
  have "lock_step (at, lk) (at(c := Acquired), lk\<lparr>locked := 1\<rparr>)" if "at c = Looping" "locked lk = 0" for c
    using that by (intro lock_step.acquire [where old = 0]) (simp_all add: xchg_locked_def)
  then show ?thesis using inv by (auto simp: lock_inv_def holding_def) (metis owns_simps(2))+
qed

lemma spin_lock_excludes_witness:
  "\<exists>at lk. lock_step\<^sup>*\<^sup>* (\<lambda>_. Outside, kernel_lock) (at, lk) \<and> at 0 = Acquired \<and> at 1 = Looping \<and>
     \<not> owns (at 1) \<and> locked lk \<noteq> 0"
proof -
  let ?s0 = "\<lambda>_ :: nat. Outside"
  let ?s3 = "?s0(0 := Looping, 1 := Looping, 0 := Acquired)"
  have h: "\<not> holding c kernel_lock" for c by (simp add: holding_def kernel_lock_def)
  have "lock_step (?s0, kernel_lock) (?s0(0 := Looping), kernel_lock)"
    by (rule lock_step.enter) (use h in simp_all)
  moreover have "lock_step (?s0(0 := Looping), kernel_lock) (?s0(0 := Looping, 1 := Looping), kernel_lock)"
    by (rule lock_step.enter) (use h in simp_all)
  moreover have "lock_step (?s0(0 := Looping, 1 := Looping), kernel_lock) (?s3, kernel_lock\<lparr>locked := 1\<rparr>)"
    by (rule lock_step.acquire [where old = 0]) (simp_all add: xchg_locked_def kernel_lock_def)
  ultimately have st: "lock_step\<^sup>*\<^sup>* (?s0, kernel_lock) (?s3, kernel_lock\<lparr>locked := 1\<rparr>)"
    by (meson converse_rtranclp_into_rtranclp rtranclp.rtrancl_refl)
  show ?thesis using spin_lock_excludes [OF st] st
    by (intro exI [of _ ?s3] exI [of _ "kernel_lock\<lparr>locked := 1\<rparr>"]) simp
qed

end
