(* ===== verification/FsBlocks.thy ===== *)
theory FsBlocks
  imports Pool Machine StringLib
begin

text \<open>
  The disk blocks of the file server: the constants of \<^verbatim>\<open>inc/fs.h\<close> and \<^verbatim>\<open>fs/fs.h\<close>, and the free block
  bitmap of \<^verbatim>\<open>fs/fs.c\<close>. The server sees the disk as memory from \<open>DISKMAP\<close> on; \<open>fmem\<close> is its
  memory as its loads and stores see it, whether or not a block has been faulted in yet (theory
  \<open>BlockCache\<close> has the pages, the fault handler and the driver, and shows that this view is what
  they give), \<open>fdirty\<close> the dirty bit of a page, by page number, and \<open>fdisk\<close> what is on the
  disk, a byte at the address where the disk map shows it. A page that is not mapped is not
  dirty, so the test of \<^verbatim>\<open>flush_block\<close> is the one of the dirty bit.
\<close>

section \<open>Constants\<close>

definition BLKSIZE :: u32 where BLKSIZE_def [jos_const]: "BLKSIZE = 4096"
definition BLKBITSIZE :: u32 where BLKBITSIZE_def [jos_const]: "BLKBITSIZE = 32768"
definition MAXNAMELEN :: nat where MAXNAMELEN_def [jos_const]: "MAXNAMELEN = 128"
definition MAXPATHLEN :: nat where MAXPATHLEN_def [jos_const]: "MAXPATHLEN = 1024"
definition NDIRECT :: u32 where NDIRECT_def [jos_const]: "NDIRECT = 10"
definition NINDIRECT :: u32 where NINDIRECT_def [jos_const]: "NINDIRECT = 1024"
definition BLKFILES :: nat where BLKFILES_def [jos_const]: "BLKFILES = 16"
definition FTYPE_REG :: u32 where FTYPE_REG_def [jos_const]: "FTYPE_REG = 0"
definition FTYPE_DIR :: u32 where FTYPE_DIR_def [jos_const]: "FTYPE_DIR = 1"
definition FS_MAGIC :: u32 where FS_MAGIC_def [jos_const]: "FS_MAGIC = 0x4A0530AE"
definition SECTSIZE :: u32 where SECTSIZE_def [jos_const]: "SECTSIZE = 512"
definition BLKSECTS :: u32 where BLKSECTS_def [jos_const]: "BLKSECTS = 8"
definition DISKMAP :: u32 where DISKMAP_def [jos_const]: "DISKMAP = 0x10000000"
definition DISKSIZE :: u32 where DISKSIZE_def [jos_const]: "DISKSIZE = 0xC0000000"

section \<open>State and memory access\<close>

record fs =
  fmem :: mem
  fdisk :: mem
  fdirty :: "u32 \<Rightarrow> bool"
  super :: u32
  bitmap :: u32

definition get32 :: "mem \<Rightarrow> u32 \<Rightarrow> u32" where
  "get32 m a = ucast (m a) OR push_bit 8 (ucast (m (a + 1))) OR push_bit 16 (ucast (m (a + 2))) OR
               push_bit 24 (ucast (m (a + 3)))"

text \<open>A store of \<open>n\<close> bytes at \<open>a\<close> sets the dirty bits of the pages it touches.\<close>

definition touch :: "u32 \<Rightarrow> nat \<Rightarrow> fs \<Rightarrow> fs" where
  "touch a n s =
     (if n = 0 then s
      else s\<lparr>fdirty := (\<lambda>p. fdirty s p \<or> PGNUM a \<le> p \<and> p \<le> PGNUM (a + of_nat (n - 1)))\<rparr>)"

definition put32 :: "u32 \<Rightarrow> u32 \<Rightarrow> fs \<Rightarrow> fs" where
  "put32 a w s = touch a 4 (s\<lparr>fmem := store4 w a (fmem s)\<rparr>)"

text \<open>The fields of the super block.\<close>

definition s_magic :: "fs \<Rightarrow> u32" where "s_magic s = get32 (fmem s) (super s)"
definition s_nblocks :: "fs \<Rightarrow> u32" where "s_nblocks s = get32 (fmem s) (super s + 4)"
definition s_root :: "fs \<Rightarrow> u32" where "s_root s = super s + 8"

definition diskaddr :: "u32 \<Rightarrow> fs \<Rightarrow> u32 exec" where
  "diskaddr blockno s =
     (if blockno = 0 \<or> super s \<noteq> 0 \<and> s_nblocks s \<le> blockno then Inl (Panic ''bad block number in diskaddr'')
      else Inr (DISKMAP + blockno * BLKSIZE))"

definition flush_block :: "u32 \<Rightarrow> fs \<Rightarrow> fs exec" where
  "flush_block addr s =
     (if addr < DISKMAP \<or> addr \<ge> DISKMAP + DISKSIZE then Inl (Panic ''flush_block of bad va'')
      else let page = PGNUM (ROUNDDOWN addr PGSIZE) in
        if \<not> fdirty s page then Inr s
        else Inr (s\<lparr>fdisk := (\<lambda>a. if PGNUM a = page then fmem s a else fdisk s a),
                    fdirty := (fdirty s)(page := False)\<rparr>))"

definition check_super :: "fs \<Rightarrow> unit exec" where
  "check_super s =
     (if s_magic s \<noteq> FS_MAGIC then Inl (Panic ''bad file system magic number'')
      else if s_nblocks s > DISKSIZE div BLKSIZE then Inl (Panic ''file system is too large'')
      else Inr ())"

section \<open>The bitmap\<close>

definition bit_addr :: "u32 \<Rightarrow> fs \<Rightarrow> u32" where
  "bit_addr blockno s = bitmap s + 4 * (blockno div 32)"

definition bit_mask :: "u32 \<Rightarrow> u32" where
  "bit_mask blockno = push_bit (unat (blockno mod 32)) 1"

definition block_is_free :: "u32 \<Rightarrow> fs \<Rightarrow> bool" where
  "block_is_free blockno s \<longleftrightarrow>
     \<not> (super s = 0 \<or> blockno \<ge> s_nblocks s) \<and>
     get32 (fmem s) (bit_addr blockno s) AND bit_mask blockno \<noteq> 0"

definition free_block :: "u32 \<Rightarrow> fs \<Rightarrow> fs exec" where
  "free_block blockno s =
     (if blockno = 0 then Inl (Panic ''attempt to free zero block'')
      else Inr (put32 (bit_addr blockno s) (get32 (fmem s) (bit_addr blockno s) OR bit_mask blockno) s))"

primrec alloc_scan :: "u32 list \<Rightarrow> fs \<Rightarrow> (int \<times> fs) exec" where
  "alloc_scan [] s = Inr (- E_NO_DISK, s)"
| "alloc_scan (i # is) s =
     (if block_is_free i s
      then let s1 = put32 (bit_addr i s) (get32 (fmem s) (bit_addr i s) AND NOT (bit_mask i)) s
           in bindE (flush_block (bitmap s1) s1) (\<lambda>s2. Inr (sint i, s2))
      else alloc_scan is s)"

definition alloc_block :: "fs \<Rightarrow> (int \<times> fs) exec" where
  "alloc_block s = alloc_scan (map of_nat [2..<unat (s_nblocks s)]) s"

text \<open>The loop of \<^verbatim>\<open>check_bitmap\<close> tests one block for every \<open>BLKBITSIZE\<close> blocks of the disk.\<close>

definition bitmap_blocks :: "fs \<Rightarrow> nat" where
  "bitmap_blocks s = (unat (s_nblocks s) + 32767) div 32768"

definition check_bitmap :: "fs \<Rightarrow> unit exec" where
  "check_bitmap s =
     (if list_ex (\<lambda>i. block_is_free (2 + of_nat i) s) [0..<bitmap_blocks s] then Inl (Panic ''assertion failed'')
      else if block_is_free 0 s \<or> block_is_free 1 s then Inl (Panic ''assertion failed'')
      else Inr ())"

text \<open>\<^verbatim>\<open>fs_init\<close> behind the choice of the disk and the test of the cache (\<open>BlockCache\<close>).\<close>

definition fs_init :: "fs \<Rightarrow> fs exec" where
  "fs_init s =
     bindE (diskaddr 1 s) (\<lambda>a1. let s1 = s\<lparr>super := a1\<rparr> in
     bindE (check_super s1) (\<lambda>_.
     bindE (diskaddr 2 s1) (\<lambda>a2. let s2 = s1\<lparr>bitmap := a2\<rparr> in
     bindE (check_bitmap s2) (\<lambda>_. Inr s2))))"

definition fs_sync :: "fs \<Rightarrow> fs exec" where
  "fs_sync s =
     fold (\<lambda>i r. bindE r (\<lambda>t. bindE (diskaddr (of_nat i) t) (\<lambda>a. flush_block a t)))
       [1..<unat (s_nblocks s)] (Inr s)"

section \<open>Words in memory\<close>

lemma sint_small: "unat (w :: u32) < 2147483648 \<Longrightarrow> sint w = int (unat w)"
proof -
  assume "unat w < 2147483648"
  then have "w < 2147483648" by (simp add: word_less_nat_alt)
  then have "uint w < 2147483648" by (simp add: word_less_def)
  then show ?thesis
    using signed_take_bit_int_eq_self [of 31 "uint w"] order_trans [OF _ uint_ge_0 [of w]] by (simp add: sint_uint)
qed

lemma unat_plus_small: "unat (a :: u32) mod 4 = 0 \<Longrightarrow> i < 4 \<Longrightarrow> unat (a + of_nat i) = unat a + i"
proof -
  assume a: "unat a mod 4 = 0" "i < 4"
  have "unat a < 4294967296" by (rule unat_u32_less)
  moreover obtain k where "unat a = 4 * k" using a(1) by auto
  ultimately have "unat a + i < 4294967296" using a(2) by simp
  then show ?thesis using a(2) by (simp add: unat_word_ariths unat_of_nat)
qed

lemma mult4:
  assumes "n mod 4 = (0 :: nat)" and "i < 4"
  shows "(n + i) div 4 = n div 4" and "m mod 4 = 0 \<Longrightarrow> m div 4 = n div 4 \<Longrightarrow> m = n"
proof -
  obtain k where "n = 4 * k" using assms(1) by auto
  then show "(n + i) div 4 = n div 4" using assms(2) by simp
  show "m mod 4 = 0 \<Longrightarrow> m div 4 = n div 4 \<Longrightarrow> m = n" using assms(1) by (metis div_mult_mod_eq)
qed

lemma store4_bytes:
  assumes "unat d mod 4 = 0"
  shows "i < 4 \<Longrightarrow> store4 w d m (d + of_nat i) = ucast (drop_bit (8 * i) w)"
    and "unat x div 4 \<noteq> unat d div 4 \<Longrightarrow> store4 w d m x = m x"
proof -
  have ne: "x \<noteq> d + of_nat i" if "unat x \<noteq> unat d + i" "i < 4" for x i
    using that unat_plus_small [OF assms, of i] by auto
  note N = ne [where i = 1, simplified] ne [where i = 2, simplified] ne [where i = 3, simplified]
  assume i: "i < 4"
  have "i = 0 \<or> i = 1 \<or> i = 2 \<or> i = 3" using i by auto
  then show "store4 w d m (d + of_nat i) = ucast (drop_bit (8 * i) w)"
    by (elim disjE) (simp_all add: store4_def)
next
  assume x: "unat x div 4 \<noteq> unat d div 4"
  have "x \<noteq> d + of_nat i" if "i < 4" for i
  proof
    assume "x = d + of_nat i"
    then have "unat x = unat d + i" using unat_plus_small [OF assms that] by simp
    then show False using x mult4(1) [OF assms that] by simp
  qed
  from this [of 0] this [of 1] this [of 2] this [of 3] show "store4 w d m x = m x" by (simp add: store4_def)
qed

lemma word_bytes:
  fixes w :: u32
  shows "ucast (ucast w :: u8) OR push_bit 8 (ucast (ucast (drop_bit 8 w) :: u8)) OR
     push_bit 16 (ucast (ucast (drop_bit 16 w) :: u8)) OR push_bit 24 (ucast (ucast (drop_bit 24 w) :: u8)) = w"
    (is "?x = w")
proof (rule bit_word_eqI)
  fix n assume "n < LENGTH(32)"
  then have "n < 8 \<or> 8 \<le> n \<and> n < 16 \<or> 16 \<le> n \<and> n < 24 \<or> 24 \<le> n \<and> n < 32" by auto
  then show "bit ?x n = bit w n" by (elim disjE conjE) (simp_all add: bit_simps, auto)
qed

lemma get32_store4:
  assumes "unat d mod 4 = 0"
  shows "get32 (store4 w d m) d = w"
    and "unat a mod 4 = 0 \<Longrightarrow> a \<noteq> d \<Longrightarrow> get32 (store4 w d m) a = get32 m a"
proof -
  note S = store4_bytes(1) [OF assms, of 0] store4_bytes(1) [OF assms, of 1] store4_bytes(1) [OF assms, of 2]
    store4_bytes(1) [OF assms, of 3]
  show "get32 (store4 w d m) d = w" using S word_bytes [of w] by (simp add: get32_def)
  assume a: "unat a mod 4 = 0" "a \<noteq> d"
  have "store4 w d m (a + of_nat i) = m (a + of_nat i)" if "i < 4" for i
  proof (rule store4_bytes(2) [OF assms])
    have "unat a \<noteq> unat d" using a(2) by (simp add: word_unat_eq_iff)
    then show "unat (a + of_nat i) div 4 \<noteq> unat d div 4"
      unfolding unat_plus_small [OF a(1) that] mult4(1) [OF a(1) that] using mult4(2) [OF assms that a(1)] by blast
  qed
  from this [of 0] this [of 1] this [of 2] this [of 3] show "get32 (store4 w d m) a = get32 m a"
    by (simp add: get32_def)
qed

lemma get32_cong: "(\<And>i. i < 4 \<Longrightarrow> m (a + of_nat i) = m' (a + of_nat i)) \<Longrightarrow> get32 m a = get32 m' a"
proof -
  assume a: "\<And>i. i < 4 \<Longrightarrow> m (a + of_nat i) = m' (a + of_nat i)"
  from a [of 0] a [of 1] a [of 2] a [of 3] show ?thesis by (simp add: get32_def)
qed

section \<open>The state the server works in\<close>

text \<open>What \<^verbatim>\<open>fs_init\<close> establishes: \<open>fs_init_ok\<close>.\<close>

definition fs_ok :: "fs \<Rightarrow> bool" where
  "fs_ok s \<longleftrightarrow> super s = DISKMAP + BLKSIZE \<and> bitmap s = DISKMAP + 2 * BLKSIZE \<and>
     2 < s_nblocks s \<and> s_nblocks s \<le> DISKSIZE div BLKSIZE \<and>
     \<not> block_is_free 0 s \<and> \<not> block_is_free 1 s \<and>
     (\<forall>i < bitmap_blocks s. \<not> block_is_free (2 + of_nat i) s)"

lemma fs_frame [simp]:
  "s_nblocks (s\<lparr>bitmap := b\<rparr>) = s_nblocks s" "s_nblocks (s\<lparr>fdisk := d\<rparr>) = s_nblocks s"
  "bitmap_blocks (s\<lparr>bitmap := b\<rparr>) = bitmap_blocks s" "bitmap_blocks (s\<lparr>fdisk := d\<rparr>) = bitmap_blocks s"
  "block_is_free x (s\<lparr>fdisk := d\<rparr>) = block_is_free x s" "fs_ok (s\<lparr>fdisk := d\<rparr>) = fs_ok s"
  "diskaddr x (s\<lparr>fdisk := d\<rparr>) = diskaddr x s" "bit_addr x (s\<lparr>fdisk := d\<rparr>) = bit_addr x s"
  "s_nblocks (s\<lparr>fdirty := e\<rparr>) = s_nblocks s" "bitmap_blocks (s\<lparr>fdirty := e\<rparr>) = bitmap_blocks s"
  "block_is_free x (s\<lparr>fdirty := e\<rparr>) = block_is_free x s" "fs_ok (s\<lparr>fdirty := e\<rparr>) = fs_ok s"
  "diskaddr x (s\<lparr>fdirty := e\<rparr>) = diskaddr x s" "bit_addr x (s\<lparr>fdirty := e\<rparr>) = bit_addr x s"
  by (simp_all add: s_nblocks_def bitmap_blocks_def block_is_free_def bit_addr_def fs_ok_def diskaddr_def)

lemma touch_eq: "\<exists>e. touch a n s = s\<lparr>fdirty := e\<rparr>"
  by (cases "n = 0") (auto simp: touch_def intro: exI [of _ "fdirty s"])

lemma touch_frame [simp]:
  "fmem (touch a n s) = fmem s" "fdisk (touch a n s) = fdisk s" "super (touch a n s) = super s"
  "bitmap (touch a n s) = bitmap s" "s_nblocks (touch a n s) = s_nblocks s"
  "bitmap_blocks (touch a n s) = bitmap_blocks s" "block_is_free x (touch a n s) = block_is_free x s"
  "fs_ok (touch a n s) = fs_ok s" "diskaddr x (touch a n s) = diskaddr x s" "bit_addr x (touch a n s) = bit_addr x s"
  using touch_eq [of a n s] by auto

lemma fs_init_ok:
  assumes "fs_init s = Inr t" and "super s = 0"
  shows "fs_ok t" and "fmem t = fmem s" and "fdisk t = fdisk s"
proof -
  have nz: "DISKMAP + BLKSIZE \<noteq> 0" by (simp add: jos_const)
  show "fs_ok t" "fmem t = fmem s" "fdisk t = fdisk s"
    using assms nz
    by (auto simp: fs_init_def diskaddr_def check_super_def check_bitmap_def fs_ok_def Let_def bindE_def
        list_ex_iff not_le not_less mult.commute split: if_splits sum.splits)
qed

lemma fs_okD:
  assumes "fs_ok s"
  shows "super s = 0x10001000" "bitmap s = 0x10002000" "2 < s_nblocks s" "unat (s_nblocks s) \<le> 786432" "super s \<noteq> 0"
  using assms by (simp_all add: fs_ok_def jos_const word_le_nat_alt)

lemma bit_addr_unat:
  assumes "fs_ok s" and "b < s_nblocks s"
  shows "unat (bit_addr b s) = 268443648 + 4 * (unat b div 32)" and "unat (bit_addr b s) mod 4 = 0"
proof -
  have "unat b < 786432" using fs_okD(4) [OF assms(1)] assms(2) by (simp add: word_less_nat_alt)
  then have "unat b div 32 < 24576" by simp
  then show "unat (bit_addr b s) = 268443648 + 4 * (unat b div 32)"
    using fs_okD(2) [OF assms(1)] by (simp add: bit_addr_def unat_word_ariths unat_div)
  then show "unat (bit_addr b s) mod 4 = 0" by presburger
qed

lemma bit_mask_test: "w AND bit_mask b \<noteq> 0 \<longleftrightarrow> bit w (unat b mod 32)"
proof -
  have "unat (b mod 32) = unat b mod 32" by (simp add: unat_mod)
  then show ?thesis by (simp add: bit_mask_def bit_iff_and_push_bit_not_eq_0)
qed

lemma bit_bit_mask: "n < 32 \<Longrightarrow> bit (bit_mask b) n \<longleftrightarrow> n = unat b mod 32"
  by (auto simp: bit_mask_def bit_simps unat_mod)

section \<open>Changing one bit\<close>

lemma put_bit:
  assumes ok: "fs_ok s" and c: "c < s_nblocks s"
    and w: "\<And>n. n < 32 \<Longrightarrow> n \<noteq> unat c mod 32 \<Longrightarrow> bit w n = bit (get32 (fmem s) (bit_addr c s)) n"
  defines "t \<equiv> put32 (bit_addr c s) w s"
  shows "s_nblocks t = s_nblocks s" and "super t = super s" and "bitmap t = bitmap s" and "fdisk t = fdisk s"
    and "block_is_free b t \<longleftrightarrow> (if b = c then bit w (unat c mod 32) else block_is_free b s)"
    and "unat x div 4 \<noteq> 67110912 + unat c div 32 \<Longrightarrow> fmem t x = fmem s x"
proof -
  note A = bit_addr_unat [OF ok c] and F = fs_okD [OF ok]
  show sb: "super t = super s" "bitmap t = bitmap s" "fdisk t = fdisk s" by (simp_all add: t_def put32_def)
  have "unat (super s + 4) = 268439556" using F(1) by simp
  moreover from this have "super s + 4 \<noteq> bit_addr c s" using A(1) by auto
  ultimately show nb: "s_nblocks t = s_nblocks s"
    using get32_store4(2) [OF A(2), of "super s + 4"] sb by (auto simp: s_nblocks_def t_def put32_def)
  show "unat x div 4 \<noteq> 67110912 + unat c div 32 \<Longrightarrow> fmem t x = fmem s x"
    using store4_bytes(2) [OF A(2), of x] A(1) by (simp add: t_def put32_def)
  show "block_is_free b t \<longleftrightarrow> (if b = c then bit w (unat c mod 32) else block_is_free b s)"
  proof (cases "b < s_nblocks s")
    case False
    then show ?thesis using c by (auto simp: block_is_free_def nb)
  next
    case True
    note B = bit_addr_unat [OF ok True]
    have ba: "bit_addr b t = bit_addr b s" by (simp add: bit_addr_def sb)
    have g: "get32 (fmem t) (bit_addr b s) = (if unat b div 32 = unat c div 32 then w else get32 (fmem s) (bit_addr b s))"
    proof (cases "unat b div 32 = unat c div 32")
      case True
      then have "bit_addr b s = bit_addr c s" using A(1) B(1) by (metis word_unat_eq_iff)
      then show ?thesis using True get32_store4(1) [OF A(2)] by (simp add: t_def put32_def)
    next
      case False
      then have "bit_addr b s \<noteq> bit_addr c s" using A(1) B(1) by auto
      then show ?thesis using False get32_store4(2) [OF A(2) B(2)] by (simp add: t_def put32_def)
    qed
    have ne: "unat b mod 32 \<noteq> unat c mod 32" if "b \<noteq> c" "unat b div 32 = unat c div 32"
      using that by (metis div_mult_mod_eq word_unat_eq_iff)
    have "bit w (unat b mod 32) = bit (get32 (fmem s) (bit_addr b s)) (unat b mod 32)"
      if "b \<noteq> c" "unat b div 32 = unat c div 32"
    proof -
      have "bit_addr b s = bit_addr c s" using that A(1) B(1) by (metis word_unat_eq_iff)
      then show ?thesis using w [of "unat b mod 32"] ne [OF that] by simp
    qed
    then show ?thesis using True F(5) by (auto simp: block_is_free_def nb sb ba g bit_mask_test)
  qed
qed

lemma free_block_ok:
  assumes ok: "fs_ok s" and c: "c < s_nblocks s" "c \<noteq> 0"
  shows "\<exists>t. free_block c s = Inr t \<and> s_nblocks t = s_nblocks s \<and> super t = super s \<and> bitmap t = bitmap s \<and>
     (\<forall>b. block_is_free b t \<longleftrightarrow> b = c \<or> block_is_free b s) \<and>
     (\<forall>x. unat x div 4 \<noteq> 67110912 + unat c div 32 \<longrightarrow> fmem t x = fmem s x)"
proof -
  let ?w = "get32 (fmem s) (bit_addr c s) OR bit_mask c"
  have w: "bit ?w n = bit (get32 (fmem s) (bit_addr c s)) n" if "n < 32" "n \<noteq> unat c mod 32" for n
    using that by (simp add: bit_or_iff bit_bit_mask)
  have "bit ?w (unat c mod 32)" by (simp add: bit_or_iff bit_bit_mask)
  then show ?thesis using put_bit [OF ok c(1) w] c(2)
    by (intro exI [of _ "put32 (bit_addr c s) ?w s"]) (simp add: free_block_def)
qed

lemma flush_block_ok:
  "DISKMAP \<le> addr \<Longrightarrow> addr < DISKMAP + DISKSIZE \<Longrightarrow> \<exists>d e. flush_block addr s = Inr (s\<lparr>fdisk := d, fdirty := e\<rparr>)"
proof -
  assume a: "DISKMAP \<le> addr" "addr < DISKMAP + DISKSIZE"
  have "\<exists>d e. s = s\<lparr>fdisk := d, fdirty := e\<rparr>" by (rule exI [of _ "fdisk s"], rule exI [of _ "fdirty s"]) simp
  then show ?thesis using a by (auto simp: flush_block_def Let_def)
qed

text \<open>Allocation takes the first free block; the flush changes the disk only.\<close>

lemma alloc_scan_ok:
  assumes ok: "fs_ok s" and small: "\<forall>i \<in> set is. i < s_nblocks s"
  shows "alloc_scan is s = Inr (- E_NO_DISK, s) \<and> (\<forall>i \<in> set is. \<not> block_is_free i s) \<or>
    (\<exists>b t. b \<in> set is \<and> block_is_free b s \<and> alloc_scan is s = Inr (int (unat b), t) \<and> s_nblocks t = s_nblocks s \<and>
       super t = super s \<and> bitmap t = bitmap s \<and> (\<forall>c. block_is_free c t \<longleftrightarrow> c \<noteq> b \<and> block_is_free c s) \<and>
       (\<forall>x. unat x div 4 \<noteq> 67110912 + unat b div 32 \<longrightarrow> fmem t x = fmem s x))"
  using small
proof (induction "is")
  case (Cons i "is")
  show ?case
  proof (cases "block_is_free i s")
    case False
    then show ?thesis using Cons by auto
  next
    case True
    have i: "i < s_nblocks s" using Cons.prems by simp
    let ?w = "get32 (fmem s) (bit_addr i s) AND NOT (bit_mask i)"
    let ?t = "put32 (bit_addr i s) ?w s"
    have w: "bit ?w n = bit (get32 (fmem s) (bit_addr i s)) n" if "n < 32" "n \<noteq> unat i mod 32" for n
      using that by (simp add: bit_and_iff bit_not_iff bit_bit_mask)
    note P = put_bit [OF ok i w]
    have "\<not> bit ?w (unat i mod 32)" by (simp add: bit_and_iff bit_not_iff bit_bit_mask)
    then have fr: "block_is_free c ?t \<longleftrightarrow> c \<noteq> i \<and> block_is_free c s" for c using P(5) by simp
    have si: "sint i = int (unat i)" using i fs_okD(4) [OF ok] by (intro sint_small) (simp add: word_less_nat_alt)
    obtain d e where "flush_block (bitmap ?t) ?t = Inr (?t\<lparr>fdisk := d, fdirty := e\<rparr>)"
      using flush_block_ok [of "bitmap ?t" ?t] P(3) fs_okD(2) [OF ok] by (auto simp: jos_const)
    then have "alloc_scan (i # is) s = Inr (int (unat i), ?t\<lparr>fdisk := d, fdirty := e\<rparr>)" using True si by (simp add: Let_def)
    moreover have "\<forall>x. unat x div 4 \<noteq> 67110912 + unat i div 32 \<longrightarrow> fmem (?t\<lparr>fdisk := d, fdirty := e\<rparr>) x = fmem s x"
      using P(6) by simp
    moreover have "\<forall>c. block_is_free c (?t\<lparr>fdisk := d, fdirty := e\<rparr>) \<longleftrightarrow> c \<noteq> i \<and> block_is_free c s" using fr by simp
    moreover have "s_nblocks (?t\<lparr>fdisk := d, fdirty := e\<rparr>) = s_nblocks s" "super (?t\<lparr>fdisk := d, fdirty := e\<rparr>) = super s"
      "bitmap (?t\<lparr>fdisk := d, fdirty := e\<rparr>) = bitmap s" using P(1-3) by simp_all
    ultimately show ?thesis using True by (metis list.set_intros(1))
  qed
qed simp

lemma first_blocks: "fs_ok s \<Longrightarrow> block_is_free b s \<Longrightarrow> unat b \<noteq> 0 \<and> unat b \<noteq> 1"
  by (metis fs_ok_def unat_0 unat_1 word_unat_eq_iff)

lemma alloc_block_ok:
  assumes ok: "fs_ok s"
  shows "alloc_block s = Inr (- E_NO_DISK, s) \<and> (\<forall>b. \<not> block_is_free b s) \<or>
    (\<exists>b t. block_is_free b s \<and> b < s_nblocks s \<and> alloc_block s = Inr (int (unat b), t) \<and> s_nblocks t = s_nblocks s \<and>
       super t = super s \<and> bitmap t = bitmap s \<and> (\<forall>c. block_is_free c t \<longleftrightarrow> c \<noteq> b \<and> block_is_free c s) \<and>
       (\<forall>x. unat x div 4 \<noteq> 67110912 + unat b div 32 \<longrightarrow> fmem t x = fmem s x))"
proof -
  let ?is = "map of_nat [2..<unat (s_nblocks s)] :: u32 list"
  have all: "b \<in> set ?is" if "block_is_free b s" for b
  proof -
    have "unat b \<noteq> 0" "unat b \<noteq> 1" using first_blocks [OF ok that] by simp_all
    moreover have "b < s_nblocks s" using that by (simp add: block_is_free_def not_le)
    ultimately have "unat b \<in> set [2..<unat (s_nblocks s)]" by (auto simp: word_less_nat_alt)
    moreover have "b = of_nat (unat b)" by simp
    ultimately show ?thesis unfolding set_map by blast
  qed
  have small: "\<forall>i \<in> set ?is. i < s_nblocks s"
    using unat_u32_less [of "s_nblocks s"] by (auto simp: word_less_nat_alt unat_of_nat)
  show ?thesis unfolding alloc_block_def using alloc_scan_ok [OF ok small] small all by blast
qed

text \<open>Data blocks: allocated, and neither the super block nor part of the bitmap.\<close>

definition data_block :: "fs \<Rightarrow> u32 \<Rightarrow> bool" where
  "data_block s b \<longleftrightarrow> 2 + bitmap_blocks s \<le> unat b \<and> b < s_nblocks s \<and> \<not> block_is_free b s"

lemma fs_ok_change:
  assumes "fs_ok s" "s_nblocks t = s_nblocks s" "super t = super s" "bitmap t = bitmap s"
    and "\<And>b. block_is_free b t \<Longrightarrow> block_is_free b s \<or> 2 + bitmap_blocks s \<le> unat b"
  shows "fs_ok t"
proof -
  have bb: "bitmap_blocks t = bitmap_blocks s" using assms(2) by (simp add: bitmap_blocks_def)
  have "bitmap_blocks s \<le> 24" using fs_okD(4) [OF assms(1)] by (simp add: bitmap_blocks_def)
  then have "unat (2 + of_nat i :: u32) = 2 + i" if "i < bitmap_blocks s" for i
    using that by (simp add: unat_word_ariths unat_of_nat)
  then show ?thesis using assms bb unfolding fs_ok_def by (auto dest!: assms(5))
qed

lemma free_not_reserved:
  assumes "fs_ok s" and "block_is_free b s"
  shows "2 + bitmap_blocks s \<le> unat b"
proof (rule ccontr)
  assume a: "\<not> 2 + bitmap_blocks s \<le> unat b"
  consider "unat b = 0" | "unat b = 1" | i where "i < bitmap_blocks s" "unat b = 2 + i"
    using a by (metis One_nat_def add_2_eq_Suc less_2_cases less_iff_Suc_add linorder_not_le nat_add_left_cancel_less le_Suc_ex)
  then show False
  proof cases
    case (3 i)
    have "b = of_nat (unat b)" by simp
    then have "b = 2 + of_nat i" using 3(2) by (metis of_nat_add of_nat_numeral)
    then show ?thesis using assms 3(1) by (simp add: fs_ok_def)
  qed (use first_blocks [OF assms] in simp_all)
qed

section \<open>The block allocator as a resource pool\<close>

definition block_alloc :: "fs \<Rightarrow> (u32 option \<times> fs) exec" where
  "block_alloc s = bindE (alloc_block s) (\<lambda>(r, t). Inr (if r < 0 then None else Some (word_of_int r), t))"

interpretation disk_pool: resource_pool block_alloc free_block fs_ok "\<lambda>s. {b. block_is_free b s}" data_block
proof (unfold_locales, goal_cases)
  case (1 s)
  then show ?case using alloc_block_ok [OF 1(1)] by (auto simp: block_alloc_def E_NO_DISK_def)
next
  case (2 s)
  then obtain b t where b: "block_is_free b s" "b < s_nblocks s" "alloc_block s = Inr (int (unat b), t)"
      "s_nblocks t = s_nblocks s" "super t = super s" "bitmap t = bitmap s"
      "\<forall>c. block_is_free c t \<longleftrightarrow> c \<noteq> b \<and> block_is_free c s"
    using alloc_block_ok [OF 2(1)] by auto
  have "fs_ok t" by (rule fs_ok_change [OF 2(1) b(4-6)]) (use b(7) in auto)
  moreover have "bitmap_blocks t = bitmap_blocks s" using b(4) by (simp add: bitmap_blocks_def)
  moreover have "block_alloc s = Inr (Some b, t)" using b(3) by (simp add: block_alloc_def)
  ultimately show ?case using b free_not_reserved [OF 2(1) b(1)]
    by (intro exI [of _ b] exI [of _ t]) (auto simp: data_block_def)
next
  case (3 s b)
  then have "b < s_nblocks s" "b \<noteq> 0" by (auto simp: data_block_def)
  then obtain t where t: "free_block b s = Inr t" "s_nblocks t = s_nblocks s" "super t = super s" "bitmap t = bitmap s"
      "\<forall>c. block_is_free c t \<longleftrightarrow> c = b \<or> block_is_free c s"
    using free_block_ok [OF 3(1)] by blast
  have "fs_ok t" by (rule fs_ok_change [OF 3(1) t(2-4)]) (use t(5) 3(2) in \<open>auto simp: data_block_def\<close>)
  moreover have "bitmap_blocks t = bitmap_blocks s" using t(2) by (simp add: bitmap_blocks_def)
  ultimately show ?case using t by (intro exI [of _ t]) (auto simp: data_block_def)
next
  case (4 s b)
  then show ?case by (simp add: data_block_def)
next
  case (5 s)
  show ?case by simp
qed

section \<open>An example disk\<close>

text \<open>
  A disk of 64 blocks. The root file is 16 bytes long and has block 4; block 3 belongs to somebody
  else and its last byte is 7.
\<close>

definition demo_mem :: mem where
  "demo_mem x =
     (if x = 0x10001000 then 0xAE else if x = 0x10001001 then 0x30 else if x = 0x10001002 then 0x05
      else if x = 0x10001003 then 0x4A else if x = 0x10001004 then 64
      else if x = 0x10001088 then 16 else if x = 0x10001090 then 4
      else if x = 0x10002000 then 0xE0 else if 0x10002000 < x \<and> x < 0x10002008 then 0xFF
      else if x = 0x10003FFF then 7 else if x = 0x10004000 then 104 else 0)"

definition demo_fs :: fs where
  "demo_fs = \<lparr>fmem = demo_mem, fdisk = demo_mem, fdirty = (\<lambda>_. False), super = 0x10001000, bitmap = 0x10002000\<rparr>"

lemma demo_nblocks: "s_nblocks demo_fs = 64"
  by (simp add: s_nblocks_def get32_def demo_fs_def demo_mem_def)

lemma demo_free:
  "\<not> block_is_free 0 demo_fs" "\<not> block_is_free 1 demo_fs" "\<not> block_is_free 2 demo_fs" "\<not> block_is_free 4 demo_fs"
  by (simp_all add: block_is_free_def demo_nblocks bit_addr_def bit_mask_def) (simp_all add: demo_fs_def get32_def demo_mem_def)

lemma demo_fs_ok: "fs_ok demo_fs"
proof -
  have "bitmap_blocks demo_fs = 1" by (simp add: bitmap_blocks_def demo_nblocks)
  then show ?thesis using demo_free by (simp add: fs_ok_def demo_nblocks) (simp add: demo_fs_def jos_const)
qed

end
