(* ===== verification/BlockCache.thy ===== *)
theory BlockCache
  imports FsBlocks
begin

text \<open>
  The block cache of \<^verbatim>\<open>fs/bc.c\<close>. A block of the disk is in memory when its page of the disk map is
  mapped; the first access faults and the handler \<^verbatim>\<open>bc_pgfault\<close> reads the block in. The state has the
  mapped pages of the disk map by page number (\<open>bpages\<close>), the bytes of the server's memory (\<open>bmem\<close>), the
  dirty and accessed bits of the page table entries, the disk, and the number of pages that the
  kernel can still give (\<open>bfree\<close>). The handler itself reads the super block and the bitmap, so it can
  fault again; the number of nested faults that the exception stack has room for is the fuel of
  \<open>bc_load32\<close>, and running out of it is a panic.
\<close>

section \<open>State\<close>

record bcache =
  bpages :: "u32 \<Rightarrow> bool"
  bmem :: mem
  bdirty :: "u32 \<Rightarrow> bool"
  baccessed :: "u32 \<Rightarrow> bool"
  bdisk :: mem
  bfree :: nat
  bsuper :: u32
  bbitmap :: u32

definition va_is_mapped :: "u32 \<Rightarrow> bcache \<Rightarrow> bool" where "va_is_mapped va c = bpages c (PGNUM va)"
definition va_is_accessed :: "u32 \<Rightarrow> bcache \<Rightarrow> bool" where "va_is_accessed va c = baccessed c (PGNUM va)"
definition va_is_dirty :: "u32 \<Rightarrow> bcache \<Rightarrow> bool" where "va_is_dirty va c = bdirty c (PGNUM va)"

definition in_diskmap :: "u32 \<Rightarrow> bool" where
  "in_diskmap addr \<longleftrightarrow> \<not> (addr < DISKMAP \<or> addr \<ge> DISKMAP + DISKSIZE)"

section \<open>Faults\<close>

text \<open>
  \<^verbatim>\<open>sys_page_alloc\<close>, \<^verbatim>\<open>ide_read\<close> of the eight sectors and \<^verbatim>\<open>sys_page_map\<close> of the page onto itself, which
  clears its accessed and dirty bits.
\<close>

definition fault_in :: "u32 \<Rightarrow> bcache \<Rightarrow> bcache exec" where
  "fault_in page c =
     (if bfree c = 0 then Inl (Panic ''in bc_pgfault, sys_page_alloc'')
      else Inr (c\<lparr>bpages := (bpages c)(page := True),
                  bmem := (\<lambda>a. if PGNUM a = page then bdisk c a else bmem c a),
                  bdirty := (bdirty c)(page := False), baccessed := (baccessed c)(page := False),
                  bfree := bfree c - 1\<rparr>))"

text \<open>
  A load of a word, with the faults it causes. The two tests of \<^verbatim>\<open>bc_pgfault\<close> are \<open>nonexistent\<close> and
  \<open>bc_block_is_free\<close>, with the loads they make passed in.
\<close>

definition nonexistent :: "(u32 \<Rightarrow> bcache \<Rightarrow> (u32 \<times> bcache) exec) \<Rightarrow> u32 \<Rightarrow> bcache \<Rightarrow> (bool \<times> bcache) exec" where
  "nonexistent load blockno c =
     (if bsuper c = 0 then Inr (False, c)
      else bindE (load (bsuper c + 4) c) (\<lambda>(nblocks, c1). Inr (blockno \<ge> nblocks, c1)))"

definition bc_block_is_free :: "(u32 \<Rightarrow> bcache \<Rightarrow> (u32 \<times> bcache) exec) \<Rightarrow> u32 \<Rightarrow> bcache \<Rightarrow> (bool \<times> bcache) exec" where
  "bc_block_is_free load blockno c =
     (if bsuper c = 0 then Inr (False, c)
      else bindE (load (bsuper c + 4) c) (\<lambda>(nblocks, c1).
        if blockno \<ge> nblocks then Inr (False, c1)
        else bindE (load (bbitmap c1 + 4 * (blockno div 32)) c1) (\<lambda>(w, c2).
          Inr (w AND bit_mask blockno \<noteq> 0, c2))))"

definition bc_pgfault :: "(u32 \<Rightarrow> bcache \<Rightarrow> (u32 \<times> bcache) exec) \<Rightarrow> u32 \<Rightarrow> bcache \<Rightarrow> bcache exec" where
  "bc_pgfault load addr c =
     (let blockno = (addr - DISKMAP) div BLKSIZE in
      if \<not> in_diskmap addr then Inl (Panic ''page fault in FS'')
      else bindE (nonexistent load blockno c) (\<lambda>(bad, c1).
        if bad then Inl (Panic ''reading non-existent block'')
        else bindE (fault_in (PGNUM (ROUNDDOWN addr PGSIZE)) c1) (\<lambda>c2.
          if bbitmap c2 = 0 then Inr c2
          else bindE (bc_block_is_free load blockno c2) (\<lambda>(free, c3).
            if free then Inl (Panic ''reading free block'') else Inr c3))))"

primrec bc_load32 :: "nat \<Rightarrow> u32 \<Rightarrow> bcache \<Rightarrow> (u32 \<times> bcache) exec" where
  "bc_load32 0 a c = Inl (Panic ''exception stack overflow'')"
| "bc_load32 (Suc n) a c =
     bindE (if va_is_mapped a c then Inr c else bc_pgfault (bc_load32 n) a c) (\<lambda>c1.
       Inr (get32 (bmem c1) a, c1\<lparr>baccessed := (baccessed c1)(PGNUM a := True)\<rparr>))"

definition bc_store32 :: "nat \<Rightarrow> u32 \<Rightarrow> u32 \<Rightarrow> bcache \<Rightarrow> bcache exec" where
  "bc_store32 n a w c =
     bindE (if va_is_mapped a c then Inr c else bc_pgfault (bc_load32 n) a c) (\<lambda>c1.
       Inr (c1\<lparr>bmem := store4 w a (bmem c1), baccessed := (baccessed c1)(PGNUM a := True),
               bdirty := (bdirty c1)(PGNUM a := True)\<rparr>))"

section \<open>Flushing and eviction\<close>

text \<open>\<^verbatim>\<open>ide_write\<close> of the block, then \<^verbatim>\<open>sys_page_map\<close> of the page onto itself.\<close>

definition bc_flush_block :: "u32 \<Rightarrow> bcache \<Rightarrow> bcache exec" where
  "bc_flush_block addr c =
     (if \<not> in_diskmap addr then Inl (Panic ''flush_block of bad va'')
      else let addr' = ROUNDDOWN addr PGSIZE; page = PGNUM addr' in
        if \<not> va_is_mapped addr' c \<or> \<not> va_is_dirty addr' c then Inr c
        else Inr (c\<lparr>bdisk := (\<lambda>a. if PGNUM a = page then bmem c a else bdisk c a),
                    bdirty := (bdirty c)(page := False), baccessed := (baccessed c)(page := False)\<rparr>))"

text \<open>
  One round of the loop of \<^verbatim>\<open>bc_clean\<close>. The new entry of an accessed page has the old permissions without
  the accessed bit; \<^verbatim>\<open>PTE_SYSCALL\<close> has no dirty bit either.
\<close>

definition clean_page :: "u32 \<Rightarrow> bcache \<Rightarrow> bcache exec" where
  "clean_page addr c =
     (if va_is_mapped addr c then
        if va_is_accessed addr c
        then Inr (c\<lparr>baccessed := (baccessed c)(PGNUM addr := False), bdirty := (bdirty c)(PGNUM addr := False)\<rparr>)
        else bindE (if va_is_dirty addr c then bc_flush_block addr c else Inr c) (\<lambda>c1.
               Inr (c1\<lparr>bpages := (bpages c1)(PGNUM addr := False), bfree := bfree c1 + 1\<rparr>))
      else Inr c)"

primrec clean_pages :: "u32 list \<Rightarrow> bcache \<Rightarrow> bcache exec" where
  "clean_pages [] c = Inr c"
| "clean_pages (a # as) c = bindE (clean_page a c) (clean_pages as)"

definition bc_clean :: "bcache \<Rightarrow> bcache exec" where
  "bc_clean c = clean_pages (map (\<lambda>i. DISKMAP + of_nat i * BLKSIZE) [0..<unat (DISKSIZE div BLKSIZE)]) c"

section \<open>The view that the cache gives\<close>

definition view :: "bcache \<Rightarrow> mem" where
  "view c a = (if in_diskmap a \<and> \<not> bpages c (PGNUM a) then bdisk c a else bmem c a)"

definition abs_fs :: "bcache \<Rightarrow> fs" where
  "abs_fs c = \<lparr>fmem = view c, fdisk = bdisk c, fdirty = (\<lambda>p. bpages c p \<and> bdirty c p), super = bsuper c, bitmap = bbitmap c\<rparr>"

lemma abs_fs_sel [simp]:
  "fmem (abs_fs c) = view c" "fdisk (abs_fs c) = bdisk c" "super (abs_fs c) = bsuper c" "bitmap (abs_fs c) = bbitmap c"
  "fdirty (abs_fs c) p = (bpages c p \<and> bdirty c p)"
  by (simp_all add: abs_fs_def)

lemma PGNUM_eq: "PGNUM a = PGNUM b \<longleftrightarrow> unat a div 4096 = unat b div 4096"
  by (simp add: word_unat_eq_iff unat_PGNUM)

lemma in_diskmap_page: "in_diskmap a \<longleftrightarrow> 65536 \<le> unat a div 4096 \<and> unat a div 4096 < 851968"
  by (auto simp: in_diskmap_def jos_const word_less_nat_alt word_le_nat_alt)

lemma PGNUM_ROUNDDOWN [simp]: "PGNUM (ROUNDDOWN a PGSIZE) = PGNUM a"
  by (simp add: PGNUM_eq unat_ROUNDDOWN PGSIZE_def minus_mod_eq_mult_div)

lemma word_page:
  assumes "unat a mod 4 = 0" and "unat x div 4 = unat a div 4"
  shows "PGNUM x = PGNUM a" and "in_diskmap x = in_diskmap a"
proof -
  have "unat x div 4096 = unat a div 4096" using arg_cong [OF assms(2), of "\<lambda>n. n div 1024"] by (simp add: div_mult2_eq [symmetric])
  then show "PGNUM x = PGNUM a" "in_diskmap x = in_diskmap a" by (simp_all add: PGNUM_eq in_diskmap_page)
qed

lemma view_word:
  assumes "unat a mod 4 = 0" and "\<not> in_diskmap a \<or> bpages c (PGNUM a)"
  shows "get32 (bmem c) a = get32 (view c) a"
proof (rule get32_cong)
  fix i assume i: "i < (4 :: nat)"
  have "unat (a + of_nat i) div 4 = unat a div 4" using unat_plus_small [OF assms(1) i] mult4(1) [OF assms(1) i] by simp
  from word_page [OF assms(1) this] show "bmem c (a + of_nat i) = view c (a + of_nat i)"
    using assms(2) by (auto simp: view_def)
qed

lemma abs_fs_accessed [simp]: "abs_fs (c\<lparr>baccessed := f\<rparr>) = abs_fs c"
  by (simp add: abs_fs_def view_def fun_eq_iff)

text \<open>What a load that succeeds keeps.\<close>

definition loaded :: "nat \<Rightarrow> bcache \<Rightarrow> bcache \<Rightarrow> bool" where
  "loaded k c c' \<longleftrightarrow> abs_fs c' = abs_fs c \<and> (\<forall>p. bpages c p \<longrightarrow> bpages c' p) \<and> bfree c \<le> bfree c' + k"

definition load_ok :: "nat \<Rightarrow> nat \<Rightarrow> u32 \<Rightarrow> bcache \<Rightarrow> bool" where
  "load_ok n k a c \<longleftrightarrow> (\<exists>c'. bc_load32 n a c = Inr (get32 (view c) a, c') \<and> loaded k c c')"

lemma loaded_refl: "loaded k c c" by (simp add: loaded_def)

lemma loaded_trans: "loaded j c c' \<Longrightarrow> loaded k c' c'' \<Longrightarrow> loaded (j + k) c c''"
  by (auto simp: loaded_def)

lemma loaded_view: "loaded k c c' \<Longrightarrow> view c' = view c" "loaded k c c' \<Longrightarrow> bsuper c' = bsuper c" "loaded k c c' \<Longrightarrow> bbitmap c' = bbitmap c"
  by (metis loaded_def abs_fs_sel(1), metis loaded_def abs_fs_sel(3), metis loaded_def abs_fs_sel(4))

lemma load_mapped:
  assumes "unat a mod 4 = 0" and "bpages c (PGNUM a)"
  shows "load_ok (Suc n) k a c"
  using assms view_word [OF assms(1)] by (auto simp: load_ok_def va_is_mapped_def loaded_def)

lemma fault_in_ok:
  assumes "in_diskmap a" and "\<not> bpages c (PGNUM a)" and "0 < bfree c"
  shows "\<exists>c'. fault_in (PGNUM a) c = Inr c' \<and> loaded 1 c c' \<and> bpages c' (PGNUM a)"
proof -
  let ?c = "c\<lparr>bpages := (bpages c)(PGNUM a := True), bmem := (\<lambda>x. if PGNUM x = PGNUM a then bdisk c x else bmem c x),
      bdirty := (bdirty c)(PGNUM a := False), baccessed := (baccessed c)(PGNUM a := False), bfree := bfree c - 1\<rparr>"
  have "in_diskmap x" if "PGNUM x = PGNUM a" for x using that assms(1) by (simp add: PGNUM_eq in_diskmap_page)
  then have "view ?c = view c" using assms(2) by (auto simp: view_def fun_eq_iff)
  then have "abs_fs ?c = abs_fs c" using assms(2) by (auto simp: abs_fs_def fun_eq_iff)
  then show ?thesis using assms(3) by (auto simp: fault_in_def loaded_def)
qed

section \<open>Nested faults\<close>

text \<open>The cache after \<^verbatim>\<open>bc_init\<close> and \<^verbatim>\<open>fs_init\<close>: the super block is in memory.\<close>

definition bc_ok :: "bcache \<Rightarrow> bool" where
  "bc_ok c \<longleftrightarrow> fs_ok (abs_fs c) \<and> bpages c (PGNUM (bsuper c + 4))"

lemma bc_ok_loaded:
  assumes "bc_ok c" and "loaded k c c'"
  shows "bc_ok c'"
  using assms loaded_view(2) [OF assms(2)] by (simp add: bc_ok_def loaded_def)

lemma super_load:
  assumes "bc_ok c"
  shows "bc_load32 (Suc n) (bsuper c + 4) c =
    Inr (s_nblocks (abs_fs c), c\<lparr>baccessed := (baccessed c)(PGNUM (bsuper c + 4) := True)\<rparr>)"
proof -
  have "unat (bsuper c + 4) mod 4 = 0" using fs_okD(1) [of "abs_fs c"] assms by (simp add: bc_ok_def)
  from view_word [OF this, of c] show ?thesis using assms by (simp add: bc_ok_def va_is_mapped_def s_nblocks_def)
qed

lemma loaded_accessed: "loaded 0 c (c\<lparr>baccessed := f\<rparr>)"
  by (simp add: loaded_def)

definition blockno_of :: "u32 \<Rightarrow> u32" where "blockno_of a = (a - DISKMAP) div BLKSIZE"

text \<open>A fault succeeds when the block is allocated and the word of the bitmap that says so can be loaded.\<close>

lemma pgfault_ok:
  assumes c: "bc_ok c" and a: "in_diskmap a" "\<not> bpages c (PGNUM a)" and f: "0 < bfree c"
    and b: "blockno_of a < s_nblocks (abs_fs c)" "\<not> block_is_free (blockno_of a) (abs_fs c)"
    and l: "\<And>c'. bc_ok c' \<Longrightarrow> loaded 1 c c' \<Longrightarrow> bpages c' (PGNUM a) \<Longrightarrow> load_ok (Suc n) k (bit_addr (blockno_of a) (abs_fs c)) c'"
  shows "\<exists>c'. bc_pgfault (bc_load32 (Suc n)) a c = Inr c' \<and> loaded (Suc k) c c' \<and> bpages c' (PGNUM a)"
proof -
  let ?b = "blockno_of a" and ?s = "\<lambda>c. c\<lparr>baccessed := (baccessed c)(PGNUM (bsuper c + 4) := True)\<rparr>"
  have s0: "bsuper c \<noteq> 0" "bbitmap c \<noteq> 0" using fs_okD [of "abs_fs c"] c by (auto simp: bc_ok_def)
  have "bc_ok (?s c)" "in_diskmap a" "\<not> bpages (?s c) (PGNUM a)" "0 < bfree (?s c)" using a f bc_ok_loaded [OF c loaded_accessed] by simp_all
  then obtain c2 where c2: "fault_in (PGNUM a) (?s c) = Inr c2" "loaded 1 (?s c) c2" "bpages c2 (PGNUM a)" using fault_in_ok by blast
  have l2: "loaded 1 c c2" using loaded_trans [OF loaded_accessed c2(2)] by simp
  note ok2 = bc_ok_loaded [OF c l2]
  have l3: "loaded 1 c (?s c2)" using loaded_trans [OF l2 loaded_accessed] by simp
  have v: "view (?s c2) = view c" "bsuper c2 = bsuper c" "bbitmap c2 = bbitmap c" "abs_fs c2 = abs_fs c"
    using loaded_view [OF l3] loaded_view [OF l2] l2 by (auto simp: loaded_def)
  obtain c3 where c3: "bc_load32 (Suc n) (bit_addr ?b (abs_fs c)) (?s c2) = Inr (get32 (view c) (bit_addr ?b (abs_fs c)), c3)"
      "loaded k (?s c2) c3"
    using l [OF bc_ok_loaded [OF ok2 loaded_accessed] l3] c2(3) v(1) by (auto simp: load_ok_def)
  have "get32 (view c) (bit_addr ?b (abs_fs c)) AND bit_mask ?b = 0" using b s0 by (simp add: block_is_free_def not_le)
  then have "bc_pgfault (bc_load32 (Suc n)) a c = Inr c3"
    using a(1) b(1) s0 super_load [OF c, of n] super_load [OF ok2, of n] c2(1) c3(1) v
    by (simp add: bc_pgfault_def nonexistent_def bc_block_is_free_def blockno_of_def [symmetric] bit_addr_def not_le Let_def del: bc_load32.simps)
  moreover have "loaded (Suc k) c c3" using loaded_trans [OF l3 c3(2)] by simp
  moreover have "bpages c3 (PGNUM a)" using c2(3) c3(2) by (simp add: loaded_def)
  ultimately show ?thesis by blast
qed

lemma load_or_fault:
  assumes c: "bc_ok c" and al: "unat a mod 4 = 0" and a: "in_diskmap a" and f: "0 < bfree c"
    and b: "blockno_of a < s_nblocks (abs_fs c)" "\<not> block_is_free (blockno_of a) (abs_fs c)"
    and l: "\<And>c'. bc_ok c' \<Longrightarrow> loaded 1 c c' \<Longrightarrow> bpages c' (PGNUM a) \<Longrightarrow> load_ok (Suc n) k (bit_addr (blockno_of a) (abs_fs c)) c'"
  shows "load_ok (Suc (Suc n)) (Suc k) a c"
proof (cases "bpages c (PGNUM a)")
  case True
  then show ?thesis by (rule load_mapped [OF al])
next
  case False
  obtain c' where c': "bc_pgfault (bc_load32 (Suc n)) a c = Inr c'" "loaded (Suc k) c c'" "bpages c' (PGNUM a)"
    using pgfault_ok [OF c a False f b l] by blast
  have "get32 (bmem c') a = get32 (view c) a" using view_word [OF al] c'(3) loaded_view(1) [OF c'(2)] by simp
  moreover have "bc_load32 (Suc (Suc n)) a c = Inr (get32 (bmem c') a, c'\<lparr>baccessed := (baccessed c')(PGNUM a := True)\<rparr>)"
    using False c'(1) by (subst bc_load32.simps) (simp add: va_is_mapped_def del: bc_load32.simps)
  moreover have "loaded (Suc k) c (c'\<lparr>baccessed := (baccessed c')(PGNUM a := True)\<rparr>)"
    using loaded_trans [OF c'(2) loaded_accessed] by simp
  ultimately show ?thesis by (simp add: load_ok_def del: bc_load32.simps)
qed

lemma bitmap_word:
  assumes c: "bc_ok c" and b: "b < s_nblocks (abs_fs c)"
  defines "a \<equiv> bit_addr b (abs_fs c)"
  shows "unat a mod 4 = 0" "in_diskmap a" "blockno_of a = 2 + of_nat (unat b div 32768)"
    "blockno_of a < s_nblocks (abs_fs c)" "\<not> block_is_free (blockno_of a) (abs_fs c)"
    "bit_addr (blockno_of a) (abs_fs c) = bbitmap c"
proof -
  have ok: "fs_ok (abs_fs c)" using c by (simp add: bc_ok_def)
  note F = fs_okD [OF ok]
  note A = bit_addr_unat [OF ok b]
  have bn: "unat b < 786432" using b F(4) by (simp add: word_less_nat_alt)
  show "unat a mod 4 = 0" using A(2) by (simp add: a_def)
  have d: "unat b div 32 div 1024 = unat b div 32768" by (simp add: div_mult2_eq [symmetric])
  have pg: "unat a div 4096 = 65538 + unat b div 32768"
  proof -
    have "unat a div 4096 = unat a div 4 div 1024" by (simp add: div_mult2_eq [symmetric])
    also have "unat a div 4 = 67110912 + unat b div 32" using A(1) by (simp add: a_def)
    finally show ?thesis using d by simp
  qed
  moreover have i: "unat b div 32768 < 24" using bn by simp
  ultimately show "in_diskmap a" by (simp add: in_diskmap_page)
  have "unat (a - DISKMAP) = unat a - 268435456"
    using A(1) by (subst unat_sub) (simp_all add: DISKMAP_def word_le_nat_alt a_def)
  then have "unat (blockno_of a) = unat a div 4096 - 65536" by (simp add: blockno_of_def unat_div BLKSIZE_def)
  then have u: "unat (blockno_of a) = 2 + unat b div 32768" using pg by simp
  moreover have u2: "unat (2 + of_nat (unat b div 32768) :: u32) = 2 + unat b div 32768" using i by (simp add: unat_word_ariths unat_of_nat)
  ultimately show e: "blockno_of a = 2 + of_nat (unat b div 32768)" by (simp add: word_unat_eq_iff)
  have "unat b div 32768 < bitmap_blocks (abs_fs c)"
    using b by (simp add: bitmap_blocks_def word_less_nat_alt div_less_iff_less_mult)
  then show "\<not> block_is_free (blockno_of a) (abs_fs c)" using ok unfolding e by (simp add: fs_ok_def)
  have "2 + unat b div 32768 < unat (s_nblocks (abs_fs c))"
  proof (cases "unat b < 32768")
    case True
    then show ?thesis using F(3) by (simp add: word_less_nat_alt)
  next
    case False
    then have "2 + unat b div 32768 \<le> unat b" by linarith
    then show ?thesis using b by (simp add: word_less_nat_alt)
  qed
  then show "blockno_of a < s_nblocks (abs_fs c)" by (simp add: word_less_nat_alt u)
  have "blockno_of a div 32 = 0" using u i by (simp add: word_unat_eq_iff unat_div)
  then show "bit_addr (blockno_of a) (abs_fs c) = bbitmap c" by (simp add: bit_addr_def)
qed

lemma bitmap_load:
  assumes c: "bc_ok c" and b: "b < s_nblocks (abs_fs c)" and f: "2 \<le> bfree c"
  shows "load_ok (Suc (Suc (Suc n))) 2 (bit_addr b (abs_fs c)) c"
proof -
  have first: "load_ok (Suc (Suc n)) (Suc 0) (bbitmap c') c'" if ok: "bc_ok c'" "0 < bfree c'" for c'
  proof -
    have z: "0 < s_nblocks (abs_fs c')" using ok(1) fs_okD(3) [of "abs_fs c'"] by (auto simp: bc_ok_def intro: order_le_less_trans)
    have e: "bit_addr 0 (abs_fs c') = bbitmap c'" by (simp add: bit_addr_def)
    note W = bitmap_word [OF ok(1) z, unfolded e]
    show ?thesis by (rule load_or_fault [OF ok(1) W(1,2) ok(2) W(4,5)]) (simp add: W(6) load_mapped [OF W(1)] loaded_def del: bc_load32.simps)
  qed
  note W = bitmap_word [OF c b]
  have "load_ok (Suc (Suc (Suc n))) (Suc (Suc 0)) (bit_addr b (abs_fs c)) c"
  proof (rule load_or_fault [OF c W(1,2) _ W(4,5)])
    fix c' assume a: "bc_ok c'" "loaded 1 c c'"
    then have "0 < bfree c'" "bbitmap c' = bbitmap c" using f loaded_view(3) [OF a(2)] by (auto simp: loaded_def)
    then show "load_ok (Suc (Suc n)) (Suc 0) (bit_addr (blockno_of (bit_addr b (abs_fs c))) (abs_fs c)) c'"
      using first [OF a(1)] unfolding W(6) by simp
  qed (use f in simp)
  then show ?thesis by (simp add: numeral_2_eq_2)
qed

lemma bc_load_ok:
  assumes c: "bc_ok c" "3 \<le> bfree c" and al: "unat a mod 4 = 0" and a: "in_diskmap a"
    and b: "blockno_of a < s_nblocks (abs_fs c)" "\<not> block_is_free (blockno_of a) (abs_fs c)"
  shows "load_ok (Suc (Suc (Suc (Suc n)))) 3 a c"
    and "\<not> bpages c (PGNUM a) \<Longrightarrow>
      \<exists>c'. bc_pgfault (bc_load32 (Suc (Suc (Suc n)))) a c = Inr c' \<and> loaded 3 c c' \<and> bpages c' (PGNUM a)"
proof -
  have l: "load_ok (Suc (Suc (Suc n))) 2 (bit_addr (blockno_of a) (abs_fs c)) c'" if "bc_ok c'" "loaded 1 c c'" for c'
    using bitmap_load [OF that(1), of "blockno_of a" n] b(1) c(2) that(2) by (auto simp: loaded_def)
  have f: "0 < bfree c" using c(2) by simp
  have "load_ok (Suc (Suc (Suc (Suc n)))) (Suc 2) a c" by (rule load_or_fault [OF c(1) al a f b l])
  then show "load_ok (Suc (Suc (Suc (Suc n)))) 3 a c" by simp
  assume "\<not> bpages c (PGNUM a)"
  from pgfault_ok [OF c(1) a this f b l] 
  show "\<exists>c'. bc_pgfault (bc_load32 (Suc (Suc (Suc n)))) a c = Inr c' \<and> loaded 3 c c' \<and> bpages c' (PGNUM a)"
    by (simp del: bc_load32.simps)
qed

lemma store_view:
  assumes al: "unat a mod 4 = 0" and m: "bpages c (PGNUM a)"
  shows "abs_fs (c\<lparr>bmem := store4 w a (bmem c), baccessed := f, bdirty := (bdirty c)(PGNUM a := True)\<rparr>) = put32 a w (abs_fs c)"
    (is "abs_fs ?c = _")
proof -
  have "view ?c x = store4 w a (view c) x" for x
  proof (cases "in_diskmap x \<and> \<not> bpages c (PGNUM x)")
    case True
    then have "unat x div 4 \<noteq> unat a div 4" using word_page(1) [OF al] m by metis
    then show ?thesis using store4_bytes(2) [OF al] True by (simp add: view_def)
  next
    case False
    then show ?thesis by (auto simp: view_def store4_def)
  qed
  then have "view ?c = store4 w a (view c)" by blast
  moreover have "PGNUM a \<le> p \<and> p \<le> PGNUM (a + 3) \<longleftrightarrow> p = PGNUM a" for p
  proof -
    have "unat (a + of_nat 3) div 4 = unat a div 4" using unat_plus_small [OF al, of 3] mult4(1) [OF al, of 3] by simp
    from word_page(1) [OF al this] show ?thesis by auto
  qed
  ultimately show ?thesis using m by (auto simp: abs_fs_def put32_def touch_def fun_eq_iff)
qed

lemma bc_store_ok:
  assumes c: "bc_ok c" "3 \<le> bfree c" and al: "unat a mod 4 = 0" and a: "in_diskmap a"
    and b: "blockno_of a < s_nblocks (abs_fs c)" "\<not> block_is_free (blockno_of a) (abs_fs c)"
  shows "\<exists>c'. bc_store32 (Suc (Suc (Suc n))) a w c = Inr c' \<and> abs_fs c' = put32 a w (abs_fs c)"
proof (cases "bpages c (PGNUM a)")
  case True
  then show ?thesis using store_view [OF al] by (simp add: bc_store32_def va_is_mapped_def)
next
  case False
  then obtain c' where c': "bc_pgfault (bc_load32 (Suc (Suc (Suc n)))) a c = Inr c'" "loaded 3 c c'" "bpages c' (PGNUM a)"
    using bc_load_ok(2) [OF c al a b] by blast
  then show ?thesis using False store_view [OF al c'(3)] by (simp add: bc_store32_def va_is_mapped_def loaded_def del: bc_load32.simps)
qed

lemma bc_flush_view: "map_sum id abs_fs (bc_flush_block addr c) = flush_block addr (abs_fs c)"
proof -
  let ?p = "PGNUM addr"
  have "abs_fs (c\<lparr>bdisk := (\<lambda>a. if PGNUM a = ?p then bmem c a else bdisk c a), bdirty := (bdirty c)(?p := False),
      baccessed := f\<rparr>) = (abs_fs c)\<lparr>fdisk := (\<lambda>a. if PGNUM a = ?p then fmem (abs_fs c) a else fdisk (abs_fs c) a),
      fdirty := (fdirty (abs_fs c))(?p := False)\<rparr>" if "bpages c ?p" for f
    using that by (auto simp: abs_fs_def view_def fun_eq_iff)
  then show ?thesis by (auto simp: bc_flush_block_def flush_block_def in_diskmap_def va_is_mapped_def va_is_dirty_def Let_def)
qed

text \<open>
  C12: The block cache is transparent. With the super block in memory, pages for three blocks and room for four nested faults, a
  load of a word of any allocated block returns the word of the view, a store changes just that word of
  the view and marks its page dirty, whichever blocks were in memory before; and \<^verbatim>\<open>flush_block\<close> is
  the operation on the view that the file system code is verified against.
\<close>

theorem block_cache_refines:
  assumes "bc_ok c" and "3 \<le> bfree c" and "unat a mod 4 = 0" and "in_diskmap a"
    and "blockno_of a < s_nblocks (abs_fs c)" and "\<not> block_is_free (blockno_of a) (abs_fs c)"
  shows "(\<exists>c'. bc_load32 (4 + n) a c = Inr (get32 (fmem (abs_fs c)) a, c') \<and> abs_fs c' = abs_fs c) \<and>
     (\<exists>c'. bc_store32 (3 + n) a w c = Inr c' \<and> abs_fs c' = put32 a w (abs_fs c)) \<and>
     map_sum id abs_fs (bc_flush_block addr c) = flush_block addr (abs_fs c)"
  using bc_load_ok(1) [OF assms, of n] bc_store_ok [OF assms, of n w] bc_flush_view
  by (auto simp: load_ok_def loaded_def numeral_eq_Suc simp del: bc_load32.simps)

definition demo_cache :: bcache where
  "demo_cache = \<lparr>bpages = (\<lambda>p. p = 0x10001), bmem = demo_mem, bdirty = (\<lambda>_. False), baccessed = (\<lambda>_. False),
     bdisk = demo_mem, bfree = 3, bsuper = 0x10001000, bbitmap = 0x10002000\<rparr>"

theorem block_cache_refines_witness:
  "bc_ok demo_cache \<and> (\<exists>c'. bc_load32 4 0x10004000 demo_cache = Inr (get32 demo_mem 0x10004000, c') \<and> abs_fs c' = demo_fs) \<and>
   \<not> bpages demo_cache (PGNUM 0x10004000)"
proof -
  have a: "abs_fs demo_cache = demo_fs" by (auto simp: abs_fs_def view_def demo_cache_def demo_fs_def fun_eq_iff)
  have ok: "bc_ok demo_cache" using demo_fs_ok by (simp add: bc_ok_def a) (simp add: demo_cache_def PGNUM_def)
  have b: "blockno_of 0x10004000 = 4" by (simp add: blockno_of_def jos_const)
  have h: "3 \<le> bfree demo_cache" "unat (0x10004000 :: u32) mod 4 = 0" "in_diskmap 0x10004000"
    "blockno_of 0x10004000 < s_nblocks (abs_fs demo_cache)" "\<not> block_is_free (blockno_of 0x10004000) (abs_fs demo_cache)"
    using demo_free by (simp_all add: a b demo_nblocks in_diskmap_def jos_const) (simp add: demo_cache_def)
  have "fmem demo_fs = demo_mem" by (simp add: demo_fs_def)
  then show ?thesis using block_cache_refines [OF ok h, of 0] ok unfolding a by (auto simp: demo_cache_def PGNUM_def simp del: bc_load32.simps)
qed

section \<open>Eviction\<close>

definition same_page :: "u32 \<Rightarrow> bcache \<Rightarrow> bcache \<Rightarrow> bool" where
  "same_page p c c' \<longleftrightarrow> bpages c' p = bpages c p \<and> bdirty c' p = bdirty c p \<and> baccessed c' p = baccessed c p \<and>
     (\<forall>a. PGNUM a = p \<longrightarrow> bdisk c' a = bdisk c a \<and> bmem c' a = bmem c a)"

text \<open>What a sweep does with a page.\<close>

definition swept :: "u32 \<Rightarrow> bcache \<Rightarrow> bcache \<Rightarrow> bool" where
  "swept p c c' \<longleftrightarrow>
     (if \<not> bpages c p then same_page p c c'
      else if baccessed c p
      then bpages c' p \<and> \<not> baccessed c' p \<and> \<not> bdirty c' p \<and> (\<forall>a. PGNUM a = p \<longrightarrow> bdisk c' a = bdisk c a \<and> bmem c' a = bmem c a)
      else \<not> bpages c' p \<and> (\<forall>a. PGNUM a = p \<longrightarrow> bdisk c' a = (if bdirty c p then bmem c a else bdisk c a)))"

lemma clean_page_ok:
  assumes "in_diskmap addr"
  shows "\<exists>c'. clean_page addr c = Inr c' \<and> swept (PGNUM addr) c c' \<and> (\<forall>p. p \<noteq> PGNUM addr \<longrightarrow> same_page p c c')"
  using assms
  by (auto simp: clean_page_def swept_def same_page_def va_is_mapped_def va_is_accessed_def va_is_dirty_def bc_flush_block_def Let_def)

lemma swept_cong: "same_page p c d \<Longrightarrow> swept p d e \<Longrightarrow> swept p c e"
  by (auto simp: swept_def same_page_def split: if_splits)

lemma swept_same: "swept p c d \<Longrightarrow> same_page p d e \<Longrightarrow> swept p c e"
  by (auto simp: swept_def same_page_def split: if_splits)

lemma same_page_trans: "same_page p c d \<Longrightarrow> same_page p d e \<Longrightarrow> same_page p c e"
  by (simp add: same_page_def)

lemma clean_pages_ok:
  assumes "\<forall>a \<in> set as. in_diskmap a" and "distinct (map PGNUM as)"
  shows "\<exists>c'. clean_pages as c = Inr c' \<and> (\<forall>p \<in> PGNUM ` set as. swept p c c') \<and> (\<forall>p. p \<notin> PGNUM ` set as \<longrightarrow> same_page p c c')"
  using assms
proof (induction as arbitrary: c)
  case Nil
  then show ?case by (simp add: same_page_def)
next
  case (Cons a as)
  obtain d where d: "clean_page a c = Inr d" "swept (PGNUM a) c d" "\<forall>p. p \<noteq> PGNUM a \<longrightarrow> same_page p c d"
    using clean_page_ok Cons.prems(1) by fastforce
  obtain e where e: "clean_pages as d = Inr e" "\<forall>p \<in> PGNUM ` set as. swept p d e" "\<forall>p. p \<notin> PGNUM ` set as \<longrightarrow> same_page p d e"
    using Cons.IH [of d] Cons.prems by auto
  have "PGNUM a \<notin> PGNUM ` set as" using Cons.prems(2) by auto
  then have "swept p c e" if "p \<in> PGNUM ` set (a # as)" for p
    using that d e swept_cong swept_same by (cases "p = PGNUM a") auto
  moreover have "same_page p c e" if "p \<notin> PGNUM ` set (a # as)" for p
    using that d(3) e(3) same_page_trans [of p c d e] by auto
  ultimately show ?case using d(1) e(1) by auto
qed

lemma bc_clean_ok: "\<exists>c'. bc_clean c = Inr c' \<and> (\<forall>p. 65536 \<le> unat p \<and> unat p < 851968 \<longrightarrow> swept p c c')"
proof -
  let ?as = "map (\<lambda>i. DISKMAP + of_nat i * BLKSIZE) [0..<unat (DISKSIZE div BLKSIZE)]"
  have n: "unat (DISKSIZE div BLKSIZE) = 786432" by (simp add: jos_const)
  have u: "unat (PGNUM (DISKMAP + of_nat i * BLKSIZE)) = 65536 + i" if "i < 786432" for i
    using that by (simp add: unat_PGNUM jos_const unat_word_ariths unat_of_nat)
  have "in_diskmap (DISKMAP + of_nat i * BLKSIZE)" if "i < 786432" for i
    using u [OF that] that by (simp add: in_diskmap_page unat_PGNUM)
  then have "\<forall>a \<in> set ?as. in_diskmap a" by (auto simp: n)
  moreover have "distinct (map PGNUM ?as)"
    unfolding distinct_map
  proof (intro conjI)
    show "distinct [0..<unat (DISKSIZE div BLKSIZE)]" by simp
    show "inj_on (\<lambda>i. DISKMAP + of_nat i * BLKSIZE) (set [0..<unat (DISKSIZE div BLKSIZE)])"
      by (rule inj_onI) (metis atLeastLessThan_iff n set_upt u add_left_cancel)
    show "inj_on PGNUM (set ?as)" by (rule inj_onI) (auto simp: n dest: arg_cong [of _ _ unat] simp: u)
  qed
  ultimately obtain c' where c': "clean_pages ?as c = Inr c'" "\<forall>p \<in> PGNUM ` set ?as. swept p c c'" using clean_pages_ok by blast
  have "p \<in> PGNUM ` set ?as" if "65536 \<le> unat p" "unat p < 851968" for p
  proof -
    have i: "unat p - 65536 < 786432" using that by simp
    have "p = PGNUM (DISKMAP + of_nat (unat p - 65536) * BLKSIZE)" using u [OF i] that by (simp add: word_unat_eq_iff)
    then show ?thesis using i n by (auto simp: image_iff intro!: bexI [of _ "unat p - 65536"])
  qed
  then show ?thesis using c' by (auto simp: bc_clean_def)
qed



end
