(* ===== verification/FileSys.thy ===== *)
theory FileSys
  imports FsBlocks
begin

text \<open>
  The files of \<^verbatim>\<open>fs/fs.c\<close>: block lookup and allocation, directories, path names, reading, writing,
  truncation and flushing. A file is the address of its \<^verbatim>\<open>struct File\<close> in the server's memory, as in
  the code; offsets and sizes are 32-bit words, compared and divided with the signedness that the C
  types give. A result that the code stores through a pointer argument is an option in the result,
  \<open>None\<close> where the code does not assign it.
\<close>

section \<open>The file structure\<close>

definition f_size :: "u32 \<Rightarrow> fs \<Rightarrow> u32" where "f_size f s = get32 (fmem s) (f + 128)"
definition f_type :: "u32 \<Rightarrow> fs \<Rightarrow> u32" where "f_type f s = get32 (fmem s) (f + 132)"
definition f_direct :: "u32 \<Rightarrow> u32 \<Rightarrow> u32" where "f_direct f i = f + 136 + 4 * i"
definition f_indirect :: "u32 \<Rightarrow> fs \<Rightarrow> u32" where "f_indirect f s = get32 (fmem s) (f + 176)"

text \<open>Signed division and remainder by a positive constant, rounding towards zero.\<close>

definition c_sdiv :: "u32 \<Rightarrow> u32 \<Rightarrow> u32" where
  "c_sdiv a b = word_of_int (sgn (sint a) * (\<bar>sint a\<bar> div sint b))"

definition c_smod :: "u32 \<Rightarrow> u32 \<Rightarrow> u32" where
  "c_smod a b = word_of_int (sgn (sint a) * (\<bar>sint a\<bar> mod sint b))"

section \<open>Blocks of a file\<close>

text \<open>A block that has just been allocated is cleared and written out.\<close>

definition clear_block :: "u32 \<Rightarrow> fs \<Rightarrow> fs exec" where
  "clear_block r s =
     bindE (diskaddr r s) (\<lambda>a. flush_block a (touch a 4096 (s\<lparr>fmem := memset a 0 4096 (fmem s)\<rparr>)))"

text \<open>
  What \<^verbatim>\<open>file_block_walk\<close> and \<^verbatim>\<open>file_get_block\<close> both do when a slot is empty: allocate a block,
  store its number in the slot, clear the block.
\<close>

definition alloc_into :: "u32 \<Rightarrow> fs \<Rightarrow> (int \<times> fs) exec" where
  "alloc_into p s =
     bindE (alloc_block s) (\<lambda>(r, s1).
       if r < 0 then Inr (- E_NO_DISK, s1)
       else bindE (clear_block (word_of_int r) (put32 p (word_of_int r) s1)) (\<lambda>s2. Inr (0, s2)))"

definition file_block_walk :: "u32 \<Rightarrow> u32 \<Rightarrow> bool \<Rightarrow> fs \<Rightarrow> (int \<times> u32 option \<times> fs) exec" where
  "file_block_walk f filebno alloc s =
     (if filebno \<ge> NDIRECT + NINDIRECT then Inr (- E_INVAL, None, s)
      else if filebno < NDIRECT then Inr (0, Some (f_direct f filebno), s)
      else
        bindE (if f_indirect f s \<noteq> 0 then Inr (0, s)
               else if \<not> alloc then Inr (- E_NOT_FOUND, s)
               else alloc_into (f + 176) s)
          (\<lambda>(r, s1).
             if r < 0 then Inr (r, None, s1)
             else bindE (diskaddr (f_indirect f s1) s1) (\<lambda>a. Inr (0, Some (a + 4 * (filebno - NDIRECT)), s1))))"

definition file_get_block :: "u32 \<Rightarrow> u32 \<Rightarrow> fs \<Rightarrow> (int \<times> u32 option \<times> fs) exec" where
  "file_get_block f filebno s =
     bindE (file_block_walk f filebno True s) (\<lambda>(r, slot, s1).
       case slot of
         None \<Rightarrow> Inr (r, None, s1)
       | Some p \<Rightarrow>
           bindE (if get32 (fmem s1) p \<noteq> 0 then Inr (0, s1) else alloc_into p s1)
             (\<lambda>(r, s2).
                if r < 0 then Inr (r, None, s2)
                else bindE (diskaddr (get32 (fmem s2) p) s2) (\<lambda>a. Inr (0, Some a, s2))))"

definition file_free_block :: "u32 \<Rightarrow> u32 \<Rightarrow> fs \<Rightarrow> (int \<times> fs) exec" where
  "file_free_block f filebno s =
     bindE (file_block_walk f filebno False s) (\<lambda>(r, slot, s1).
       case slot of
         None \<Rightarrow> Inr (r, s1)
       | Some p \<Rightarrow>
           if get32 (fmem s1) p \<noteq> 0
           then bindE (free_block (get32 (fmem s1) p) s1) (\<lambda>s2. Inr (0, put32 p 0 s2))
           else Inr (0, s1))"

section \<open>Sizes and flushing\<close>

definition blocks_for :: "u32 \<Rightarrow> u32" where
  "blocks_for n = c_sdiv (n + BLKSIZE - 1) BLKSIZE"

primrec free_blocks :: "u32 \<Rightarrow> u32 list \<Rightarrow> fs \<Rightarrow> fs exec" where
  "free_blocks f [] s = Inr s"
| "free_blocks f (bno # bnos) s = bindE (file_free_block f bno s) (\<lambda>(r, s1). free_blocks f bnos s1)"

definition file_truncate_blocks :: "u32 \<Rightarrow> u32 \<Rightarrow> fs \<Rightarrow> fs exec" where
  "file_truncate_blocks f newsize s =
     (let old_nblocks = blocks_for (f_size f s); new_nblocks = blocks_for newsize in
      bindE (free_blocks f (map of_nat [unat new_nblocks..<unat old_nblocks]) s) (\<lambda>s1.
        if new_nblocks \<le> NDIRECT \<and> f_indirect f s1 \<noteq> 0
        then bindE (free_block (f_indirect f s1) s1) (\<lambda>s2. Inr (put32 (f + 176) 0 s2))
        else Inr s1))"

definition file_set_size :: "u32 \<Rightarrow> u32 \<Rightarrow> fs \<Rightarrow> (int \<times> fs) exec" where
  "file_set_size f newsize s =
     bindE (if sint (f_size f s) > sint newsize then file_truncate_blocks f newsize s else Inr s) (\<lambda>s1.
     bindE (flush_block f (put32 (f + 128) newsize s1)) (\<lambda>s2. Inr (0, s2)))"

primrec flush_blocks :: "u32 \<Rightarrow> u32 list \<Rightarrow> fs \<Rightarrow> fs exec" where
  "flush_blocks f [] s = Inr s"
| "flush_blocks f (i # is) s =
     bindE (file_block_walk f i False s) (\<lambda>(r, slot, s1).
       case slot of
         None \<Rightarrow> flush_blocks f is s1
       | Some p \<Rightarrow>
           if get32 (fmem s1) p = 0 then flush_blocks f is s1
           else bindE (diskaddr (get32 (fmem s1) p) s1) (\<lambda>a. bindE (flush_block a s1) (flush_blocks f is)))"

definition file_flush :: "u32 \<Rightarrow> fs \<Rightarrow> fs exec" where
  "file_flush f s =
     bindE (flush_blocks f (map of_nat [0..<nat (sint (blocks_for (f_size f s)))]) s) (\<lambda>s1.
     bindE (flush_block f s1) (\<lambda>s2.
       if f_indirect f s2 \<noteq> 0 then bindE (diskaddr (f_indirect f s2) s2) (\<lambda>a. flush_block a s2) else Inr s2))"

section \<open>Directories\<close>

text \<open>The loop over the \<open>BLKFILES\<close> entries of a directory block.\<close>

definition find_file :: "(u32 \<Rightarrow> bool) \<Rightarrow> u32 \<Rightarrow> u32 option" where
  "find_file P blk = find P (map (\<lambda>j. blk + 256 * of_nat j) [0..<BLKFILES])"

text \<open>The loop over the blocks of a directory; \<open>None\<close> when it runs to its end.\<close>

primrec dir_scan :: "(mem \<Rightarrow> u32 \<Rightarrow> bool) \<Rightarrow> u32 \<Rightarrow> u32 list \<Rightarrow> fs \<Rightarrow> ((int \<times> u32 option) option \<times> fs) exec" where
  "dir_scan P dir [] s = Inr (None, s)"
| "dir_scan P dir (i # is) s =
     bindE (file_get_block dir i s) (\<lambda>(r, blk, s1).
       case blk of
         None \<Rightarrow> Inr (Some (r, None), s1)
       | Some b \<Rightarrow>
           (case find_file (P (fmem s1)) b of
              Some f \<Rightarrow> Inr (Some (0, Some f), s1)
            | None \<Rightarrow> dir_scan P dir is s1))"

definition dir_lookup :: "u32 \<Rightarrow> u8 list \<Rightarrow> fs \<Rightarrow> (int \<times> u32 option \<times> fs) exec" where
  "dir_lookup dir name s =
     (if c_smod (f_size dir s) BLKSIZE \<noteq> 0 then Inl (Panic ''assertion failed'')
      else bindE (dir_scan (\<lambda>m f. is_str m f name) dir (map of_nat [0..<unat (c_sdiv (f_size dir s) BLKSIZE)]) s)
        (\<lambda>(res, s1). case res of Some (r, f) \<Rightarrow> Inr (r, f, s1) | None \<Rightarrow> Inr (- E_NOT_FOUND, None, s1)))"

definition dir_alloc_file :: "u32 \<Rightarrow> fs \<Rightarrow> (int \<times> u32 option \<times> fs) exec" where
  "dir_alloc_file dir s =
     (if c_smod (f_size dir s) BLKSIZE \<noteq> 0 then Inl (Panic ''assertion failed'')
      else let nblock = c_sdiv (f_size dir s) BLKSIZE in
        bindE (dir_scan (\<lambda>m f. m f = 0) dir (map of_nat [0..<unat nblock]) s)
          (\<lambda>(res, s1).
             case res of
               Some (r, f) \<Rightarrow> Inr (r, f, s1)
             | None \<Rightarrow> file_get_block dir nblock (put32 (dir + 128) (f_size dir s1 + BLKSIZE) s1)))"

section \<open>Path names\<close>

definition SLASH :: u8 where "SLASH = 47"

definition skip_slash :: "u8 list \<Rightarrow> u8 list" where
  "skip_slash p = dropWhile (\<lambda>c. c = SLASH) p"

text \<open>The result of a walk: the code, the directory (0 for NULL), the file and the last element.\<close>

function walk_loop :: "u8 list \<Rightarrow> u32 \<Rightarrow> u32 \<Rightarrow> fs \<Rightarrow> (int \<times> u32 \<times> u32 \<times> u8 list \<times> fs) exec" where
  "walk_loop path dir f s =
     (if path = [] then Inr (0, dir, f, [], s)
      else
        let name = takeWhile (\<lambda>c. c \<noteq> SLASH) path;
            rest = skip_slash (dropWhile (\<lambda>c. c \<noteq> SLASH) path) in
        if length name \<ge> MAXNAMELEN then Inr (- E_BAD_PATH, 0, 0, [], s)
        else if f_type f s \<noteq> FTYPE_DIR then Inr (- E_NOT_FOUND, 0, 0, [], s)
        else bindE (dir_lookup f name s) (\<lambda>(r, g, s1).
          case g of
            None \<Rightarrow> if r = - E_NOT_FOUND \<and> rest = [] then Inr (r, f, 0, name, s1) else Inr (r, 0, 0, [], s1)
          | Some g \<Rightarrow> walk_loop rest f g s1))"
  by pat_completeness auto

lemma skip_rest_shorter:
  assumes "path \<noteq> []"
  shows "length (skip_slash (dropWhile (\<lambda>c. c \<noteq> SLASH) path)) < length path"
proof (cases "hd path = SLASH")
  case True
  then show ?thesis using assms by (cases path) (auto simp: skip_slash_def less_Suc_eq_le length_dropWhile_le)
next
  case False
  then obtain c cs where "path = c # cs" "c \<noteq> SLASH" using assms by (cases path) auto
  then show ?thesis
    using length_dropWhile_le [of "\<lambda>c. c \<noteq> SLASH" cs]
      length_dropWhile_le [of "\<lambda>c. c = SLASH" "dropWhile (\<lambda>c. c \<noteq> SLASH) cs"]
    by (simp add: skip_slash_def)
qed

termination walk_loop
  by (relation "measure (\<lambda>(path, dir, f, s). length path)") (simp_all add: skip_rest_shorter)

declare walk_loop.simps [simp del]

definition walk_path :: "u8 list \<Rightarrow> fs \<Rightarrow> (int \<times> u32 \<times> u32 \<times> u8 list \<times> fs) exec" where
  "walk_path path s = walk_loop (skip_slash path) 0 (s_root s) s"

section \<open>Creating and opening\<close>

primrec poke :: "u32 \<Rightarrow> u8 list \<Rightarrow> mem \<Rightarrow> mem" where
  "poke a [] m = m"
| "poke a (b # bs) m = poke (a + 1) bs (m(a := b))"

definition file_create :: "u8 list \<Rightarrow> fs \<Rightarrow> (int \<times> u32 option \<times> fs) exec" where
  "file_create path s =
     bindE (walk_path path s) (\<lambda>(r, dir, f, name, s1).
       if r = 0 then Inr (- E_FILE_EXISTS, None, s1)
       else if r \<noteq> - E_NOT_FOUND \<or> dir = 0 then Inr (r, None, s1)
       else bindE (dir_alloc_file dir s1) (\<lambda>(r, f, s2).
         case f of
           None \<Rightarrow> Inr (r, None, s2)
         | Some f \<Rightarrow>
             bindE (file_flush dir (touch f (length name + 1) (s2\<lparr>fmem := poke f (name @ [0]) (fmem s2)\<rparr>)))
               (\<lambda>s3. Inr (0, Some f, s3))))"

definition file_open :: "u8 list \<Rightarrow> fs \<Rightarrow> (int \<times> u32 \<times> fs) exec" where
  "file_open path s = bindE (walk_path path s) (\<lambda>(r, dir, f, name, s1). Inr (r, f, s1))"

section \<open>Reading and writing\<close>

text \<open>The number of bytes the loops move at once: the rest of the block or the rest of the request.\<close>

definition chunk :: "u32 \<Rightarrow> u32 \<Rightarrow> u32" where
  "chunk pos lim = min (BLKSIZE - c_smod pos BLKSIZE) (lim - pos)"

lemma sint_of_int_small: "- 2147483648 \<le> k \<Longrightarrow> k < 2147483648 \<Longrightarrow> sint (word_of_int k :: u32) = k"
  by (simp add: signed_of_int signed_take_bit_int_eq_self)

lemma sgn_small: "0 \<le> k \<Longrightarrow> k < n \<Longrightarrow> - n < sgn x * k \<and> sgn x * k < (n :: int)"
  by (simp add: sgn_if)

lemma c_smod_sint: "sint (c_smod a BLKSIZE) = sgn (sint a) * (\<bar>sint a\<bar> mod 4096)"
proof -
  have b: "sint BLKSIZE = 4096" by (simp add: BLKSIZE_def)
  have "- 4096 < sgn (sint a) * (\<bar>sint a\<bar> mod 4096) \<and> sgn (sint a) * (\<bar>sint a\<bar> mod 4096) < 4096"
    by (rule sgn_small) simp_all
  then show ?thesis unfolding c_smod_def b by (intro sint_of_int_small) linarith+
qed

lemma c_smod_small: "\<bar>sint (c_smod a BLKSIZE)\<bar> < 4096"
proof -
  have "\<bar>sint a\<bar> mod 4096 < 4096" "0 \<le> \<bar>sint a\<bar> mod 4096" by simp_all
  then show ?thesis unfolding c_smod_sint by (simp add: abs_mult sgn_if)
qed

lemma chunk_pos: "pos < lim \<Longrightarrow> 0 < chunk pos lim"
proof -
  assume a: "pos < lim"
  have "sint (c_smod pos BLKSIZE) \<noteq> 4096" using c_smod_small [of pos] by simp
  then have "c_smod pos BLKSIZE \<noteq> BLKSIZE" by (auto simp: BLKSIZE_def)
  then show ?thesis using a by (auto simp: chunk_def min_def word_gt_0)
qed

lemma chunk_less: "pos < lim \<Longrightarrow> unat (lim - (pos + chunk pos lim)) < unat (lim - pos)"
proof -
  assume a: "pos < lim"
  have le: "chunk pos lim \<le> lim - pos" by (simp add: chunk_def)
  have "lim - (pos + chunk pos lim) = (lim - pos) - chunk pos lim" by simp
  then have "unat (lim - (pos + chunk pos lim)) = unat (lim - pos) - unat (chunk pos lim)"
    using le by (simp only: unat_sub)
  moreover have "0 < unat (chunk pos lim)" using chunk_pos [OF a] by (simp add: word_less_nat_alt)
  ultimately show ?thesis using le by (simp add: word_le_nat_alt)
qed

function read_loop :: "u32 \<Rightarrow> u32 \<Rightarrow> u32 \<Rightarrow> u32 \<Rightarrow> fs \<Rightarrow> (int \<times> fs) exec" where
  "read_loop f buf pos lim s =
     (if pos < lim
      then bindE (file_get_block f (c_sdiv pos BLKSIZE) s) (\<lambda>(r, blk, s1).
        case blk of
          None \<Rightarrow> Inr (r, s1)
        | Some b \<Rightarrow>
            let bn = chunk pos lim in
            read_loop f (buf + bn) (pos + bn) lim
              (touch buf (unat bn) (s1\<lparr>fmem := memmove buf (b + c_smod pos BLKSIZE) (unat bn) (fmem s1)\<rparr>)))
      else Inr (0, s))"
  by pat_completeness auto

termination read_loop
  by (relation "measure (\<lambda>(f, buf, pos, lim, s). unat (lim - pos))") (simp_all add: chunk_less)

definition file_read :: "u32 \<Rightarrow> u32 \<Rightarrow> u32 \<Rightarrow> u32 \<Rightarrow> fs \<Rightarrow> (int \<times> fs) exec" where
  "file_read f buf count offset s =
     (if sint offset \<ge> sint (f_size f s) then Inr (0, s)
      else let count' = min count (f_size f s - offset) in
        bindE (read_loop f buf offset (offset + count') s) (\<lambda>(r, s1).
          if r < 0 then Inr (r, s1) else Inr (sint count', s1)))"

function write_loop :: "u32 \<Rightarrow> u32 \<Rightarrow> u32 \<Rightarrow> u32 \<Rightarrow> fs \<Rightarrow> (int \<times> fs) exec" where
  "write_loop f buf pos lim s =
     (if pos < lim
      then bindE (file_get_block f (c_sdiv pos BLKSIZE) s) (\<lambda>(r, blk, s1).
        case blk of
          None \<Rightarrow> Inr (r, s1)
        | Some b \<Rightarrow>
            let bn = chunk pos lim; dst = b + c_smod pos BLKSIZE in
            write_loop f (buf + bn) (pos + bn) lim
              (touch dst (unat bn) (s1\<lparr>fmem := memmove dst buf (unat bn) (fmem s1)\<rparr>)))
      else Inr (0, s))"
  by pat_completeness auto

termination write_loop
  by (relation "measure (\<lambda>(f, buf, pos, lim, s). unat (lim - pos))") (simp_all add: chunk_less)

declare read_loop.simps [simp del] write_loop.simps [simp del]

definition file_write :: "u32 \<Rightarrow> u32 \<Rightarrow> u32 \<Rightarrow> u32 \<Rightarrow> fs \<Rightarrow> (int \<times> fs) exec" where
  "file_write f buf count offset s =
     bindE (if offset + count > f_size f s then file_set_size f (offset + count) s else Inr (0, s)) (\<lambda>(r, s1).
       if r < 0 then Inr (r, s1)
       else bindE (write_loop f buf offset (offset + count) s1) (\<lambda>(r, s2).
         if r < 0 then Inr (r, s2) else Inr (sint count, s2)))"

end
