(* ===== verification/FileIO.thy ===== *)
theory FileIO
  imports FileSys
begin

section \<open>Which bytes a change can reach\<close>

definition in_block :: "u32 \<Rightarrow> u32 \<Rightarrow> bool" where
  "in_block b x \<longleftrightarrow> unat x div 4096 = 65536 + unat b"

definition bitmap_addr :: "fs \<Rightarrow> u32 \<Rightarrow> bool" where
  "bitmap_addr s x \<longleftrightarrow> 65538 \<le> unat x div 4096 \<and> unat x div 4096 < 65538 + bitmap_blocks s"

lemma get32_same:
  assumes "unat a mod 4 = 0" and "\<And>x. unat x div 4 = unat a div 4 \<Longrightarrow> m x = m' x"
  shows "get32 m a = get32 m' a"
  by (rule get32_cong, rule assms(2)) (simp add: unat_plus_small [OF assms(1)] mult4(1) [OF assms(1)])

lemma div4_page: "unat x div 4 = n \<Longrightarrow> unat (x :: u32) div 4096 = n div 1024"
  by (simp add: div_mult2_eq [symmetric])

lemma block_addr:
  assumes "fs_ok s" and "b < s_nblocks s"
  shows "unat (DISKMAP + b * BLKSIZE) = 4096 * (65536 + unat b)"
proof -
  have "unat b < 786432" using fs_okD(4) [OF assms(1)] assms(2) by (simp add: word_less_nat_alt)
  then show ?thesis by (simp add: jos_const unat_word_ariths)
qed

lemma in_block_range:
  assumes "unat a = 4096 * (65536 + unat b)"
  shows "in_range a 4096 x \<longleftrightarrow> in_block b x"
  unfolding in_range_def in_block_def assms by auto

lemma view_same:
  assumes ok: "fs_ok s" and st: "super t = super s" "bitmap t = bitmap s"
    and same: "\<And>x. unat x div 4 = 67109889 \<or> bitmap_addr s x \<Longrightarrow> fmem t x = fmem s x"
  shows "s_nblocks t = s_nblocks s" and "block_is_free c t = block_is_free c s" and "fs_ok t"
proof -
  note F = fs_okD [OF ok]
  have u: "unat (super s + 4) = 268439556" using F(1) by simp
  have "get32 (fmem t) (super s + 4) = get32 (fmem s) (super s + 4)"
    by (rule get32_same) (simp_all add: u same)
  then show nb: "s_nblocks t = s_nblocks s" by (simp add: s_nblocks_def st)
  show fr: "block_is_free c t = block_is_free c s" for c
  proof (cases "c < s_nblocks s")
    case True
    note B = bit_addr_unat [OF ok True]
    have "get32 (fmem t) (bit_addr c s) = get32 (fmem s) (bit_addr c s)"
    proof (rule get32_same [OF B(2)])
      fix x :: u32 assume "unat x div 4 = unat (bit_addr c s) div 4"
      then have "unat x div 4 = 67110912 + unat c div 32" using B(1) by simp
      then have "unat x div 4096 = (67110912 + unat c div 32) div 1024" by (rule div4_page)
      also have "\<dots> = 65538 + unat c div 32768" by (simp add: div_mult2_eq [symmetric])
      finally have "unat x div 4096 = 65538 + unat c div 32768" .
      moreover have "unat c div 32768 < bitmap_blocks s"
        using True by (simp add: bitmap_blocks_def word_less_nat_alt div_less_iff_less_mult) 
      ultimately have "bitmap_addr s x" by (simp add: bitmap_addr_def)
      then show "fmem t x = fmem s x" using same by blast
    qed
    then show ?thesis by (simp add: block_is_free_def nb st bit_addr_def)
  qed (simp add: block_is_free_def nb st not_less)
  have "bitmap_blocks t = bitmap_blocks s" by (simp add: bitmap_blocks_def nb)
  then show "fs_ok t" using ok by (simp add: fs_ok_def nb st fr)
qed

text \<open>What a new block in slot \<open>p\<close> changes.\<close>

definition placed :: "u32 \<Rightarrow> u32 \<Rightarrow> fs \<Rightarrow> fs \<Rightarrow> bool" where
  "placed p b s t \<longleftrightarrow> fs_ok t \<and> super t = super s \<and> bitmap t = bitmap s \<and> s_nblocks t = s_nblocks s \<and>
     (\<forall>c. block_is_free c t \<longleftrightarrow> c \<noteq> b \<and> block_is_free c s) \<and> get32 (fmem t) p = b \<and>
     (\<forall>x. in_block b x \<longrightarrow> fmem t x = 0) \<and>
     (\<forall>x. \<not> bitmap_addr s x \<and> \<not> in_block b x \<and> unat x div 4 \<noteq> unat p div 4 \<longrightarrow> fmem t x = fmem s x)"

text \<open>A word of the disk that is neither in a free block, nor in the bitmap, nor a field of the super block.\<close>

definition slot_ok :: "u32 \<Rightarrow> fs \<Rightarrow> bool" where
  "slot_ok p s \<longleftrightarrow> unat p mod 4 = 0 \<and> \<not> bitmap_addr s p \<and> 268439560 \<le> unat p \<and>
     (\<forall>c. block_is_free c s \<longrightarrow> \<not> in_block c p)"

lemma same_word_page: "unat x div 4 = unat p div 4 \<Longrightarrow> unat (x :: u32) div 4096 = unat (p :: u32) div 4096"
  by (metis div4_page)

lemma same_word_block: "unat x div 4 = unat p div 4 \<Longrightarrow> in_block b x = in_block b p"
  unfolding in_block_def by (simp only: same_word_page [of x p])

lemma put32_slot:
  fixes w :: u32
  assumes ok: "fs_ok s" and p: "slot_ok p s"
  defines "t \<equiv> put32 p w s"
  shows "fs_ok t" "super t = super s" "bitmap t = bitmap s" "s_nblocks t = s_nblocks s"
    "block_is_free c t = block_is_free c s" "get32 (fmem t) p = w"
    "unat x div 4 \<noteq> unat p div 4 \<Longrightarrow> fmem t x = fmem s x"
proof -
  have al: "unat p mod 4 = 0" and lo: "268439560 \<le> unat p" and nb: "\<not> bitmap_addr s p" using p by (auto simp: slot_ok_def)
  show st: "super t = super s" "bitmap t = bitmap s" by (simp_all add: t_def put32_def)
  show fr: "fmem t x = fmem s x" if "unat x div 4 \<noteq> unat p div 4" for x
    using store4_bytes(2) [OF al that] by (simp add: t_def put32_def)
  show "get32 (fmem t) p = w" using get32_store4(1) [OF al] by (simp add: t_def put32_def)
  have "67109890 \<le> unat p div 4" using lo by simp
  then have same: "fmem t x = fmem s x" if "unat x div 4 = 67109889 \<or> bitmap_addr s x" for x
    using that nb same_word_page [of x p] by (intro fr) (auto simp: bitmap_addr_def)
  show "fs_ok t" "s_nblocks t = s_nblocks s" "block_is_free c t = block_is_free c s"
    using view_same [OF ok st same] by auto
qed

lemma clear_block_ok:
  assumes ok: "fs_ok s" and b: "2 + bitmap_blocks s \<le> unat b" "b < s_nblocks s"
  shows "\<exists>t. clear_block b s = Inr t \<and> fs_ok t \<and> super t = super s \<and> bitmap t = bitmap s \<and> s_nblocks t = s_nblocks s \<and>
     (\<forall>c. block_is_free c t = block_is_free c s) \<and>
     (\<forall>x. fmem t x = (if in_block b x then 0 else fmem s x))"
proof -
  let ?a = "DISKMAP + b * BLKSIZE"
  note A = block_addr [OF ok b(2)] and F = fs_okD [OF ok]
  have bn: "unat b < 786432" using F(4) b(2) by (simp add: word_less_nat_alt)
  have b0: "b \<noteq> 0" using b(1) by auto
  then have d: "diskaddr b s = Inr ?a" using b(2) by (simp add: diskaddr_def not_le)
  let ?m = "touch ?a 4096 (s\<lparr>fmem := memset ?a 0 4096 (fmem s)\<rparr>)"
  have fm: "memset ?a 0 4096 (fmem s) x = (if in_block b x then 0 else fmem s x)" for x
  proof -
    have "unat ?a + 4096 \<le> 2 ^ 32" using A bn by simp
    from memset_filled [OF this] show ?thesis using in_block_range [OF A] by simp
  qed
  have "unat DISKMAP \<le> unat ?a" "unat ?a < unat (DISKMAP + DISKSIZE)" using A bn by (simp_all add: jos_const)
  then obtain dk e where fl: "flush_block ?a ?m = Inr (?m\<lparr>fdisk := dk, fdirty := e\<rparr>)"
    using flush_block_ok [of ?a ?m] by (auto simp: word_le_nat_alt word_less_nat_alt)
  let ?t = "?m\<lparr>fdisk := dk, fdirty := e\<rparr>"
  have ft: "fmem ?t x = (if in_block b x then 0 else fmem s x)" for x using fm by simp
  have "fmem ?t x = fmem s x" if "unat x div 4 = 67109889 \<or> bitmap_addr s x" for x
    using that b(1) div4_page [of x 67109889] unfolding ft by (auto simp: in_block_def bitmap_addr_def)
  then have "s_nblocks ?t = s_nblocks s" "block_is_free c ?t = block_is_free c s" "fs_ok ?t" for c
    using view_same [OF ok, of ?t] by auto
  then show ?thesis using fl d ft by (intro exI [of _ ?t]) (simp add: clear_block_def)
qed

lemma alloc_into_ok:
  assumes ok: "fs_ok s" and p: "slot_ok p s"
  shows "alloc_into p s = Inr (- E_NO_DISK, s) \<and> (\<forall>b. \<not> block_is_free b s) \<or>
    (\<exists>b t. block_is_free b s \<and> alloc_into p s = Inr (0, t) \<and> placed p b s t)"
  using alloc_block_ok [OF ok]
proof (elim disjE exE conjE)
  fix b t
  assume b: "block_is_free b s" "b < s_nblocks s" "alloc_block s = Inr (int (unat b), t)" "s_nblocks t = s_nblocks s"
    "super t = super s" "bitmap t = bitmap s" "\<forall>c. block_is_free c t \<longleftrightarrow> c \<noteq> b \<and> block_is_free c s"
    "\<forall>x. unat x div 4 \<noteq> 67110912 + unat b div 32 \<longrightarrow> fmem t x = fmem s x"
  have bb: "bitmap_blocks t = bitmap_blocks s" using b(4) by (simp add: bitmap_blocks_def)
  have okt: "fs_ok t" by (rule fs_ok_change [OF ok b(4-6)]) (use b(7) in auto)
  have pt: "slot_ok p t" using p b(7) by (simp add: slot_ok_def bitmap_addr_def bb)
  note P = put32_slot [OF okt pt, where w = b]
  have "bitmap_blocks (put32 p b t) = bitmap_blocks s" using P(4) b(4) by (simp add: bitmap_blocks_def)
  then obtain u where u: "clear_block b (put32 p b t) = Inr u" "fs_ok u" "super u = super s" "bitmap u = bitmap s"
      "s_nblocks u = s_nblocks s" "\<forall>c. block_is_free c u \<longleftrightarrow> c \<noteq> b \<and> block_is_free c s"
      "\<forall>x. fmem u x = (if in_block b x then 0 else fmem (put32 p b t) x)"
    using clear_block_ok [OF P(1), of b] free_not_reserved [OF ok b(1)] b P by auto
  have nin: "\<not> in_block b p" using p b(1) by (simp add: slot_ok_def)
  have g: "get32 (fmem u) p = b"
  proof -
    have al: "unat p mod 4 = 0" using p by (simp add: slot_ok_def)
    have "get32 (fmem u) p = get32 (fmem (put32 p b t)) p"
      by (rule get32_same [OF al]) (simp add: u(7) nin same_word_block [of _ p])
    then show ?thesis using P(6) by simp
  qed
  have fr: "fmem u x = fmem s x" if "\<not> bitmap_addr s x" "\<not> in_block b x" "unat x div 4 \<noteq> unat p div 4" for x
  proof -
    have "unat x div 4 \<noteq> 67110912 + unat b div 32"
    proof
      assume "unat x div 4 = 67110912 + unat b div 32"
      then have "unat x div 4096 = 65538 + unat b div 32768" using div4_page [of x] by (simp add: div_mult2_eq [symmetric])
      moreover have "unat b div 32768 < bitmap_blocks s"
        using b(2) by (simp add: bitmap_blocks_def word_less_nat_alt div_less_iff_less_mult)
      ultimately show False using that(1) by (simp add: bitmap_addr_def)
    qed
    then show ?thesis using b(8) P(7) u(7) that by simp
  qed
  have "alloc_into p s = Inr (0, u)" using b(3) u(1) by (simp add: alloc_into_def)
  moreover have "placed p b s u" using u g fr by (simp add: placed_def)
  ultimately show ?thesis using b(1) by blast
qed (simp add: alloc_into_def E_NO_DISK_def)

section \<open>A well-formed file\<close>

definition slot :: "u32 \<Rightarrow> nat \<Rightarrow> fs \<Rightarrow> u32" where
  "slot f n s =
     (if n < 10 then f_direct f (of_nat n) else DISKMAP + f_indirect f s * BLKSIZE + 4 * of_nat (n - 10))"

text \<open>The disk block behind block \<open>n\<close> of the file, 0 for a hole.\<close>

definition fblk :: "u32 \<Rightarrow> nat \<Rightarrow> fs \<Rightarrow> u32" where
  "fblk f n s = (if 10 \<le> n \<and> f_indirect f s = 0 then 0 else get32 (fmem s) (slot f n s))"

text \<open>The contents of a file: a hole reads as zeros.\<close>

definition fbyte :: "u32 \<Rightarrow> nat \<Rightarrow> fs \<Rightarrow> u8" where
  "fbyte f p s =
     (let b = fblk f (p div 4096) s in if b = 0 then 0 else fmem s (DISKMAP + b * BLKSIZE + of_nat (p mod 4096)))"

definition file_place :: "u32 \<Rightarrow> fs \<Rightarrow> bool" where
  "file_place f s \<longleftrightarrow> unat f mod 4 = 0 \<and> unat f mod 4096 + 256 \<le> 4096 \<and> 268439560 \<le> unat f \<and> unat f < 3489660928 \<and>
     \<not> bitmap_addr s f \<and> (\<forall>c. block_is_free c s \<longrightarrow> \<not> in_block c f)"

definition file_ok :: "u32 \<Rightarrow> fs \<Rightarrow> bool" where
  "file_ok f s \<longleftrightarrow> fs_ok s \<and> file_place f s \<and>
     (f_indirect f s \<noteq> 0 \<longrightarrow> data_block s (f_indirect f s) \<and> \<not> in_block (f_indirect f s) f) \<and>
     (\<forall>n < 1034. fblk f n s \<noteq> 0 \<longrightarrow>
        data_block s (fblk f n s) \<and> \<not> in_block (fblk f n s) f \<and> fblk f n s \<noteq> f_indirect f s) \<and>
     (\<forall>m < 1034. \<forall>n < 1034. fblk f m s = fblk f n s \<longrightarrow> fblk f m s \<noteq> 0 \<longrightarrow> m = n)"

lemma file_okD:
  assumes "file_ok f s"
  shows "fs_ok s" "file_place f s"
    "f_indirect f s \<noteq> 0 \<Longrightarrow> data_block s (f_indirect f s) \<and> \<not> in_block (f_indirect f s) f"
    "n < 1034 \<Longrightarrow> fblk f n s \<noteq> 0 \<Longrightarrow>
       data_block s (fblk f n s) \<and> \<not> in_block (fblk f n s) f \<and> fblk f n s \<noteq> f_indirect f s"
    "m < 1034 \<Longrightarrow> n < 1034 \<Longrightarrow> fblk f m s = fblk f n s \<Longrightarrow> fblk f m s \<noteq> 0 \<Longrightarrow> m = n"
  using assms by (simp_all add: file_ok_def)

lemma field_unat:
  assumes "file_place f s" and "k < 256"
  shows "unat (f + of_nat k) = unat f + k"
  using assms unat_u32_less [of f] by (simp add: file_place_def unat_word_ariths unat_of_nat)

lemma field_page:
  assumes "file_place f s" and "k < 256"
  shows "(unat f + k) div 4096 = unat f div 4096"
proof -
  have "unat f mod 4096 + k < 4096" using assms by (simp add: file_place_def)
  then show ?thesis using assms(2) by (simp add: div_add1_eq [of "unat f" k])
qed

lemma field_slot_ok:
  assumes "file_place f s" and "k < 256" and "k mod 4 = 0"
  shows "slot_ok (f + of_nat k) s"
proof -
  have u: "unat (f + of_nat k) = unat f + k" by (rule field_unat [OF assms(1,2)])
  have pg: "unat (f + of_nat k) div 4096 = unat f div 4096" unfolding u by (rule field_page [OF assms(1,2)])
  have "(unat f + k) mod 4 = 0" using assms by (simp add: file_place_def mod_add_eq [symmetric])
  then show ?thesis
    using assms(1) pg by (simp add: slot_ok_def file_place_def u bitmap_addr_def in_block_def)
qed

lemma data_block_slot_ok:
  assumes ok: "fs_ok s" and b: "data_block s b" and k: "k < 4096" "k mod 4 = 0"
  shows "unat (DISKMAP + b * BLKSIZE + of_nat k) = 4096 * (65536 + unat b) + k"
    and "slot_ok (DISKMAP + b * BLKSIZE + of_nat k) s" and "in_block b (DISKMAP + b * BLKSIZE + of_nat k)"
proof -
  have bn: "b < s_nblocks s" "2 \<le> unat b" using b by (auto simp: data_block_def)
  have "unat b < 786432" using fs_okD(4) [OF ok] bn(1) by (simp add: word_less_nat_alt)
  then show u: "unat (DISKMAP + b * BLKSIZE + of_nat k) = 4096 * (65536 + unat b) + k"
    using block_addr [OF ok bn(1)] k(1) by (subst unat_word_ariths) (simp add: unat_of_nat)
  have pg: "(4096 * (65536 + unat b) + k) div 4096 = 65536 + unat b" using k(1) by simp
  then show ib: "in_block b (DISKMAP + b * BLKSIZE + of_nat k)" by (simp add: in_block_def u)
  obtain j where "k = 4 * j" using k(2) by auto
  then have al: "(4096 * (65536 + unat b) + k) mod 4 = 0" by (simp add: mod_add_eq [symmetric])
  have "c = b" if "65536 + unat b = 65536 + unat c" for c using that by (simp add: word_unat_eq_iff)
  then have "\<forall>c. block_is_free c s \<longrightarrow> 65536 + unat b \<noteq> 65536 + unat c" using b by (metis data_block_def)
  then show "slot_ok (DISKMAP + b * BLKSIZE + of_nat k) s"
    unfolding slot_ok_def bitmap_addr_def u pg in_block_def using b bn(2) al by (simp add: data_block_def)
qed

lemma slot_cases:
  assumes ok: "file_ok f s" and n: "n < 1034" "n < 10 \<or> f_indirect f s \<noteq> 0"
  shows "slot_ok (slot f n s) s"
    and "unat (slot f n s) = (if n < 10 then unat f + 136 + 4 * n
           else 4096 * (65536 + unat (f_indirect f s)) + 4 * (n - 10))"
    and "n < 10 \<Longrightarrow> unat (slot f n s) div 4096 = unat f div 4096"
    and "\<not> n < 10 \<Longrightarrow> in_block (f_indirect f s) (slot f n s)"
proof -
  note D = file_okD [OF ok]
  have d: "slot f n s = f + of_nat (136 + 4 * n)" if "n < 10" using that by (simp add: slot_def f_direct_def algebra_simps)
  have i: "slot f n s = DISKMAP + f_indirect f s * BLKSIZE + of_nat (4 * (n - 10))" if "\<not> n < 10"
    using that by (simp add: slot_def)
  have di: "data_block s (f_indirect f s)" if "\<not> n < 10" using D(3) n(2) that by blast
  have k: "4 * (n - 10) < 4096" "4 * (n - 10) mod 4 = 0" using n(1) by auto
  have kd: "136 + 4 * n < 256" "(136 + 4 * n) mod 4 = 0" if "n < 10" using that by presburger+
  note I = data_block_slot_ok [OF D(1) di k]
  show "slot_ok (slot f n s) s"
    using d i I(2) field_slot_ok [OF D(2) kd] by (cases "n < 10") auto
  show u: "unat (slot f n s) = (if n < 10 then unat f + 136 + 4 * n
           else 4096 * (65536 + unat (f_indirect f s)) + 4 * (n - 10))"
    using d i I(1) field_unat [OF D(2) kd(1)] by (cases "n < 10") auto
  show "unat (slot f n s) div 4096 = unat f div 4096" if "n < 10"
    using u that field_page [OF D(2) kd(1)] by (simp add: add.assoc)
  show "in_block (f_indirect f s) (slot f n s)" if "\<not> n < 10" using i I(3) that by simp
qed

section \<open>A block for a slot\<close>

lemma block_byte:
  assumes "fs_ok s" and "b < s_nblocks s" and "k < 4096"
  shows "in_block b (DISKMAP + b * BLKSIZE + of_nat k)"
    and "unat (DISKMAP + b * BLKSIZE + of_nat k) = 4096 * (65536 + unat b) + k"
proof -
  have "unat b < 786432" using fs_okD(4) [OF assms(1)] assms(2) by (simp add: word_less_nat_alt)
  then show u: "unat (DISKMAP + b * BLKSIZE + of_nat k) = 4096 * (65536 + unat b) + k"
    using block_addr [OF assms(1,2)] assms(3) by (subst unat_word_ariths) (simp add: unat_of_nat)
  show "in_block b (DISKMAP + b * BLKSIZE + of_nat k)" using assms(3) by (simp add: in_block_def u)
qed

lemma page_cong:
  assumes "unat x div 4096 = unat y div 4096"
  shows "bitmap_addr s x = bitmap_addr s y" and "in_block b x = in_block b y"
  using assms by (simp_all add: bitmap_addr_def in_block_def)

lemma in_block_inj: "in_block b x \<Longrightarrow> in_block c x \<Longrightarrow> b = c"
  by (simp add: in_block_def word_unat_eq_iff)

lemma placedD:
  assumes "placed p b s t"
  shows "fs_ok t" "super t = super s" "bitmap t = bitmap s" "s_nblocks t = s_nblocks s" "bitmap_blocks t = bitmap_blocks s"
    "block_is_free c t \<longleftrightarrow> c \<noteq> b \<and> block_is_free c s" "get32 (fmem t) p = b" "in_block b x \<Longrightarrow> fmem t x = 0"
    "\<not> bitmap_addr s x \<Longrightarrow> \<not> in_block b x \<Longrightarrow> unat x div 4 \<noteq> unat p div 4 \<Longrightarrow> fmem t x = fmem s x"
  using assms by (simp_all add: placed_def bitmap_blocks_def)

lemma placed_get32:
  assumes P: "placed p b s t" and b: "block_is_free b s" and a: "slot_ok a s" "unat a div 4 \<noteq> unat p div 4"
  shows "get32 (fmem t) a = get32 (fmem s) a"
proof (rule get32_same)
  show "unat a mod 4 = 0" using a(1) by (simp add: slot_ok_def)
  fix x :: u32 assume x: "unat x div 4 = unat a div 4"
  note C = page_cong [OF same_word_page [OF x]]
  show "fmem t x = fmem s x"
    by (rule placedD(9) [OF P]) (use a b x in \<open>simp_all add: C slot_ok_def\<close>)
qed

lemma get32_zero: "(\<And>i. i < 4 \<Longrightarrow> m (a + of_nat i) = 0) \<Longrightarrow> get32 m a = 0"
  using get32_cong [of m a "\<lambda>_. 0"] by (simp add: get32_def)

lemma placed_zero:
  assumes P: "placed p b s t" and a: "unat a mod 4 = 0" "in_block b a"
  shows "get32 (fmem t) a = 0"
proof (rule get32_zero, rule placedD(8) [OF P])
  fix i :: nat assume i: "i < 4"
  have "unat (a + of_nat i) div 4 = unat a div 4" using unat_plus_small [OF a(1) i] mult4(1) [OF a(1) i] by simp
  then show "in_block b (a + of_nat i)" using same_word_block a(2) by blast
qed

lemma placed_data:
  assumes ok: "fs_ok s" and P: "placed p b s t" and b: "block_is_free b s"
  shows "data_block t c \<longleftrightarrow> data_block s c \<or> c = b"
  using free_not_reserved [OF ok b] b placedD(6) [OF P, of c] unfolding data_block_def placedD(4,5) [OF P]
  by (auto simp: block_is_free_def)

lemma placed_place:
  assumes "placed p b s t" and "file_place f s"
  shows "file_place f t"
  using assms placedD(5,6) [OF assms(1)] by (simp add: file_place_def bitmap_addr_def)

lemma indirect_alloc:
  assumes ok: "file_ok f s" and z: "f_indirect f s = 0" and P: "placed (f + 176) b s t" and b: "block_is_free b s"
  shows "f_indirect f t = b" and "f_size f t = f_size f s" and "n < 1034 \<Longrightarrow> fblk f n t = fblk f n s" and "file_ok f t"
proof -
  note D = file_okD [OF ok] and Q = placedD [OF P] and PD = placed_data [OF file_okD(1) [OF ok] P b]
  have F: "slot_ok (f + of_nat k) s" "unat (f + of_nat k) = unat f + k" if "k < 256" "k mod 4 = 0" for k
    using field_slot_ok [OF D(2) that] field_unat [OF D(2) that(1)] by auto
  have al: "unat f mod 4 = 0" using D(2) by (simp add: file_place_def)
  then obtain g where g: "unat f = 4 * g" by auto
  show ib: "f_indirect f t = b" using Q(7) by (simp add: f_indirect_def)
  show "f_size f t = f_size f s"
    unfolding f_size_def by (rule placed_get32 [OF P b]) (use F [of 128] F [of 176] g in simp_all)
  have db: "data_block t b" using PD by blast
  show fb: "fblk f n t = fblk f n s" if n: "n < 1034" for n
  proof (cases "n < 10")
    case True
    have "get32 (fmem t) (slot f n s) = get32 (fmem s) (slot f n s)"
      using slot_cases(1,2) [OF ok n] True F [of 176] g by (intro placed_get32 [OF P b]) simp_all
    moreover have "slot f n t = slot f n s" using True by (simp add: slot_def)
    ultimately show ?thesis using True by (simp add: fblk_def)
  next
    case False
    have k: "4 * (n - 10) < 4096" "4 * (n - 10) mod 4 = 0" using n by auto
    have "slot f n t = DISKMAP + b * BLKSIZE + of_nat (4 * (n - 10))" using False ib by (simp add: slot_def)
    then have "get32 (fmem t) (slot f n t) = 0"
      using data_block_slot_ok [OF Q(1) db k] by (intro placed_zero [OF P]) (simp_all add: slot_ok_def)
    then show ?thesis using False z by (simp add: fblk_def)
  qed
  have "\<not> in_block b f" using D(2) b by (simp add: file_place_def)
  moreover have "fblk f n s \<noteq> b" if "n < 1034" for n using D(4) [OF that] b db by (metis data_block_def PD first_blocks D(1) unat_0)
  ultimately show "file_ok f t"
    unfolding file_ok_def ib using D(4,5) Q(1) placed_place [OF P D(2)] db PD by (auto simp: fb)
qed

lemma slot_distinct:
  assumes ok: "file_ok f s" and n: "n < 1034" "n < 10 \<or> f_indirect f s \<noteq> 0"
    and m: "m < 1034" "m < 10 \<or> f_indirect f s \<noteq> 0" "m \<noteq> n"
  shows "unat (slot f m s) div 4 \<noteq> unat (slot f n s) div 4"
proof
  assume e: "unat (slot f m s) div 4 = unat (slot f n s) div 4"
  note D = file_okD [OF ok] and N = slot_cases [OF ok n] and M = slot_cases [OF ok m(1,2)]
  have ni: "\<not> in_block (f_indirect f s) f" if "f_indirect f s \<noteq> 0" using D(3) that by blast
  have pg: "unat (slot f m s) div 4096 = unat (slot f n s) div 4096" using same_word_page [OF e] .
  have "unat (slot f m s) mod 4 = 0" "unat (slot f n s) mod 4 = 0" using M(1) N(1) by (simp_all add: slot_ok_def)
  then have eq: "unat (slot f m s) = unat (slot f n s)" using e by (metis div_mult_mod_eq)
  show False
  proof (cases "m < 10 \<longleftrightarrow> n < 10")
    case True
    then show ?thesis using eq M(2) N(2) m(3) by (auto split: if_splits)
  next
    case False
    then show ?thesis using ni M(3,4) N(3,4) pg n(2) m(2) by (auto simp: in_block_def)
  qed
qed

lemma slot_not_field:
  assumes ok: "file_ok f s" and n: "n < 1034" "n < 10 \<or> f_indirect f s \<noteq> 0" and k: "k = 128 \<or> k = 132 \<or> k = 176"
  shows "unat (f + of_nat k) div 4 \<noteq> unat (slot f n s) div 4"
proof
  assume e: "unat (f + of_nat k) div 4 = unat (slot f n s) div 4"
  note D = file_okD [OF ok] and N = slot_cases [OF ok n]
  have k': "k < 256" "k mod 4 = 0" using k by auto
  note u = field_unat [OF D(2) k'(1)] and pg = same_word_page [OF e]
  show False
  proof (cases "n < 10")
    case True
    obtain g where "unat f = 4 * g" using D(2) by (auto simp: file_place_def)
    then show ?thesis using e u N(2) True k by auto
  next
    case False
    have "unat (f + of_nat k) div 4096 = unat f div 4096" using field_page [OF D(2) k'(1)] u by simp
    then show ?thesis using pg False N(4) D(3) n(2) by (auto simp: in_block_def)
  qed
qed

lemma slot_alloc:
  assumes ok: "file_ok f s" and n: "n < 1034" "n < 10 \<or> f_indirect f s \<noteq> 0" and z: "fblk f n s = 0"
    and P: "placed (slot f n s) b s t" and b: "block_is_free b s"
  shows "f_indirect f t = f_indirect f s" and "f_size f t = f_size f s"
    and "m < 1034 \<Longrightarrow> fblk f m t = (if m = n then b else fblk f m s)" and "file_ok f t"
proof -
  note D = file_okD [OF ok] and Q = placedD [OF P] and PD = placed_data [OF file_okD(1) [OF ok] P b]
  have F: "get32 (fmem t) (f + of_nat k) = get32 (fmem s) (f + of_nat k)" if "k = 128 \<or> k = 132 \<or> k = 176" for k
    using slot_not_field [OF ok n that] field_slot_ok [OF D(2), of k] that by (intro placed_get32 [OF P b]) auto
  show ib: "f_indirect f t = f_indirect f s" using F [of 176] by (simp add: f_indirect_def)
  show "f_size f t = f_size f s" using F [of 128] by (simp add: f_size_def)
  show fb: "fblk f m t = (if m = n then b else fblk f m s)" if m: "m < 1034" for m
  proof (cases "m < 10 \<or> f_indirect f s \<noteq> 0")
    case True
    have "get32 (fmem t) (slot f m s) = (if m = n then b else get32 (fmem s) (slot f m s))"
      using Q(7) placed_get32 [OF P b slot_cases(1) [OF ok m True]] slot_distinct [OF ok n m True] by auto
    then show ?thesis using True ib by (auto simp: fblk_def slot_def)
  next
    case False
    then show ?thesis using n(2) ib by (auto simp: fblk_def)
  qed
  have nb: "\<not> in_block b f" using D(2) b by (simp add: file_place_def)
  have b0: "b \<noteq> 0" using first_blocks [OF D(1) b] by auto
  have new: "fblk f m s \<noteq> b" if "m < 1034" for m
    using D(4) [OF that] b b0 by (metis data_block_def)
  have ni: "f_indirect f s \<noteq> b" using D(3) b b0 by (metis data_block_def)
  show "file_ok f t"
    unfolding file_ok_def ib
    using D(3,4,5) Q(1) placed_place [OF P D(2)] PD new ni nb b0 by (auto simp: fb; metis new)
qed

text \<open>The contents do not change: a new block is zeros, as the hole was.\<close>

lemma placed_fbyte:
  assumes ok: "file_ok f s" and ok': "file_ok f t" and P: "placed p b s t" and b: "block_is_free b s" and q: "q div 4096 < 1034"
    and fb: "fblk f (q div 4096) t = fblk f (q div 4096) s \<or> fblk f (q div 4096) s = 0 \<and> fblk f (q div 4096) t = b"
    and np: "fblk f (q div 4096) s \<noteq> 0 \<Longrightarrow> \<not> in_block (fblk f (q div 4096) s) p"
  shows "fbyte f q t = fbyte f q s"
proof (cases "fblk f (q div 4096) s = 0")
  case True
  let ?a = "DISKMAP + b * BLKSIZE + of_nat (q mod 4096)"
  have "fmem t ?a = 0" if "fblk f (q div 4096) t = b" "b \<noteq> 0"
  proof (rule placedD(8) [OF P])
    have "b < s_nblocks t" using file_okD(4) [OF ok' q] that by (simp add: data_block_def)
    then show "in_block b ?a" using block_byte(1) [OF file_okD(1) [OF ok']] by simp
  qed
  then show ?thesis using True fb by (auto simp: fbyte_def Let_def)
next
  case False
  let ?c = "fblk f (q div 4096) s"
  let ?a = "DISKMAP + ?c * BLKSIZE + of_nat (q mod 4096)"
  have c: "data_block s ?c" using file_okD(4) [OF ok q False] by blast
  then have ib: "in_block ?c ?a" using block_byte(1) [OF file_okD(1) [OF ok]] by (simp add: data_block_def)
  have "fmem t ?a = fmem s ?a"
  proof (rule placedD(9) [OF P])
    show "\<not> bitmap_addr s ?a" using ib c by (simp add: in_block_def bitmap_addr_def data_block_def)
    show "\<not> in_block b ?a" using in_block_inj [OF ib] c b by (auto simp: data_block_def)
    show "unat ?a div 4 \<noteq> unat p div 4" using ib np [OF False] same_word_block by blast
  qed
  then show ?thesis using False fb by (simp add: fbyte_def Let_def)
qed

section \<open>Steps that keep to a file\<close>

text \<open>The bytes an operation on \<open>f\<close> may change: the bitmap, free blocks and what the file has.\<close>

definition own :: "u32 \<Rightarrow> fs \<Rightarrow> u32 \<Rightarrow> bool" where
  "own f s x \<longleftrightarrow> unat f + 128 \<le> unat x \<and> unat x < unat f + 180 \<or>
     (\<exists>b. in_block b x \<and> b \<noteq> 0 \<and> (b = f_indirect f s \<or> (\<exists>n < 1034. b = fblk f n s)))"

definition touched :: "u32 \<Rightarrow> fs \<Rightarrow> u32 \<Rightarrow> bool" where
  "touched f s x \<longleftrightarrow> bitmap_addr s x \<or> (\<exists>c. block_is_free c s \<and> in_block c x) \<or> own f s x"

definition file_step :: "u32 \<Rightarrow> fs \<Rightarrow> fs \<Rightarrow> bool" where
  "file_step f s t \<longleftrightarrow> file_ok f t \<and> s_nblocks t = s_nblocks s \<and> (\<forall>c. block_is_free c t \<longrightarrow> block_is_free c s) \<and>
     (\<forall>x. touched f t x \<longrightarrow> touched f s x) \<and> (\<forall>x. \<not> touched f s x \<longrightarrow> fmem t x = fmem s x)"

definition file_keeps :: "u32 \<Rightarrow> fs \<Rightarrow> fs \<Rightarrow> bool" where
  "file_keeps f s t \<longleftrightarrow> file_step f s t \<and> f_size f t = f_size f s \<and>
     (\<forall>q. q div 4096 < 1034 \<longrightarrow> fbyte f q t = fbyte f q s)"

lemma file_step_refl: "file_ok f s \<Longrightarrow> file_step f s s"
  by (simp add: file_step_def)

lemma file_step_trans: "file_step f s t \<Longrightarrow> file_step f t u \<Longrightarrow> file_step f s u"
  unfolding file_step_def by metis

lemma file_keeps_refl: "file_ok f s \<Longrightarrow> file_keeps f s s"
  by (simp add: file_keeps_def file_step_refl)

lemma file_keeps_trans: "file_keeps f s t \<Longrightarrow> file_keeps f t u \<Longrightarrow> file_keeps f s u"
  unfolding file_keeps_def using file_step_trans by auto

lemma placed_step:
  assumes ok: "file_ok f s" and ok': "file_ok f t" and P: "placed p b s t" and b: "block_is_free b s"
    and p: "\<And>x. unat x div 4 = unat p div 4 \<Longrightarrow> own f s x"
    and i: "f_indirect f t = f_indirect f s \<or> f_indirect f t = b"
    and fb: "\<And>n. n < 1034 \<Longrightarrow> fblk f n t = fblk f n s \<or> fblk f n t = b"
  shows "file_step f s t"
proof -
  note Q = placedD [OF P]
  have bm: "bitmap_addr t x = bitmap_addr s x" for x using Q(5) by (simp add: bitmap_addr_def)
  have "own f s x \<or> in_block b x" if "own f t x" for x
    using that i fb unfolding own_def by metis
  then have "touched f s x" if "touched f t x" for x
    using that b Q(6) unfolding touched_def bm by metis
  moreover have "fmem t x = fmem s x" if "\<not> touched f s x" for x
    using that b p by (intro Q(9)) (auto simp: touched_def)
  ultimately show ?thesis using ok' Q(4,6) by (simp add: file_step_def)
qed

lemma div4_bounds: "n div 4 = k \<Longrightarrow> 4 * k \<le> n \<and> n < 4 * k + (4 :: nat)"
  by presburger

lemma own_field:
  assumes "file_place f s" "128 \<le> k" "k < 180" "k mod 4 = 0" "unat x div 4 = unat (f + of_nat k) div 4"
  shows "own f s' x"
proof -
  have u: "unat (f + of_nat k) = unat f + k" using field_unat [OF assms(1)] assms(3) by simp
  obtain g where "unat f = 4 * g" using assms(1) by (auto simp: file_place_def)
  moreover obtain j where "k = 4 * j" using assms(4) by auto
  ultimately have "unat x div 4 = g + j" using assms(5) u by simp
  then have "4 * (g + j) \<le> unat x \<and> unat x < 4 * (g + j) + 4" by (rule div4_bounds)
  then show ?thesis using \<open>unat f = 4 * g\<close> \<open>k = 4 * j\<close> assms(2,3) by (auto simp: own_def)
qed

lemma indirect_keeps:
  assumes ok: "file_ok f s" and z: "f_indirect f s = 0" and P: "placed (f + 176) b s t" and b: "block_is_free b s"
  shows "file_keeps f s t"
proof -
  note I = indirect_alloc [OF ok z P b] and D = file_okD [OF ok]
  have "own f s x" if "unat x div 4 = unat (f + 176) div 4" for x
    using own_field [OF D(2), of 176 x] that by simp
  then have st: "file_step f s t" using I(1,3) by (intro placed_step [OF ok I(4) P b]) auto
  have u: "unat (f + 176) div 4096 = unat f div 4096" using field_unat [OF D(2), of 176] field_page [OF D(2), of 176] by simp
  have "fbyte f q t = fbyte f q s" if "q div 4096 < 1034" for q
  proof (rule placed_fbyte [OF ok I(4) P b that])
    show "\<not> in_block (fblk f (q div 4096) s) (f + 176)" if "fblk f (q div 4096) s \<noteq> 0"
      using D(4) [OF \<open>q div 4096 < 1034\<close> that] page_cong(2) [OF u] by simp
  qed (use I(3) [OF that] in simp)
  then show ?thesis using st I(2) by (simp add: file_keeps_def)
qed

lemma slot_own:
  assumes ok: "file_ok f s" and n: "n < 1034" "n < 10 \<or> f_indirect f s \<noteq> 0"
  shows "unat x div 4 = unat (slot f n s) div 4 \<Longrightarrow> own f s x"
    and "m < 1034 \<Longrightarrow> fblk f m s \<noteq> 0 \<Longrightarrow> \<not> in_block (fblk f m s) (slot f n s)"
proof -
  note D = file_okD [OF ok] and N = slot_cases [OF ok n]
  show "own f s x" if x: "unat x div 4 = unat (slot f n s) div 4"
  proof (cases "n < 10")
    case True
    then have "slot f n s = f + of_nat (136 + 4 * n)" by (simp add: slot_def f_direct_def algebra_simps)
    then show ?thesis using own_field [OF D(2), of "136 + 4 * n" x] x True by (simp add: mod_add_eq [symmetric])
  next
    case False
    then have "in_block (f_indirect f s) x" using N(4) same_word_block [OF x] by blast
    then show ?thesis using n(2) False by (auto simp: own_def)
  qed
  show "\<not> in_block (fblk f m s) (slot f n s)" if m: "m < 1034" "fblk f m s \<noteq> 0"
  proof (cases "n < 10")
    case True
    then show ?thesis using D(4) [OF m] page_cong(2) [OF N(3)] by simp
  next
    case False
    then show ?thesis using D(4) [OF m] N(4) in_block_inj by blast
  qed
qed

lemma slot_keeps:
  assumes ok: "file_ok f s" and n: "n < 1034" "n < 10 \<or> f_indirect f s \<noteq> 0" and z: "fblk f n s = 0"
    and P: "placed (slot f n s) b s t" and b: "block_is_free b s"
  shows "file_keeps f s t"
proof -
  note I = slot_alloc [OF ok n z P b] and O = slot_own [OF ok n]
  have st: "file_step f s t" using I(1,3) O(1) by (intro placed_step [OF ok I(4) P b]) auto
  have "fbyte f q t = fbyte f q s" if q: "q div 4096 < 1034" for q
    by (rule placed_fbyte [OF ok I(4) P b q]) (use I(3) [OF q] z O(2) [OF q] in auto)
  then show ?thesis using st I(2) by (simp add: file_keeps_def)
qed

section \<open>Finding a block\<close>

lemma unat_small_of_nat: "n < 1034 \<Longrightarrow> unat (of_nat n :: u32) = n"
  by (simp add: unat_of_nat)

lemma file_block_walk_ok:
  assumes ok: "file_ok f s" and n: "n < 1034"
  shows "\<exists>r sl t. file_block_walk f (of_nat n) True s = Inr (r, sl, t) \<and> file_keeps f s t \<and>
    (r = - E_NO_DISK \<and> sl = None \<and> (\<forall>b. \<not> block_is_free b t) \<or>
     r = 0 \<and> sl = Some (slot f n t) \<and> (n < 10 \<or> f_indirect f t \<noteq> 0))"
proof -
  note D = file_okD [OF ok]
  have lim: "\<not> NDIRECT + NINDIRECT \<le> of_nat n" "of_nat n < NDIRECT \<longleftrightarrow> n < 10"
    using n by (simp_all add: jos_const word_le_nat_alt word_less_nat_alt unat_small_of_nat)
  have sub: "(of_nat n - NDIRECT :: u32) = of_nat (n - 10)" if "\<not> n < 10" using that by (simp add: jos_const)
  have da: "diskaddr (f_indirect f t) t = Inr (DISKMAP + f_indirect f t * BLKSIZE)" if "file_ok f t" "f_indirect f t \<noteq> 0" for t
    using file_okD(3) [OF that] that(2) by (simp add: diskaddr_def data_block_def not_le)
  consider "n < 10" | "\<not> n < 10" "f_indirect f s \<noteq> 0" | "\<not> n < 10" "f_indirect f s = 0" by blast
  then show ?thesis
  proof cases
    case 1
    then show ?thesis using lim file_keeps_refl [OF ok] by (simp add: file_block_walk_def slot_def)
  next
    case 2
    then show ?thesis using lim sub da [OF ok] file_keeps_refl [OF ok] by (simp add: file_block_walk_def slot_def)
  next
    case 3
    have so: "slot_ok (f + 176) s" using field_slot_ok [OF D(2), of 176] by simp
    from alloc_into_ok [OF D(1) so] show ?thesis
    proof (elim disjE exE conjE)
      assume "alloc_into (f + 176) s = Inr (- E_NO_DISK, s)" "\<forall>b. \<not> block_is_free b s"
      then show ?thesis using 3 lim file_keeps_refl [OF ok] by (simp add: file_block_walk_def E_NO_DISK_def)
    next
      fix b t
      assume a: "block_is_free b s" "alloc_into (f + 176) s = Inr (0, t)" "placed (f + 176) b s t"
      note I = indirect_alloc [OF ok 3(2) a(3,1)] and K = indirect_keeps [OF ok 3(2) a(3,1)]
      have b0: "f_indirect f t \<noteq> 0" using first_blocks [OF D(1) a(1)] I(1) by auto
      show ?thesis using 3 lim sub da [OF I(4) b0] b0 a(2) K by (simp add: file_block_walk_def slot_def)
    qed
  qed
qed

lemma file_keepsD:
  assumes "file_keeps f s t"
  shows "file_step f s t" "file_ok f t" "f_size f t = f_size f s" "q div 4096 < 1034 \<Longrightarrow> fbyte f q t = fbyte f q s"
  using assms by (auto simp: file_keeps_def file_step_def)

lemma slot_get_block:
  assumes n: "n < 1034" and k: "file_keeps f s t" and w: "n < 10 \<or> f_indirect f t \<noteq> 0"
    and fw: "file_block_walk f (of_nat n) True s = Inr (0, Some (slot f n t), t)"
  shows "\<exists>r blk t. file_get_block f (of_nat n) s = Inr (r, blk, t) \<and> file_keeps f s t \<and>
    (r = - E_NO_DISK \<and> blk = None \<and> (\<forall>b. \<not> block_is_free b t) \<or>
     r = 0 \<and> fblk f n t \<noteq> 0 \<and> blk = Some (DISKMAP + fblk f n t * BLKSIZE))"
proof -
  note okt = file_keepsD(2) [OF k]
  have fb: "get32 (fmem u) (slot f n u) = fblk f n u" if "n < 10 \<or> f_indirect f u \<noteq> 0" for u
    using that by (auto simp: fblk_def)
  have da: "diskaddr (fblk f n u) u = Inr (DISKMAP + fblk f n u * BLKSIZE)" if "file_ok f u" "fblk f n u \<noteq> 0" for u
    using file_okD(4) [OF that(1) n that(2)] that(2) by (simp add: diskaddr_def data_block_def not_le)
  show ?thesis
  proof (cases "fblk f n t = 0")
    case False
    then show ?thesis using fw k fb [OF w] da [OF okt] by (simp add: file_get_block_def)
  next
    case True
    from alloc_into_ok [OF file_okD(1) [OF okt] slot_cases(1) [OF okt n w]] show ?thesis
    proof (elim disjE exE conjE)
      assume "alloc_into (slot f n t) t = Inr (- E_NO_DISK, t)" "\<forall>b. \<not> block_is_free b t"
      then show ?thesis using fw k True fb [OF w] by (simp add: file_get_block_def E_NO_DISK_def)
    next
      fix b u
      assume a: "block_is_free b t" "alloc_into (slot f n t) t = Inr (0, u)" "placed (slot f n t) b t u"
      note I = slot_alloc [OF okt n w True a(3,1)]
        and K = file_keeps_trans [OF k slot_keeps [OF okt n w True a(3,1)]]
      have b: "fblk f n u = b" "b \<noteq> 0" using I(3) [OF n] first_blocks [OF file_okD(1) [OF okt] a(1)] by auto
      have "slot f n u = slot f n t" using I(1) by (simp add: slot_def)
      then have "get32 (fmem u) (slot f n t) = b" using fb [of u] w I(1) b(1) by simp
      then show ?thesis using fw True fb [OF w] a(2) K b da [OF I(4)] by (simp add: file_get_block_def)
    qed
  qed
qed

lemma file_get_block_ok:
  assumes ok: "file_ok f s" and n: "n < 1034"
  shows "\<exists>r blk t. file_get_block f (of_nat n) s = Inr (r, blk, t) \<and> file_keeps f s t \<and>
    (r = - E_NO_DISK \<and> blk = None \<and> (\<forall>b. \<not> block_is_free b t) \<or>
     r = 0 \<and> fblk f n t \<noteq> 0 \<and> blk = Some (DISKMAP + fblk f n t * BLKSIZE))"
proof -
  obtain r sl t where w: "file_block_walk f (of_nat n) True s = Inr (r, sl, t)" "file_keeps f s t"
      and c: "r = - E_NO_DISK \<and> sl = None \<and> (\<forall>b. \<not> block_is_free b t) \<or>
        r = 0 \<and> sl = Some (slot f n t) \<and> (n < 10 \<or> f_indirect f t \<noteq> 0)"
    using file_block_walk_ok [OF ok n] by blast
  show ?thesis
  proof (cases "sl = None")
    case True
    then show ?thesis using c w by (auto simp: file_get_block_def)
  next
    case False
    then have "r = 0" "sl = Some (slot f n t)" "n < 10 \<or> f_indirect f t \<noteq> 0" using c by auto
    then show ?thesis using slot_get_block [OF n w(2)] w(1) by simp
  qed
qed

section \<open>Stores to the data of a file and to buffers\<close>

lemma meta_same:
  assumes ok: "file_ok f s" and st: "super t = super s" "bitmap t = bitmap s"
    and same: "\<And>x. unat x div 4 = 67109889 \<Longrightarrow> fmem t x = fmem s x"
      "\<And>x. bitmap_addr s x \<Longrightarrow> fmem t x = fmem s x"
      "\<And>x. unat x div 4096 = unat f div 4096 \<Longrightarrow> fmem t x = fmem s x"
      "\<And>x. f_indirect f s \<noteq> 0 \<Longrightarrow> in_block (f_indirect f s) x \<Longrightarrow> fmem t x = fmem s x"
  shows "f_size f t = f_size f s" "f_indirect f t = f_indirect f s" "n < 1034 \<Longrightarrow> fblk f n t = fblk f n s"
    "block_is_free c t = block_is_free c s" "s_nblocks t = s_nblocks s" "file_ok f t" "touched f t x = touched f s x"
proof -
  note D = file_okD [OF ok]
  have V: "s_nblocks t = s_nblocks s" "\<And>c. block_is_free c t = block_is_free c s" "fs_ok t"
    using view_same [OF D(1) st] same(1,2) by blast+
  then show "block_is_free c t = block_is_free c s" "s_nblocks t = s_nblocks s" by auto
  have F: "get32 (fmem t) (f + of_nat k) = get32 (fmem s) (f + of_nat k)" if k: "k < 256" "k mod 4 = 0" for k
  proof (rule get32_same)
    show "unat (f + of_nat k) mod 4 = 0" using field_slot_ok [OF D(2) k] by (simp add: slot_ok_def)
    fix x :: u32 assume "unat x div 4 = unat (f + of_nat k) div 4"
    then have "unat x div 4096 = unat f div 4096"
      using same_word_page [of x "f + of_nat k"] field_unat [OF D(2) k(1)] field_page [OF D(2) k(1)] by simp
    then show "fmem t x = fmem s x" by (rule same(3))
  qed
  show "f_size f t = f_size f s" using F [of 128] by (simp add: f_size_def)
  show ib: "f_indirect f t = f_indirect f s" using F [of 176] by (simp add: f_indirect_def)
  show fb: "fblk f n t = fblk f n s" if n: "n < 1034" for n
  proof (cases "n < 10 \<or> f_indirect f s \<noteq> 0")
    case True
    note N = slot_cases [OF ok n True]
    have "get32 (fmem t) (slot f n s) = get32 (fmem s) (slot f n s)"
    proof (rule get32_same)
      show "unat (slot f n s) mod 4 = 0" using N(1) by (simp add: slot_ok_def)
      fix x :: u32 assume x: "unat x div 4 = unat (slot f n s) div 4"
      show "fmem t x = fmem s x"
        using N(3,4) same(3,4) [of x] same_word_page [OF x] same_word_block [OF x] True by (cases "n < 10") auto
    qed
    then show ?thesis using ib by (auto simp: fblk_def slot_def)
  qed (simp add: fblk_def ib)
  have bb: "bitmap_blocks t = bitmap_blocks s" by (simp add: bitmap_blocks_def V(1))
  have "data_block t b = data_block s b" for b by (simp add: data_block_def V bb)
  moreover have "file_place f t" using D(2) by (simp add: file_place_def bitmap_addr_def V bb)
  ultimately show "file_ok f t" using D(3,4,5) V(3) by (simp add: file_ok_def ib fb)
  have "own f t x = own f s x" unfolding own_def ib using fb by metis
  then show "touched f t x = touched f s x" by (simp add: touched_def bitmap_addr_def V bb)
qed

text \<open>A store into block \<open>n\<close> of the file.\<close>

lemma block_store:
  assumes ok: "file_ok f s" and n: "n < 1034" "fblk f n s \<noteq> 0" and st: "super t = super s" "bitmap t = bitmap s"
    and out: "\<And>x. \<not> in_block (fblk f n s) x \<Longrightarrow> fmem t x = fmem s x"
  shows "file_step f s t" "f_size f t = f_size f s" "m < 1034 \<Longrightarrow> fblk f m t = fblk f m s"
    "q div 4096 < 1034 \<Longrightarrow> fbyte f q t = (if q div 4096 = n
       then fmem t (DISKMAP + fblk f n s * BLKSIZE + of_nat (q mod 4096)) else fbyte f q s)"
proof -
  let ?b = "fblk f n s"
  note D = file_okD [OF ok]
  have b: "data_block s ?b" "\<not> in_block ?b f" "?b \<noteq> f_indirect f s" using D(4) [OF n] by auto
  have same: "fmem t x = fmem s x" if "unat x div 4 = 67109889 \<or> bitmap_addr s x \<or> unat x div 4096 = unat f div 4096 \<or>
      in_block (f_indirect f s) x" for x
  proof (rule out)
    have "unat x div 4096 = 65537" if "unat x div 4 = 67109889" using div4_page [OF that] by simp
    then have "\<not> in_block ?b x" if "unat x div 4 = 67109889 \<or> bitmap_addr s x"
      using that b(1) by (auto simp: in_block_def bitmap_addr_def data_block_def)
    then show "\<not> in_block ?b x" using that b in_block_inj [of ?b x "f_indirect f s"] page_cong(2) [of x f ?b] by blast
  qed
  note M = meta_same [OF ok st same same same same, simplified]
  then show "f_size f t = f_size f s" "m < 1034 \<Longrightarrow> fblk f m t = fblk f m s" by auto
  have "in_block ?b x \<Longrightarrow> touched f s x" for x using n by (auto simp: touched_def own_def)
  then have "\<forall>x. \<not> touched f s x \<longrightarrow> fmem t x = fmem s x" using out by blast
  then show "file_step f s t" using M by (simp add: file_step_def)
  assume q: "q div 4096 < 1034"
  show "fbyte f q t = (if q div 4096 = n
       then fmem t (DISKMAP + fblk f n s * BLKSIZE + of_nat (q mod 4096)) else fbyte f q s)"
  proof (cases "q div 4096 = n \<or> fblk f (q div 4096) s = 0")
    case True
    then show ?thesis using M(3) [OF q] n by (auto simp: fbyte_def Let_def)
  next
    case False
    let ?c = "fblk f (q div 4096) s"
    have "?c < s_nblocks s" using D(4) [OF q] False by (simp add: data_block_def)
    then have "in_block ?c (DISKMAP + ?c * BLKSIZE + of_nat (q mod 4096))" using block_byte(1) [OF D(1)] by simp
    moreover have "?c \<noteq> ?b" using D(5) [OF q n(1)] False by auto
    ultimately have "fmem t (DISKMAP + ?c * BLKSIZE + of_nat (q mod 4096)) = fmem s (DISKMAP + ?c * BLKSIZE + of_nat (q mod 4096))"
      using in_block_inj by (intro out) blast
    then show ?thesis using M(3) [OF q] False by (simp add: fbyte_def Let_def)
  qed
qed

text \<open>
  The disk map without block 0, which no operation uses; a buffer of the server that lies outside it is
  not disturbed.
\<close>

definition disk_addr :: "u32 \<Rightarrow> bool" where
  "disk_addr x \<longleftrightarrow> 65537 \<le> unat x div 4096 \<and> unat x div 4096 < 851968"

lemma touched_disk:
  assumes ok: "file_ok f s" and x: "touched f s x"
  shows "disk_addr x"
proof -
  note D = file_okD [OF ok] and nb = fs_okD(4) [OF file_okD(1) [OF ok]]
  have blk: "disk_addr x" if "in_block b x" "b < s_nblocks s" "0 < unat b" for b
    using that nb by (simp add: disk_addr_def in_block_def word_less_nat_alt)
  from x consider "bitmap_addr s x" | c where "block_is_free c s" "in_block c x"
    | "unat f + 128 \<le> unat x" "unat x < unat f + 180" | b where "in_block b x" "data_block s b"
    using D(3,4) unfolding touched_def own_def by blast
  then show ?thesis
  proof cases
    case 1
    have "bitmap_blocks s \<le> 24" using nb by (simp add: bitmap_blocks_def)
    then show ?thesis using 1 by (simp add: bitmap_addr_def disk_addr_def)
  next
    case 2
    then show ?thesis using blk first_blocks [OF D(1) 2(1)] by (simp add: block_is_free_def not_le)
  next
    case 3
    have "unat x - unat f < 256" "unat x = unat f + (unat x - unat f)" using 3 by auto
    then have "unat x div 4096 = unat f div 4096" using field_page [OF D(2)] by metis
    moreover have "65537 \<le> unat f div 4096" "unat f div 4096 < 851968" using D(2) by (auto simp: file_place_def)
    ultimately show ?thesis by (simp add: disk_addr_def)
  next
    case 4
    then show ?thesis using blk by (simp add: data_block_def)
  qed
qed

section \<open>Writing and reading\<close>

lemma sgn_div_nat:
  "sgn (int n) * (\<bar>int n\<bar> div 4096) = int (n div 4096)" "sgn (int n) * (\<bar>int n\<bar> mod 4096) = int (n mod 4096)"
  by (simp_all add: sgn_if zdiv_int zmod_int)

lemma pos_split:
  assumes "unat pos < 2147483648"
  shows "c_sdiv pos BLKSIZE = of_nat (unat pos div 4096)" "c_smod pos BLKSIZE = of_nat (unat pos mod 4096)"
proof -
  have s: "sint pos = int (unat pos)" "sint BLKSIZE = 4096" using sint_small [OF assms] by (simp_all add: BLKSIZE_def)
  show "c_sdiv pos BLKSIZE = of_nat (unat pos div 4096)" "c_smod pos BLKSIZE = of_nat (unat pos mod 4096)"
    by (simp_all only: c_sdiv_def c_smod_def s sgn_div_nat of_int_of_nat_eq)
qed

lemma chunk_unat:
  assumes "pos < lim" and "unat lim < 2147483648"
  shows "unat (chunk pos lim) = min (4096 - unat pos mod 4096) (unat lim - unat pos)"
proof -
  have p: "unat pos < unat lim" using assms(1) by (simp add: word_less_nat_alt)
  have "unat (BLKSIZE - c_smod pos BLKSIZE) = 4096 - unat pos mod 4096"
  proof -
    have "unat (of_nat (unat pos mod 4096) :: u32) = unat pos mod 4096" by (simp add: unat_of_nat)
    moreover have "unat pos mod 4096 < 4096" by simp
    ultimately show ?thesis
      using pos_split(2) [of pos] p assms(2) by (subst unat_sub) (simp_all add: BLKSIZE_def word_le_nat_alt)
  qed
  moreover have "unat (lim - pos) = unat lim - unat pos" using p by (subst unat_sub) (simp_all add: word_le_nat_alt)
  ultimately show ?thesis by (simp add: chunk_def min_def word_le_nat_alt)
qed

definition buf_ok :: "u32 \<Rightarrow> nat \<Rightarrow> bool" where
  "buf_ok buf n \<longleftrightarrow> unat buf + n < 2 ^ 32 \<and> (unat buf + n \<le> 268439552 \<or> 3489660928 \<le> unat buf)"

lemma buf_unat: "buf_ok buf n \<Longrightarrow> i < n \<Longrightarrow> unat (buf + of_nat i) = unat buf + i"
  by (simp add: buf_ok_def unat_word_ariths unat_of_nat)

lemma buf_not_disk: "buf_ok buf n \<Longrightarrow> i < n \<Longrightarrow> \<not> disk_addr (buf + of_nat i)"
  using buf_unat [of buf n i] by (auto simp: buf_ok_def disk_addr_def)

lemma chunk_block:
  assumes "p mod 4096 + bn \<le> (4096 :: nat)" and "p \<le> q" and "q < p + bn"
  shows "q div 4096 = p div 4096"
proof -
  have "p = 4096 * (p div 4096) + p mod 4096" by simp
  then have "4096 * (p div 4096) \<le> q" "q < 4096 * (p div 4096) + 4096" using assms by linarith+
  then show ?thesis by (intro div_nat_eqI) simp_all
qed

lemma same_block:
  assumes "q div 4096 = p div (4096 :: nat)"
  shows "p mod 4096 \<le> q mod 4096 \<longleftrightarrow> p \<le> q" and "q mod 4096 < p mod 4096 + bn \<longleftrightarrow> q < p + bn"
    and "p \<le> q \<Longrightarrow> q - p = q mod 4096 - p mod 4096"
proof -
  have "p = 4096 * (p div 4096) + p mod 4096" "q = 4096 * (p div 4096) + q mod 4096"
    using mult_div_mod_eq [of 4096 q] assms by simp_all
  then show "p mod 4096 \<le> q mod 4096 \<longleftrightarrow> p \<le> q" "q mod 4096 < p mod 4096 + bn \<longleftrightarrow> q < p + bn"
    "p \<le> q \<Longrightarrow> q - p = q mod 4096 - p mod 4096" by linarith+
qed

lemma write_step:
  assumes ok: "file_ok f s" and p: "unat pos div 4096 < 1034" and b: "fblk f (unat pos div 4096) s \<noteq> 0"
    and bn: "unat pos mod 4096 + bn \<le> 4096" and buf: "unat buf + bn < 2 ^ 32"
  defines "dst \<equiv> DISKMAP + fblk f (unat pos div 4096) s * BLKSIZE + of_nat (unat pos mod 4096)"
  defines "t \<equiv> touch dst bn (s\<lparr>fmem := memmove dst buf bn (fmem s)\<rparr>)"
  shows "file_step f s t" and "f_size f t = f_size f s"
    and "q div 4096 < 1034 \<Longrightarrow> fbyte f q t =
      (if unat pos \<le> q \<and> q < unat pos + bn then fmem s (buf + of_nat (q - unat pos)) else fbyte f q s)"
proof -
  let ?n = "unat pos div 4096" and ?o = "unat pos mod 4096"
  let ?b = "fblk f ?n s"
  let ?a = "DISKMAP + ?b * BLKSIZE"
  note D = file_okD [OF ok]
  have db: "?b < s_nblocks s" using D(4) [OF p b] by (simp add: data_block_def)
  then have bs: "unat ?b < 786432" using fs_okD(4) [OF D(1)] by (simp add: word_less_nat_alt)
  have at: "unat (?a + of_nat k) = 4096 * (65536 + unat ?b) + k" if "k < 4096" for k using block_byte(2) [OF D(1) db that] .
  have ud: "unat dst = 4096 * (65536 + unat ?b) + ?o" unfolding dst_def by (rule at) simp
  have mm: "fmem t = copied dst buf bn (fmem s)"
    unfolding t_def using memmove_copied [of dst bn buf] ud bs bn buf by simp
  have out: "fmem t x = fmem s x" if "\<not> in_block ?b x" for x
  proof -
    have "\<not> in_range dst bn x"
    proof
      assume "in_range dst bn x"
      then have "4096 * (65536 + unat ?b) \<le> unat x \<and> unat x < 4096 * (65536 + unat ?b) + 4096"
        using ud bn by (simp add: in_range_def)
      then show False using that by (simp add: in_block_def div_nat_eqI)
    qed
    then show ?thesis by (simp add: mm copied_def)
  qed
  have st: "super t = super s" "bitmap t = bitmap s" by (simp_all add: t_def)
  note S = block_store [OF ok p b st out, simplified]
  show "file_step f s t" "f_size f t = f_size f s" using S(1,2) by auto
  assume q: "q div 4096 < 1034"
  show "fbyte f q t = (if unat pos \<le> q \<and> q < unat pos + bn then fmem s (buf + of_nat (q - unat pos)) else fbyte f q s)"
  proof (cases "q div 4096 = ?n")
    case False
    then have "\<not> (unat pos \<le> q \<and> q < unat pos + bn)"
      using chunk_block [OF bn] by blast
    then show ?thesis using S(4) [OF q] False by auto
  next
    case True
    have u: "unat (?a + of_nat (q mod 4096)) = 4096 * (65536 + unat ?b) + q mod 4096" by (rule at) simp
    have "in_range dst bn (?a + of_nat (q mod 4096)) \<longleftrightarrow> unat pos \<le> q \<and> q < unat pos + bn"
      using same_block(1,2) [OF True] by (simp add: in_range_def u ud)
    moreover have "?a + of_nat (q mod 4096) - dst = of_nat (q - unat pos)" if "unat pos \<le> q"
    proof -
      have "q - unat pos = q mod 4096 - ?o" "?o \<le> q mod 4096" using same_block(1,3) [OF True] that by auto
      then show ?thesis by (simp add: dst_def of_nat_diff)
    qed
    ultimately show ?thesis
      using S(4) [OF q] True b by (auto simp: mm copied_def fbyte_def Let_def)
  qed
qed

lemma buf_ok_rest:
  assumes "buf_ok buf (n + k)"
  shows "buf_ok (buf + of_nat n) k" and "unat (buf + of_nat n) = unat buf + n"
proof -
  show u: "unat (buf + of_nat n) = unat buf + n" using assms by (simp add: buf_ok_def unat_word_ariths unat_of_nat)
  then show "buf_ok (buf + of_nat n) k" using assms by (auto simp: buf_ok_def)
qed

lemma file_stepD:
  assumes "file_step f s t"
  shows "file_ok f t" "\<not> touched f s x \<Longrightarrow> fmem t x = fmem s x" "touched f t x \<Longrightarrow> touched f s x"
    "block_is_free c t \<Longrightarrow> block_is_free c s" "s_nblocks t = s_nblocks s"
  using assms by (auto simp: file_step_def)

lemma step_buffer:
  assumes "file_ok f s" "file_step f s t" "buf_ok buf n" "i < n"
  shows "fmem t (buf + of_nat i) = fmem s (buf + of_nat i)"
  using file_stepD(2) [OF assms(2)] touched_disk [OF assms(1)] buf_not_disk [OF assms(3,4)] by blast

text \<open>
  The loop of \<^verbatim>\<open>file_write\<close> stores the bytes up to some position \<open>k\<close>: the end of the request, unless the
  disk fills up on the way.
\<close>

definition wrote :: "u32 \<Rightarrow> u32 \<Rightarrow> nat \<Rightarrow> nat \<Rightarrow> fs \<Rightarrow> fs \<Rightarrow> bool" where
  "wrote f buf pos k s t \<longleftrightarrow> file_step f s t \<and> f_size f t = f_size f s \<and>
     (\<forall>q. q div 4096 < 1034 \<longrightarrow>
        fbyte f q t = (if pos \<le> q \<and> q < k then fmem s (buf + of_nat (q - pos)) else fbyte f q s))"

lemma wrote_trans:
  assumes ok: "file_ok f s" and b: "buf_ok buf n" and w: "wrote f buf pos (pos + i) s t"
    and v: "wrote f (buf + of_nat i) (pos + i) k t u" and k: "pos + i \<le> k" "k \<le> pos + n"
  shows "wrote f buf pos k s u"
proof -
  have st: "file_step f s t" "file_step f t u" using w v by (simp_all add: wrote_def)
  have "fbyte f q u = (if pos \<le> q \<and> q < k then fmem s (buf + of_nat (q - pos)) else fbyte f q s)"
    if q: "q div 4096 < 1034" for q
  proof (cases "pos + i \<le> q \<and> q < k")
    case True
    have "buf + of_nat i + of_nat (q - (pos + i)) = buf + of_nat (q - pos)"
      using True by (simp add: of_nat_diff)
    moreover have "fmem t (buf + of_nat (q - pos)) = fmem s (buf + of_nat (q - pos))"
      by (rule step_buffer [OF ok st(1) b]) (use True k(2) in auto)
    ultimately show ?thesis using v q True by (simp add: wrote_def)
  next
    case False
    then have "fbyte f q u = fbyte f q t" using v q by (auto simp: wrote_def)
    moreover have "fbyte f q t = (if pos \<le> q \<and> q < k then fmem s (buf + of_nat (q - pos)) else fbyte f q s)"
    proof -
      have "fbyte f q t = (if pos \<le> q \<and> q < pos + i then fmem s (buf + of_nat (q - pos)) else fbyte f q s)"
        using w q unfolding wrote_def by blast
      moreover have "pos \<le> q \<and> q < k \<longleftrightarrow> pos \<le> q \<and> q < pos + i" using False k(1) by auto
      ultimately show ?thesis by simp
    qed
    ultimately show ?thesis by simp
  qed
  then show ?thesis using file_step_trans [OF st] w v by (simp add: wrote_def)
qed

lemma wrote_keeps:
  assumes ok: "file_ok f s" and b: "buf_ok buf n" and K: "file_keeps f s t" and w: "wrote f buf pos k t u"
    and k: "pos \<le> k" "k \<le> pos + n"
  shows "wrote f buf pos k s u"
proof (rule wrote_trans [OF ok b])
  show "wrote f buf pos (pos + 0) s t" using K by (auto simp: wrote_def file_keeps_def)
  show "wrote f (buf + of_nat 0) (pos + 0) k t u" using w by simp
qed (use k in simp_all)

text \<open>One round of either loop.\<close>

lemma loop_round:
  fixes bn :: nat
  assumes lt: "pos < lim" and le: "unat lim \<le> 1034 * 4096" and bk: "buf_ok buf (unat lim - unat pos)"
  defines "bn \<equiv> unat (chunk pos lim)"
  shows "unat pos div 4096 < 1034" "c_sdiv pos BLKSIZE = of_nat (unat pos div 4096)" "c_smod pos BLKSIZE = of_nat (unat pos mod 4096)"
    "unat pos mod 4096 + bn \<le> 4096" "unat pos + bn \<le> unat lim" "unat buf + bn < 2 ^ 32"
    "unat (pos + chunk pos lim) = unat pos + bn" "buf + chunk pos lim = buf + of_nat bn"
    "buf_ok (buf + chunk pos lim) (unat lim - unat (pos + chunk pos lim))"
    "unat lim - unat (pos + chunk pos lim) < unat lim - unat pos" "pos + chunk pos lim \<le> lim"
    "buf_ok buf (bn + (unat lim - unat (pos + chunk pos lim)))"
proof -
  have p: "unat pos < unat lim" "unat lim < 2147483648" using lt le by (simp_all add: word_less_nat_alt)
  then show "unat pos div 4096 < 1034" using le by (simp add: div_less_iff_less_mult)
  show "c_sdiv pos BLKSIZE = of_nat (unat pos div 4096)" "c_smod pos BLKSIZE = of_nat (unat pos mod 4096)"
    using pos_split [of pos] p by simp_all
  show b1: "unat pos mod 4096 + bn \<le> 4096" "unat pos + bn \<le> unat lim" using chunk_unat [OF lt p(2)] p by (auto simp: bn_def)
  have b0: "0 < bn" using chunk_unat [OF lt p(2)] p by (auto simp: bn_def)
  show b2: "unat buf + bn < 2 ^ 32" using bk b1 p by (auto simp: buf_ok_def)
  show pos': "unat (pos + chunk pos lim) = unat pos + bn" using b1 p by (simp add: unat_word_ariths bn_def)
  show buf': "buf + chunk pos lim = buf + of_nat bn" by (simp add: bn_def)
  show bk': "buf_ok buf (bn + (unat lim - unat (pos + chunk pos lim)))" unfolding pos' using bk b1 p by (auto simp: buf_ok_def)
  show "buf_ok (buf + chunk pos lim) (unat lim - unat (pos + chunk pos lim))"
    unfolding buf' by (rule buf_ok_rest(1) [OF bk'])
  show "unat lim - unat (pos + chunk pos lim) < unat lim - unat pos" "pos + chunk pos lim \<le> lim"
    using b0 b1 p by (simp_all add: pos' word_le_nat_alt)
qed

lemma write_loop_ok:
  assumes "file_ok f s" and "pos \<le> lim" and "unat lim \<le> 1034 * 4096" and "buf_ok buf (unat lim - unat pos)"
  shows "\<exists>r t k. write_loop f buf pos lim s = Inr (r, t) \<and> wrote f buf (unat pos) k s t \<and> unat pos \<le> k \<and> k \<le> unat lim \<and>
     (r = 0 \<and> k = unat lim \<or> r = - E_NO_DISK \<and> (\<forall>b. \<not> block_is_free b t))"
  using assms
proof (induction "unat lim - unat pos" arbitrary: buf pos s rule: less_induct)
  case less
  have triv: "wrote f buf (unat pos) (unat pos) u u" if "file_ok f u" for u
    using file_step_refl [OF that] by (auto simp: wrote_def)
  show ?case
  proof (cases "pos < lim")
    case False
    then have "pos = lim" using less.prems(2) by simp
    then have "write_loop f buf pos lim s = Inr (0, s)" by (subst write_loop.simps) simp
    then show ?thesis using triv [OF less.prems(1)] \<open>pos = lim\<close> by blast
  next
    case True
    let ?n = "unat pos div 4096" and ?bn = "unat (chunk pos lim)"
    note L = loop_round [OF True less.prems(3,4)]
    have p: "unat pos < unat lim" using True by (simp add: word_less_nat_alt)
    obtain r blk s1 where g: "file_get_block f (of_nat ?n) s = Inr (r, blk, s1)" "file_keeps f s s1"
        and c: "r = - E_NO_DISK \<and> blk = None \<and> (\<forall>b. \<not> block_is_free b s1) \<or>
          r = 0 \<and> fblk f ?n s1 \<noteq> 0 \<and> blk = Some (DISKMAP + fblk f ?n s1 * BLKSIZE)"
      using file_get_block_ok [OF less.prems(1) L(1)] by blast
    note ok1 = file_keepsD(2) [OF g(2)] and K = wrote_keeps [OF less.prems(1,4) g(2)]
    show ?thesis
    proof (cases "blk = None")
      case True
      then have "write_loop f buf pos lim s = Inr (r, s1)" using g(1) \<open>pos < lim\<close> by (subst write_loop.simps) (simp add: L(2))
      then show ?thesis
        using c True K [OF triv [OF ok1]] p by (intro exI [of _ r] exI [of _ s1] exI [of _ "unat pos"]) simp
    next
      case False
      let ?dst = "DISKMAP + fblk f ?n s1 * BLKSIZE + of_nat (unat pos mod 4096)"
      let ?s2 = "touch ?dst ?bn (s1\<lparr>fmem := memmove ?dst buf ?bn (fmem s1)\<rparr>)"
      have blk: "fblk f ?n s1 \<noteq> 0" "blk = Some (DISKMAP + fblk f ?n s1 * BLKSIZE)" using c False by auto
      note W = write_step [OF ok1 L(1) blk(1) L(4,6)]
      then have w: "wrote f buf (unat pos) (unat pos + ?bn) s1 ?s2" by (simp add: wrote_def)
      obtain r t k where R: "write_loop f (buf + chunk pos lim) (pos + chunk pos lim) lim ?s2 = Inr (r, t)"
          "wrote f (buf + of_nat ?bn) (unat pos + ?bn) k ?s2 t" "unat pos + ?bn \<le> k" "k \<le> unat lim"
          "r = 0 \<and> k = unat lim \<or> r = - E_NO_DISK \<and> (\<forall>b. \<not> block_is_free b t)"
        using less.hyps [OF L(10) file_stepD(1) [OF W(1)] L(11) less.prems(3) L(9)] unfolding L(7,8) by blast
      have "wrote f buf (unat pos) k s t" using K [OF wrote_trans [OF ok1 less.prems(4) w R(2)]] R(3,4) p by simp
      moreover have "write_loop f buf pos lim s = Inr (r, t)"
        using True g(1) R(1) blk(2) by (subst write_loop.simps) (simp add: L(2,3) Let_def)
      ultimately show ?thesis using R(3-5) by (intro exI [of _ r] exI [of _ t] exI [of _ k]) simp
    qed
  qed
qed

definition file_reads :: "u32 \<Rightarrow> u32 \<Rightarrow> nat \<Rightarrow> fs \<Rightarrow> fs \<Rightarrow> bool" where
  "file_reads f buf n s t \<longleftrightarrow> file_ok f t \<and> s_nblocks t = s_nblocks s \<and> (\<forall>c. block_is_free c t \<longrightarrow> block_is_free c s) \<and>
     (\<forall>x. touched f t x \<longrightarrow> touched f s x) \<and> (\<forall>x. \<not> touched f s x \<and> \<not> in_range buf n x \<longrightarrow> fmem t x = fmem s x) \<and>
     f_size f t = f_size f s \<and> (\<forall>q. q div 4096 < 1034 \<longrightarrow> fbyte f q t = fbyte f q s)"

lemma file_readsD:
  assumes "file_reads f buf n s t"
  shows "file_ok f t" "q div 4096 < 1034 \<Longrightarrow> fbyte f q t = fbyte f q s" "f_size f t = f_size f s"
    "\<not> touched f s x \<Longrightarrow> \<not> in_range buf n x \<Longrightarrow> fmem t x = fmem s x"
  using assms by (auto simp: file_reads_def)

lemma keeps_reads: "file_keeps f s t \<Longrightarrow> file_reads f buf n s t"
  by (auto simp: file_keeps_def file_step_def file_reads_def)

lemma file_reads_trans:
  assumes a: "file_reads f buf n s t" and b: "file_reads f buf' n' t u"
    and r: "\<And>x. in_range buf n x \<or> in_range buf' n' x \<Longrightarrow> in_range buf2 n2 x"
  shows "file_reads f buf2 n2 s u"
proof -
  have "fmem u x = fmem s x" if "\<not> touched f s x" "\<not> in_range buf2 n2 x" for x
    using that a b r unfolding file_reads_def by metis
  then show ?thesis using a b by (simp add: file_reads_def)
qed

lemma disk_same:
  assumes ok: "file_ok f s" and st: "super t = super s" "bitmap t = bitmap s"
    and same: "\<And>x. disk_addr x \<Longrightarrow> fmem t x = fmem s x"
  shows "f_size f t = f_size f s" "\<And>n. n < 1034 \<Longrightarrow> fblk f n t = fblk f n s" "\<And>c. block_is_free c t = block_is_free c s"
    "s_nblocks t = s_nblocks s" "file_ok f t" "\<And>x. touched f t x = touched f s x"
    "\<And>q. q div 4096 < 1034 \<Longrightarrow> fbyte f q t = fbyte f q s"
proof -
  note D = file_okD [OF ok] and T = touched_disk [OF ok]
  have s1: "fmem t x = fmem s x" if "unat x div 4 = 67109889" for x
    using div4_page [OF that] by (intro same) (simp add: disk_addr_def)
  have s2: "fmem t x = fmem s x" if "bitmap_addr s x" for x
    using that by (intro same T) (simp add: touched_def)
  have s3: "fmem t x = fmem s x" if "unat x div 4096 = unat f div 4096" for x
  proof -
    have "65537 \<le> unat f div 4096" "unat f div 4096 < 851968" using D(2) by (auto simp: file_place_def)
    then show ?thesis using that by (intro same) (simp add: disk_addr_def)
  qed
  have s4: "fmem t x = fmem s x" if "f_indirect f s \<noteq> 0" "in_block (f_indirect f s) x" for x
    using that by (intro same T) (auto simp: touched_def own_def)
  note M = meta_same [OF ok st s1 s2 s3 s4, simplified]
  show fb: "\<And>n. n < 1034 \<Longrightarrow> fblk f n t = fblk f n s" and "f_size f t = f_size f s" "\<And>c. block_is_free c t = block_is_free c s"
    "s_nblocks t = s_nblocks s" "file_ok f t" "\<And>x. touched f t x = touched f s x" using M by auto
  fix q assume q: "q div 4096 < (1034 :: nat)"
  let ?b = "fblk f (q div 4096) s"
  let ?x = "DISKMAP + ?b * BLKSIZE + of_nat (q mod 4096)"
  have "fmem t ?x = fmem s ?x" if "?b \<noteq> 0"
  proof (rule same, rule T)
    have "?b < s_nblocks s" using D(4) [OF q that] by (simp add: data_block_def)
    then have "in_block ?b ?x" using block_byte(1) [OF D(1)] by simp
    then show "touched f s ?x" using q that by (auto simp: touched_def own_def)
  qed
  then show "fbyte f q t = fbyte f q s" using fb [OF q] by (simp add: fbyte_def Let_def)
qed

lemma range_not_disk: "buf_ok buf n \<Longrightarrow> in_range buf n x \<Longrightarrow> \<not> disk_addr x"
  by (auto simp: buf_ok_def in_range_def disk_addr_def)

lemma read_step:
  assumes ok: "file_ok f s" and p: "unat pos div 4096 < 1034" and b: "fblk f (unat pos div 4096) s \<noteq> 0"
    and bn: "unat pos mod 4096 + bn \<le> 4096" and buf: "buf_ok buf bn"
  defines "src \<equiv> DISKMAP + fblk f (unat pos div 4096) s * BLKSIZE + of_nat (unat pos mod 4096)"
  defines "t \<equiv> touch buf bn (s\<lparr>fmem := memmove buf src bn (fmem s)\<rparr>)"
  shows "file_reads f buf bn s t" and "i < bn \<Longrightarrow> fmem t (buf + of_nat i) = fbyte f (unat pos + i) s"
proof -
  let ?n = "unat pos div 4096" and ?o = "unat pos mod 4096"
  let ?b = "fblk f ?n s"
  note D = file_okD [OF ok]
  have db: "?b < s_nblocks s" using D(4) [OF p b] by (simp add: data_block_def)
  then have bs: "unat ?b < 786432" using fs_okD(4) [OF D(1)] by (simp add: word_less_nat_alt)
  have us: "unat src = 4096 * (65536 + unat ?b) + ?o" unfolding src_def by (rule block_byte(2) [OF D(1) db]) simp
  have mm: "fmem t = copied buf src bn (fmem s)"
    unfolding t_def using memmove_copied [of buf bn src] us bs bn buf by (simp add: buf_ok_def)
  have st: "super t = super s" "bitmap t = bitmap s" by (simp_all add: t_def)
  have out: "fmem t x = fmem s x" if "\<not> in_range buf bn x" for x using that by (simp add: mm copied_def)
  note S = disk_same [OF ok st out [OF contrapos_pn [OF _ range_not_disk [OF buf]]], simplified]
  show "file_reads f buf bn s t" using S out by (simp add: file_reads_def)
  assume i: "i < bn"
  have q: "(unat pos + i) div 4096 = ?n" by (rule chunk_block [OF bn]) (use i in simp_all)
  then have m: "(unat pos + i) mod 4096 = ?o + i" using same_block(3) [OF q] same_block(1) [OF q] by simp
  have "in_range buf bn (buf + of_nat i)" using buf_unat [OF buf i] i by (simp add: in_range_def)
  then have "fmem t (buf + of_nat i) = fmem s (src + of_nat i)" by (simp add: mm copied_def)
  then show "fmem t (buf + of_nat i) = fbyte f (unat pos + i) s"
    using b by (simp add: fbyte_def q m src_def Let_def add.assoc)
qed

lemma range_rest:
  assumes "buf_ok buf (n + k)"
  shows "in_range buf n x \<or> in_range (buf + of_nat n) k x \<longleftrightarrow> in_range buf (n + k) x"
  using buf_ok_rest(2) [OF assms] by (auto simp: in_range_def)

lemma read_parts:
  assumes K: "file_keeps f s s1" and W: "file_reads f buf bn s1 s2"
    and w: "\<And>i. i < bn \<Longrightarrow> fmem s2 (buf + of_nat i) = fbyte f (pos + i) s1"
    and R: "file_reads f (buf + of_nat bn) m s2 t" "pos + bn \<le> k" "k \<le> lim"
      "\<forall>i < k - (pos + bn). fmem t (buf + of_nat bn + of_nat i) = fbyte f (pos + bn + i) s2"
    and bk: "buf_ok buf (bn + m)" and lim: "lim \<le> 1034 * 4096"
  shows "\<forall>i < k - pos. fmem t (buf + of_nat i) = fbyte f (pos + i) s"
proof (intro allI impI)
  fix i assume i: "i < k - pos"
  then have q: "(pos + i) div 4096 < 1034" using R(3) lim by (simp add: div_less_iff_less_mult)
  show "fmem t (buf + of_nat i) = fbyte f (pos + i) s"
  proof (cases "i < bn")
    case True
    have u: "unat (buf + of_nat i) = unat buf + i" using buf_unat [OF bk] True by simp
    have "\<not> in_range (buf + of_nat bn) m (buf + of_nat i)" using True buf_ok_rest(2) [OF bk] by (simp add: in_range_def u)
    moreover have "\<not> touched f s2 (buf + of_nat i)"
      using touched_disk [OF file_readsD(1) [OF W]] buf_not_disk [OF bk, of i] True by auto
    ultimately have "fmem t (buf + of_nat i) = fmem s2 (buf + of_nat i)" using file_readsD(4) [OF R(1)] by blast
    then show ?thesis using w [OF True] file_keepsD(4) [OF K q] by simp
  next
    case False
    have "i - bn < k - (pos + bn)" using False i by simp
    then have "fmem t (buf + of_nat bn + of_nat (i - bn)) = fbyte f (pos + bn + (i - bn)) s2" using R(4) by blast
    then show ?thesis using False file_readsD(2) [OF W q] file_keepsD(4) [OF K q] by (simp add: of_nat_diff)
  qed
qed

lemma read_loop_ok:
  assumes "file_ok f s" and "pos \<le> lim" and "unat lim \<le> 1034 * 4096" and "buf_ok buf (unat lim - unat pos)"
  shows "\<exists>r t k. read_loop f buf pos lim s = Inr (r, t) \<and> file_reads f buf (unat lim - unat pos) s t \<and>
     unat pos \<le> k \<and> k \<le> unat lim \<and> (\<forall>i < k - unat pos. fmem t (buf + of_nat i) = fbyte f (unat pos + i) s) \<and>
     (r = 0 \<and> k = unat lim \<or> r = - E_NO_DISK \<and> (\<forall>b. \<not> block_is_free b t))"
  using assms
proof (induction "unat lim - unat pos" arbitrary: buf pos s rule: less_induct)
  case less
  show ?case
  proof (cases "pos < lim")
    case False
    then have "pos = lim" using less.prems(2) by simp
    then have "read_loop f buf pos lim s = Inr (0, s)" by (subst read_loop.simps) simp
    then show ?thesis using keeps_reads [OF file_keeps_refl [OF less.prems(1)]] \<open>pos = lim\<close> by auto
  next
    case True
    let ?n = "unat pos div 4096" and ?bn = "unat (chunk pos lim)"
    note L = loop_round [OF True less.prems(3,4)]
    have p: "unat pos < unat lim" using True by (simp add: word_less_nat_alt)
    obtain r blk s1 where g: "file_get_block f (of_nat ?n) s = Inr (r, blk, s1)" "file_keeps f s s1"
        and c: "r = - E_NO_DISK \<and> blk = None \<and> (\<forall>b. \<not> block_is_free b s1) \<or>
          r = 0 \<and> fblk f ?n s1 \<noteq> 0 \<and> blk = Some (DISKMAP + fblk f ?n s1 * BLKSIZE)"
      using file_get_block_ok [OF less.prems(1) L(1)] by blast
    note ok1 = file_keepsD(2) [OF g(2)]
    show ?thesis
    proof (cases "blk = None")
      case True
      then have "read_loop f buf pos lim s = Inr (r, s1)" using g(1) \<open>pos < lim\<close> by (subst read_loop.simps) (simp add: L(2))
      then show ?thesis
        using c True keeps_reads [OF g(2)] p by (intro exI [of _ r] exI [of _ s1] exI [of _ "unat pos"]) simp
    next
      case False
      let ?src = "DISKMAP + fblk f ?n s1 * BLKSIZE + of_nat (unat pos mod 4096)"
      let ?s2 = "touch buf ?bn (s1\<lparr>fmem := memmove buf ?src ?bn (fmem s1)\<rparr>)"
      let ?m = "unat lim - (unat pos + ?bn)"
      have blk: "fblk f ?n s1 \<noteq> 0" "blk = Some (DISKMAP + fblk f ?n s1 * BLKSIZE)" using c False by auto
      have bk: "buf_ok buf (?bn + ?m)" using L(12) unfolding L(7) .
      then have bk1: "buf_ok buf ?bn" by (auto simp: buf_ok_def)
      note W = read_step [OF ok1 L(1) blk(1) L(4) bk1]
      obtain r t k where R: "read_loop f (buf + chunk pos lim) (pos + chunk pos lim) lim ?s2 = Inr (r, t)"
          "file_reads f (buf + of_nat ?bn) ?m ?s2 t" "unat pos + ?bn \<le> k" "k \<le> unat lim"
          "\<forall>i < k - (unat pos + ?bn). fmem t (buf + of_nat ?bn + of_nat i) = fbyte f (unat pos + ?bn + i) ?s2"
          "r = 0 \<and> k = unat lim \<or> r = - E_NO_DISK \<and> (\<forall>b. \<not> block_is_free b t)"
        using less.hyps [OF L(10) file_readsD(1) [OF W(1)] L(11) less.prems(3) L(9)] unfolding L(7,8) by blast
      have "?bn + ?m = unat lim - unat pos" using L(5) by simp
      then have "file_reads f buf (unat lim - unat pos) s t"
        using file_reads_trans [OF file_reads_trans [OF keeps_reads [OF g(2)] W(1)] R(2)] range_rest [OF bk] by metis
      moreover have "read_loop f buf pos lim s = Inr (r, t)"
        using True g(1) R(1) blk(2) by (subst read_loop.simps) (simp add: L(2,3) Let_def)
      moreover have "\<forall>i < k - unat pos. fmem t (buf + of_nat i) = fbyte f (unat pos + i) s"
        by (rule read_parts [OF g(2) W R(2-5) bk less.prems(3)])
      ultimately show ?thesis using R(3,4,6) by (intro exI [of _ r] exI [of _ t] exI [of _ k]) simp
    qed
  qed
qed

section \<open>The size of a file\<close>

lemma flush_file:
  assumes "file_place f s"
  shows "\<exists>d e. flush_block f s' = Inr (s'\<lparr>fdisk := d, fdirty := e\<rparr>)"
  using assms by (intro flush_block_ok) (simp_all add: file_place_def jos_const word_le_nat_alt word_less_nat_alt)

text \<open>Only the dirty bits and the disk differ: everything the files show is the same.\<close>

lemma view_eq:
  assumes "fmem t = fmem s" "super t = super s" "bitmap t = bitmap s"
  shows "f_size f t = f_size f s" "f_indirect f t = f_indirect f s" "fblk f n t = fblk f n s" "fbyte f q t = fbyte f q s"
    "s_nblocks t = s_nblocks s" "block_is_free c t = block_is_free c s" "file_ok f t = file_ok f s" "touched f t = touched f s"
    "slot f n t = slot f n s" "fs_ok t = fs_ok s"
proof -
  show a: "f_size f t = f_size f s" "f_indirect f t = f_indirect f s" for f
    using assms by (simp_all add: f_size_def f_indirect_def)
  show b: "slot f n t = slot f n s" for f n by (simp add: slot_def a)
  show c: "fblk f n t = fblk f n s" for f n by (simp add: fblk_def a b assms)
  show "fbyte f q t = fbyte f q s" by (simp add: fbyte_def c assms Let_def)
  show d: "s_nblocks t = s_nblocks s" by (simp add: s_nblocks_def assms)
  show e: "block_is_free c t = block_is_free c s" for c by (simp add: block_is_free_def d bit_addr_def assms)
  have g: "bitmap_blocks t = bitmap_blocks s" by (simp add: bitmap_blocks_def d)
  show h: "fs_ok t = fs_ok s" by (simp add: fs_ok_def d e g assms)
  have "data_block t = data_block s" by (rule ext) (simp add: data_block_def d e g)
  moreover have i: "bitmap_addr t = bitmap_addr s" by (rule ext) (simp add: bitmap_addr_def g)
  moreover have "file_place f t = file_place f s" by (simp add: file_place_def e i)
  ultimately show "file_ok f t = file_ok f s" by (simp add: file_ok_def h a c)
  show "touched f t = touched f s" by (rule ext) (simp add: touched_def own_def i e a c)
qed

lemma put_size:
  assumes ok: "file_ok f s" and t: "fmem t = fmem (put32 (f + 128) w s)" "super t = super s" "bitmap t = bitmap s"
  shows "file_step f s t" "f_size f t = w" "f_indirect f t = f_indirect f s" "n < 1034 \<Longrightarrow> fblk f n t = fblk f n s"
    "q div 4096 < 1034 \<Longrightarrow> fbyte f q t = fbyte f q s" "block_is_free c t = block_is_free c s"
proof -
  note D = file_okD [OF ok]
  have so: "slot_ok (f + 128) s" using field_slot_ok [OF D(2), of 128] by simp
  note P = put32_slot [OF D(1) so, where w = w]
  let ?p = "put32 (f + 128) w s"
  have V: "super t = super ?p" "bitmap t = bitmap ?p" using t P by simp_all
  note E = view_eq [OF t(1) V]
  show sz: "f_size f t = w" using P(6) by (simp add: f_size_def t(1))
  show fr: "block_is_free c t = block_is_free c s" for c using E(6) P(5) by simp
  have al: "unat (f + of_nat k) mod 4 = 0" if "k < 256" "k mod 4 = 0" for k
    using field_slot_ok [OF D(2) that] by (simp add: slot_ok_def)
  have out: "fmem t x = fmem s x" if "unat x div 4 \<noteq> unat (f + 128) div 4" for x using P(7) [OF that] t(1) by simp
  have "unat (f + 176) div 4 \<noteq> unat (f + 128) div 4"
  proof -
    obtain g where "unat f = 4 * g" using D(2) by (auto simp: file_place_def)
    then show ?thesis using field_unat [OF D(2), of 176] field_unat [OF D(2), of 128] by simp
  qed
  then show ib: "f_indirect f t = f_indirect f s"
    unfolding f_indirect_def using al [of 176] out by (intro get32_same) auto
  show fb: "fblk f n t = fblk f n s" if n: "n < 1034" for n
  proof (cases "n < 10 \<or> f_indirect f s \<noteq> 0")
    case True
    have "unat (slot f n s) mod 4 = 0" using slot_cases(1) [OF ok n True] by (simp add: slot_ok_def)
    moreover have "unat (slot f n s) div 4 \<noteq> unat (f + 128) div 4" using slot_not_field [OF ok n True, of 128] by simp
    ultimately have "get32 (fmem t) (slot f n s) = get32 (fmem s) (slot f n s)" using out by (intro get32_same) auto
    then show ?thesis using ib by (auto simp: fblk_def slot_def)
  qed (simp add: fblk_def ib)
  have nb: "s_nblocks t = s_nblocks s" using E(5) P(4) by simp
  then have bb: "bitmap_blocks t = bitmap_blocks s" by (simp add: bitmap_blocks_def)
  have okt: "file_ok f t"
    using D P(1) E(10) by (simp add: file_ok_def ib fb data_block_def nb bb fr file_place_def bitmap_addr_def)
  have "own f s x" if "unat x div 4 = unat (f + 128) div 4" for x using own_field [OF D(2), of 128 x] that by simp
  then have "fmem t x = fmem s x" if "\<not> touched f s x" for x using that out by (auto simp: touched_def)
  moreover have "own f t x = own f s x" for x unfolding own_def ib using fb by metis
  then have "touched f t x = touched f s x" for x by (simp add: touched_def bitmap_addr_def bb fr)
  ultimately show "file_step f s t" using okt nb fr by (simp add: file_step_def)
  assume q: "q div 4096 < 1034"
  let ?b = "fblk f (q div 4096) s"
  let ?x = "DISKMAP + ?b * BLKSIZE + of_nat (q mod 4096)"
  have "fmem t ?x = fmem s ?x" if "?b \<noteq> 0"
  proof (rule out)
    have b: "?b < s_nblocks s" "\<not> in_block ?b f" using D(4) [OF q that] by (auto simp: data_block_def)
    then have "in_block ?b ?x" using block_byte(1) [OF D(1)] by simp
    moreover have "unat (f + 128) div 4096 = unat f div 4096" using field_unat [OF D(2), of 128] field_page [OF D(2), of 128] by simp
    ultimately show "unat ?x div 4 \<noteq> unat (f + 128) div 4" using same_word_block page_cong(2) b(2) by blast
  qed
  then show "fbyte f q t = fbyte f q s" using fb [OF q] by (simp add: fbyte_def Let_def)
qed

lemma set_size_extends:
  assumes ok: "file_ok f s" and sz: "sint (f_size f s) \<le> sint w"
  shows "\<exists>t. file_set_size f w s = Inr (0, t) \<and> file_step f s t \<and> f_size f t = w \<and>
     (\<forall>q. q div 4096 < 1034 \<longrightarrow> fbyte f q t = fbyte f q s)"
proof -
  let ?p = "put32 (f + 128) w s"
  obtain d e where fl: "flush_block f ?p = Inr (?p\<lparr>fdisk := d, fdirty := e\<rparr>)"
    using flush_file [OF file_okD(2) [OF ok]] by blast
  have "super (?p\<lparr>fdisk := d, fdirty := e\<rparr>) = super s" "bitmap (?p\<lparr>fdisk := d, fdirty := e\<rparr>) = bitmap s"
    by (simp_all add: put32_def)
  note P = put_size [OF ok _ this, of w]
  show ?thesis using fl sz P by (simp add: file_set_size_def)
qed

section \<open>Other files\<close>

definition separate :: "u32 \<Rightarrow> u32 \<Rightarrow> fs \<Rightarrow> bool" where
  "separate f g s \<longleftrightarrow> (\<forall>x. own f s x \<longrightarrow> \<not> own g s x)"

text \<open>A file shows the same contents in two states.\<close>

definition same_file :: "u32 \<Rightarrow> fs \<Rightarrow> fs \<Rightarrow> bool" where
  "same_file g s t \<longleftrightarrow> f_size g t = f_size g s \<and> (\<forall>q. q div 4096 < 1034 \<longrightarrow> fbyte g q t = fbyte g q s)"

lemma own_same:
  assumes ok: "file_ok g s" and same: "\<And>x. own g s x \<Longrightarrow> fmem t x = fmem s x"
  shows "same_file g s t"
proof -
  note D = file_okD [OF ok]
  have F: "get32 (fmem t) (g + of_nat k) = get32 (fmem s) (g + of_nat k)" if k: "128 \<le> k" "k < 180" "k mod 4 = 0" for k
  proof (rule get32_same)
    show "unat (g + of_nat k) mod 4 = 0" using field_slot_ok [OF D(2), of k] k by (simp add: slot_ok_def)
  qed (use same own_field [OF D(2) k] in blast)
  have ib: "f_indirect g t = f_indirect g s" using F [of 176] by (simp add: f_indirect_def)
  have fb: "fblk g n t = fblk g n s" if n: "n < 1034" for n
  proof -
    have "get32 (fmem t) (slot g n s) = get32 (fmem s) (slot g n s)" if "n < 10"
      using F [of "136 + 4 * n"] that by (simp add: slot_def f_direct_def algebra_simps mod_add_eq [symmetric])
    moreover have "get32 (fmem t) (slot g n s) = get32 (fmem s) (slot g n s)" if "\<not> n < 10" "f_indirect g s \<noteq> 0"
    proof (rule get32_same)
      have c: "n < 10 \<or> f_indirect g s \<noteq> 0" using that by blast
      show "unat (slot g n s) mod 4 = 0" using slot_cases(1) [OF ok n c] by (simp add: slot_ok_def)
      fix x :: u32 assume "unat x div 4 = unat (slot g n s) div 4"
      then have "in_block (f_indirect g s) x" using slot_cases(4) [OF ok n c that(1)] same_word_block by blast
      then show "fmem t x = fmem s x" using that(2) by (intro same) (auto simp: own_def)
    qed
    ultimately show ?thesis using ib by (auto simp: fblk_def slot_def)
  qed
  have "fbyte g q t = fbyte g q s" if q: "q div 4096 < 1034" for q
  proof -
    let ?b = "fblk g (q div 4096) s"
    let ?x = "DISKMAP + ?b * BLKSIZE + of_nat (q mod 4096)"
    have "fmem t ?x = fmem s ?x" if "?b \<noteq> 0"
    proof (rule same)
      have "?b < s_nblocks s" using D(4) [OF q that] by (simp add: data_block_def)
      then have "in_block ?b ?x" using block_byte(1) [OF D(1)] by simp
      then show "own g s ?x" using q that by (auto simp: own_def)
    qed
    then show ?thesis using fb [OF q] by (simp add: fbyte_def Let_def)
  qed
  then show ?thesis using F [of 128] by (simp add: same_file_def f_size_def)
qed

lemma own_place:
  assumes ok: "file_ok g s" and x: "own g s x"
  shows "\<not> bitmap_addr s x" and "block_is_free c s \<Longrightarrow> \<not> in_block c x"
proof -
  note D = file_okD [OF ok]
  from x consider "unat g + 128 \<le> unat x" "unat x < unat g + 180" | b where "in_block b x" "data_block s b"
    using D(3,4) unfolding own_def by blast
  then have "\<not> bitmap_addr s x \<and> (block_is_free c s \<longrightarrow> \<not> in_block c x)" for c
  proof cases
    case 1
    have "unat x - unat g < 256" "unat x = unat g + (unat x - unat g)" using 1 by auto
    then have "unat x div 4096 = unat g div 4096" using field_page [OF D(2)] by metis
    from page_cong [OF this] show ?thesis using D(2) by (simp add: file_place_def)
  next
    case 2
    then have "\<not> bitmap_addr s x" by (auto simp: data_block_def bitmap_addr_def in_block_def)
    moreover have "block_is_free c s \<longrightarrow> \<not> in_block c x"
      using in_block_inj [OF 2(1), of c] 2(2) by (auto simp: data_block_def)
    ultimately show ?thesis by blast
  qed
  then show "\<not> bitmap_addr s x" "block_is_free c s \<Longrightarrow> \<not> in_block c x" by blast+
qed

lemma step_other:
  assumes "file_ok g s" "separate f g s" "file_step f s t"
  shows "same_file g s t"
  using assms(2) own_place [OF assms(1)]
  by (intro own_same [OF assms(1)] file_stepD(2) [OF assms(3)]) (auto simp: touched_def separate_def)

section \<open>Giving blocks back\<close>

definition dropped :: "u32 \<Rightarrow> u32 \<Rightarrow> fs \<Rightarrow> fs \<Rightarrow> bool" where
  "dropped p b s t \<longleftrightarrow> fs_ok t \<and> super t = super s \<and> bitmap t = bitmap s \<and> s_nblocks t = s_nblocks s \<and>
     (\<forall>c. block_is_free c t \<longleftrightarrow> c = b \<or> block_is_free c s) \<and> get32 (fmem t) p = 0 \<and>
     (\<forall>x. \<not> bitmap_addr s x \<and> unat x div 4 \<noteq> unat p div 4 \<longrightarrow> fmem t x = fmem s x)"

lemma droppedD:
  assumes "dropped p b s t"
  shows "fs_ok t" "s_nblocks t = s_nblocks s" "bitmap_blocks t = bitmap_blocks s"
    "block_is_free c t \<longleftrightarrow> c = b \<or> block_is_free c s" "get32 (fmem t) p = 0"
    "\<not> bitmap_addr s x \<Longrightarrow> unat x div 4 \<noteq> unat p div 4 \<Longrightarrow> fmem t x = fmem s x"
  using assms by (simp_all add: dropped_def bitmap_blocks_def)

lemma drop_ok:
  assumes ok: "fs_ok s" and p: "slot_ok p s" and b: "data_block s b" "\<not> in_block b p"
  shows "\<exists>u. free_block b s = Inr u \<and> get32 (fmem u) p = get32 (fmem s) p \<and> dropped p b s (put32 p 0 u)"
proof -
  have b': "b < s_nblocks s" "b \<noteq> 0" using b(1) by (auto simp: data_block_def)
  obtain u where u: "free_block b s = Inr u" "s_nblocks u = s_nblocks s" "super u = super s" "bitmap u = bitmap s"
      "\<forall>c. block_is_free c u \<longleftrightarrow> c = b \<or> block_is_free c s"
      "\<forall>x. unat x div 4 \<noteq> 67110912 + unat b div 32 \<longrightarrow> fmem u x = fmem s x"
    using free_block_ok [OF ok b'] by blast
  have bb: "bitmap_blocks u = bitmap_blocks s" using u(2) by (simp add: bitmap_blocks_def)
  have oku: "fs_ok u" by (rule fs_ok_change [OF ok u(2-4)]) (use u(5) b(1) in \<open>auto simp: data_block_def\<close>)
  have pu: "slot_ok p u" using p u(5) b(2) by (auto simp: slot_ok_def bitmap_addr_def bb)
  have nb: "fmem u x = fmem s x" if "\<not> bitmap_addr s x" for x
  proof -
    have "unat x div 4 \<noteq> 67110912 + unat b div 32"
    proof
      assume "unat x div 4 = 67110912 + unat b div 32"
      then have "unat x div 4096 = 65538 + unat b div 32768" using div4_page [of x] by (simp add: div_mult2_eq [symmetric])
      moreover have "unat b div 32768 < bitmap_blocks s"
        using b'(1) by (simp add: bitmap_blocks_def word_less_nat_alt div_less_iff_less_mult)
      ultimately show False using that by (simp add: bitmap_addr_def)
    qed
    then show ?thesis using u(6) by blast
  qed
  have "get32 (fmem u) p = get32 (fmem s) p"
  proof (rule get32_same)
    show "unat p mod 4 = 0" using p by (simp add: slot_ok_def)
    show "fmem u x = fmem s x" if "unat x div 4 = unat p div 4" for x
      using page_cong(1) [OF same_word_page [OF that]] p by (intro nb) (simp add: slot_ok_def)
  qed
  moreover note P = put32_slot [OF oku pu, where w = 0]
  have "dropped p b s (put32 p 0 u)" unfolding dropped_def using P u nb by simp
  ultimately show ?thesis using u(1) by blast
qed

lemma dropped_get32:
  assumes P: "dropped p b s t" and a: "slot_ok a s" "unat a div 4 \<noteq> unat p div 4"
  shows "get32 (fmem t) a = get32 (fmem s) a"
proof (rule get32_same)
  show "unat a mod 4 = 0" using a(1) by (simp add: slot_ok_def)
  fix x :: u32 assume x: "unat x div 4 = unat a div 4"
  show "fmem t x = fmem s x"
    using page_cong(1) [OF same_word_page [OF x]] a x by (intro droppedD(6) [OF P]) (simp_all add: slot_ok_def)
qed

lemma dropped_data:
  assumes P: "dropped p b s t"
  shows "data_block t c \<longleftrightarrow> data_block s c \<and> c \<noteq> b"
  using droppedD(4) [OF P, of c] by (auto simp: data_block_def droppedD(2,3) [OF P])

lemma dropped_place:
  assumes "dropped p b s t" and "file_place f s" and "\<not> in_block b f"
  shows "file_place f t"
  using assms(2,3) droppedD(3,4) [OF assms(1)] by (auto simp: file_place_def bitmap_addr_def)

text \<open>What truncation does: blocks go, the bytes of the blocks that stay are kept.\<close>

definition file_cut :: "u32 \<Rightarrow> fs \<Rightarrow> fs \<Rightarrow> bool" where
  "file_cut f s t \<longleftrightarrow> file_ok f t \<and> f_size f t = f_size f s \<and>
     (\<forall>x. touched f t x \<longrightarrow> touched f s x) \<and> (\<forall>x. \<not> touched f s x \<longrightarrow> fmem t x = fmem s x) \<and>
     (\<forall>q. q div 4096 < 1034 \<longrightarrow> fblk f (q div 4096) t \<noteq> 0 \<longrightarrow> fbyte f q t = fbyte f q s)"

lemma slot_drop:
  assumes ok: "file_ok f s" and n: "n < 1034" and z: "fblk f n s \<noteq> 0"
    and P: "dropped (slot f n s) (fblk f n s) s t"
  shows "f_indirect f t = f_indirect f s" and "f_size f t = f_size f s"
    and "m < 1034 \<Longrightarrow> fblk f m t = (if m = n then 0 else fblk f m s)" and "file_ok f t"
proof -
  have n': "n < 10 \<or> f_indirect f s \<noteq> 0" using z by (auto simp: fblk_def)
  note D = file_okD [OF ok] and Q = droppedD [OF P] and PD = dropped_data [OF P]
  have F: "get32 (fmem t) (f + of_nat k) = get32 (fmem s) (f + of_nat k)" if "k = 128 \<or> k = 132 \<or> k = 176" for k
    using slot_not_field [OF ok n n' that] field_slot_ok [OF D(2), of k] that by (intro dropped_get32 [OF P]) auto
  show ib: "f_indirect f t = f_indirect f s" using F [of 176] by (simp add: f_indirect_def)
  show "f_size f t = f_size f s" using F [of 128] by (simp add: f_size_def)
  show fb: "fblk f m t = (if m = n then 0 else fblk f m s)" if m: "m < 1034" for m
  proof (cases "m < 10 \<or> f_indirect f s \<noteq> 0")
    case True
    have "get32 (fmem t) (slot f m s) = (if m = n then 0 else get32 (fmem s) (slot f m s))"
      using Q(5) dropped_get32 [OF P slot_cases(1) [OF ok m True]] slot_distinct [OF ok n n' m True] by auto
    then show ?thesis using True ib by (auto simp: fblk_def slot_def)
  next
    case False
    then show ?thesis using n' ib by (auto simp: fblk_def)
  qed
  have "file_place f t" by (rule dropped_place [OF P D(2)]) (use D(4) [OF n z] in blast)
  moreover have "fblk f m s \<noteq> fblk f n s" if "m < 1034" "m \<noteq> n" "fblk f m s \<noteq> 0" for m using D(5) [OF that(1) n] that by metis
  moreover have "f_indirect f s \<noteq> fblk f n s" using D(4) [OF n z] by metis
  ultimately show "file_ok f t" unfolding file_ok_def ib using D(3,4,5) Q(1) PD by (auto simp: fb)
qed

lemma dropped_cut:
  assumes ok: "file_ok f s" and ok': "file_ok f t" and P: "dropped p b s t" and sz: "f_size f t = f_size f s"
    and b: "\<And>x. in_block b x \<Longrightarrow> own f s x" and p: "\<And>x. unat x div 4 = unat p div 4 \<Longrightarrow> own f s x"
    and np: "\<And>n. n < 1034 \<Longrightarrow> fblk f n s \<noteq> 0 \<Longrightarrow> \<not> in_block (fblk f n s) p"
    and i: "f_indirect f t = 0 \<or> f_indirect f t = f_indirect f s"
    and fb: "\<And>n. n < 1034 \<Longrightarrow> fblk f n t = 0 \<or> fblk f n t = fblk f n s"
  shows "file_cut f s t"
proof -
  note Q = droppedD [OF P] and D = file_okD [OF ok]
  have bm: "bitmap_addr t x = bitmap_addr s x" for x using Q(3) by (simp add: bitmap_addr_def)
  have "own f s x" if "own f t x" for x using that i fb unfolding own_def by metis
  then have "touched f s x" if "touched f t x" for x
    using that b Q(4) unfolding touched_def bm by metis
  moreover have "fmem t x = fmem s x" if "\<not> touched f s x" for x
    using that p by (intro Q(6)) (auto simp: touched_def)
  moreover have "fbyte f q t = fbyte f q s" if q: "q div 4096 < 1034" "fblk f (q div 4096) t \<noteq> 0" for q
  proof -
    let ?c = "fblk f (q div 4096) s"
    let ?x = "DISKMAP + ?c * BLKSIZE + of_nat (q mod 4096)"
    have e: "fblk f (q div 4096) t = ?c" "?c \<noteq> 0" using fb [OF q(1)] q(2) by auto
    have c: "data_block s ?c" using D(4) [OF q(1) e(2)] by blast
    then have ib: "in_block ?c ?x" using block_byte(1) [OF D(1)] by (simp add: data_block_def)
    have "fmem t ?x = fmem s ?x"
    proof (rule Q(6))
      show "\<not> bitmap_addr s ?x" using ib c by (simp add: in_block_def bitmap_addr_def data_block_def)
      show "unat ?x div 4 \<noteq> unat p div 4" using ib np [OF q(1) e(2)] same_word_block by blast
    qed
    then show ?thesis using e by (simp add: fbyte_def Let_def)
  qed
  ultimately show ?thesis using ok' sz by (simp add: file_cut_def)
qed

lemma file_cut_refl: "file_ok f s \<Longrightarrow> file_cut f s s"
  by (simp add: file_cut_def)

lemma file_cut_trans:
  assumes "file_cut f s t" "file_cut f t u" "\<And>n. n < 1034 \<Longrightarrow> fblk f n u \<noteq> 0 \<Longrightarrow> fblk f n t \<noteq> 0"
  shows "file_cut f s u"
  using assms unfolding file_cut_def by (metis (no_types, lifting))

text \<open>The blocks that go between two states are free in the second, and no others become free.\<close>

definition freed :: "u32 set \<Rightarrow> fs \<Rightarrow> fs \<Rightarrow> bool" where
  "freed B s t \<longleftrightarrow> (\<forall>c. block_is_free c t \<longleftrightarrow> block_is_free c s \<or> c \<in> B)"

lemma file_free_block_ok:
  assumes ok: "file_ok f s" and n: "n < 1034"
  shows "\<exists>r t. file_free_block f (of_nat n) s = Inr (r, t) \<and> file_cut f s t \<and> f_indirect f t = f_indirect f s \<and>
     (\<forall>m < 1034. fblk f m t = (if m = n then 0 else fblk f m s)) \<and> freed ({fblk f n s} - {0}) s t"
proof -
  note D = file_okD [OF ok]
  have lim: "\<not> NDIRECT + NINDIRECT \<le> of_nat n" "of_nat n < NDIRECT \<longleftrightarrow> n < 10"
    using n by (simp_all add: jos_const word_le_nat_alt word_less_nat_alt unat_small_of_nat)
  have sub: "(of_nat n - NDIRECT :: u32) = of_nat (n - 10)" if "\<not> n < 10" using that by (simp add: jos_const)
  have da: "diskaddr (f_indirect f s) s = Inr (DISKMAP + f_indirect f s * BLKSIZE)" if "f_indirect f s \<noteq> 0"
    using D(3) that by (simp add: diskaddr_def data_block_def not_le)
  have w: "file_block_walk f (of_nat n) False s =
      (if n < 10 \<or> f_indirect f s \<noteq> 0 then Inr (0, Some (slot f n s), s) else Inr (- E_NOT_FOUND, None, s))"
    using lim sub da by (auto simp: file_block_walk_def slot_def E_NOT_FOUND_def)
  show ?thesis
  proof (cases "fblk f n s = 0")
    case True
    then have "\<exists>r. file_free_block f (of_nat n) s = Inr (r, s)" by (auto simp: file_free_block_def w fblk_def)
    then show ?thesis using True file_cut_refl [OF ok] by (auto simp: freed_def)
  next
    case False
    then have n': "n < 10 \<or> f_indirect f s \<noteq> 0" and g: "get32 (fmem s) (slot f n s) = fblk f n s"
      by (auto simp: fblk_def)
    note O = slot_own [OF ok n n']
    have db: "data_block s (fblk f n s)" "\<not> in_block (fblk f n s) (slot f n s)" using D(4) [OF n False] O(2) [OF n False] by auto
    obtain u where u: "free_block (fblk f n s) s = Inr u" "dropped (slot f n s) (fblk f n s) s (put32 (slot f n s) 0 u)"
      using drop_ok [OF D(1) slot_cases(1) [OF ok n n'] db] by blast
    note S = slot_drop [OF ok n False u(2)]
    have "in_block (fblk f n s) x \<Longrightarrow> own f s x" for x using False n by (auto simp: own_def)
    then have "file_cut f s (put32 (slot f n s) 0 u)" using S O by (intro dropped_cut [OF ok S(4) u(2)]) auto
    moreover have "file_free_block f (of_nat n) s = Inr (0, put32 (slot f n s) 0 u)"
      using n' u(1) False by (simp add: file_free_block_def w g)
    moreover have "freed ({fblk f n s} - {0}) s (put32 (slot f n s) 0 u)" using droppedD(4) [OF u(2)] False by (auto simp: freed_def)
    ultimately show ?thesis using S by auto
  qed
qed

lemma free_blocks_ok:
  assumes "file_ok f s" and "b \<le> 1034"
  shows "\<exists>t. free_blocks f (map of_nat [a..<b]) s = Inr t \<and> file_cut f s t \<and> f_indirect f t = f_indirect f s \<and>
     (\<forall>m < 1034. fblk f m t = (if a \<le> m \<and> m < b then 0 else fblk f m s)) \<and>
     freed ((\<lambda>m. fblk f m s) ` {a..<b} - {0}) s t"
  using assms(1)
proof (induction "b - a" arbitrary: a s)
  case 0
  then show ?case using file_cut_refl by (auto simp: freed_def)
next
  case (Suc k)
  then have ab: "a < b" "k = b - Suc a" by auto
  have a: "a < 1034" using ab assms(2) by simp
  obtain r u where u: "file_free_block f (of_nat a) s = Inr (r, u)" "file_cut f s u" "f_indirect f u = f_indirect f s"
      "\<forall>m < 1034. fblk f m u = (if m = a then 0 else fblk f m s)" "freed ({fblk f a s} - {0}) s u"
    using file_free_block_ok [OF Suc.prems a] by blast
  have "file_ok f u" using u(2) by (simp add: file_cut_def)
  from Suc.hyps(1) [OF ab(2) this] obtain t where t: "free_blocks f (map of_nat [Suc a..<b]) u = Inr t" "file_cut f u t"
      "f_indirect f t = f_indirect f u" "\<forall>m < 1034. fblk f m t = (if Suc a \<le> m \<and> m < b then 0 else fblk f m u)"
      "freed ((\<lambda>m. fblk f m u) ` {Suc a..<b} - {0}) u t" by blast
  have eq: "fblk f m t = (if a \<le> m \<and> m < b then 0 else fblk f m s)" if "m < 1034" for m
    using u(4) t(4) that ab by (auto simp: Suc_le_eq)
  have "(\<lambda>m. fblk f m u) ` {Suc a..<b} = (\<lambda>m. fblk f m s) ` {Suc a..<b}"
    using u(4) assms(2) by (intro image_cong) auto
  moreover have "{a..<b} = insert a {Suc a..<b}" using ab by auto
  ultimately have "freed ((\<lambda>m. fblk f m s) ` {a..<b} - {0}) s t" using u(5) t(5) unfolding freed_def by auto
  moreover have "file_cut f s t" by (rule file_cut_trans [OF u(2) t(2)]) (use t(4) in \<open>auto split: if_splits\<close>)
  moreover have "free_blocks f (map of_nat [a..<b]) s = Inr t" using ab u(1) t(1) by (simp add: upt_rec [of a])
  ultimately show ?case using u(3) t(3) eq by auto
qed

lemma indirect_drop:
  assumes ok: "file_ok f s" and i: "f_indirect f s \<noteq> 0" and P: "dropped (f + 176) (f_indirect f s) s t"
  shows "f_indirect f t = 0" and "m < 1034 \<Longrightarrow> fblk f m t = (if m < 10 then fblk f m s else 0)" and "file_cut f s t"
proof -
  note D = file_okD [OF ok] and Q = droppedD [OF P]
  show i0: "f_indirect f t = 0" using Q(5) by (simp add: f_indirect_def)
  obtain g where g: "unat f = 4 * g" using D(2) by (auto simp: file_place_def)
  have u: "unat (f + 176) = unat f + 176" "unat (f + 128) = unat f + 128" 
    using field_unat [OF D(2), of 176] field_unat [OF D(2), of 128] by simp_all
  have sz: "f_size f t = f_size f s"
    unfolding f_size_def using field_slot_ok [OF D(2), of 128] by (intro dropped_get32 [OF P]) (simp_all add: u g)
  show fb: "fblk f m t = (if m < 10 then fblk f m s else 0)" if m: "m < 1034" for m
  proof (cases "m < 10")
    case True
    have "unat (slot f m s) div 4 \<noteq> unat (f + 176) div 4" using slot_cases(2) [OF ok m] True by (simp add: u g)
    then have "get32 (fmem t) (slot f m s) = get32 (fmem s) (slot f m s)"
      using dropped_get32 [OF P slot_cases(1) [OF ok m]] True by blast
    then show ?thesis using True by (simp add: fblk_def slot_def)
  qed (simp add: fblk_def i0)
  have "file_place f t" by (rule dropped_place [OF P D(2)]) (use D(3) [OF i] in blast)
  then have okt: "file_ok f t"
    unfolding file_ok_def i0 using D(4,5) Q(1) dropped_data [OF P] by (auto simp: fb)
  have pg: "unat (f + 176) div 4096 = unat f div 4096" using field_page [OF D(2), of 176] u by simp
  show "file_cut f s t"
  proof (rule dropped_cut [OF ok okt P sz])
    show "own f s x" if "in_block (f_indirect f s) x" for x using that i by (auto simp: own_def)
    show "own f s x" if "unat x div 4 = unat (f + 176) div 4" for x using own_field [OF D(2), of 176 x] that by simp
    show "\<not> in_block (fblk f n s) (f + 176)" if "n < 1034" "fblk f n s \<noteq> 0" for n
      using D(4) [OF that] page_cong(2) [OF pg] by simp
  qed (use i0 fb in auto)
qed

lemma blocks_for_unat: "unat w \<le> 1034 * 4096 \<Longrightarrow> unat (blocks_for w) = (unat w + 4095) div 4096"
proof -
  assume w: "unat w \<le> 1034 * 4096"
  have u: "unat (w + BLKSIZE - 1) = unat w + 4095" using w by (simp add: BLKSIZE_def unat_word_ariths)
  have "c_sdiv (w + BLKSIZE - 1) BLKSIZE = of_nat ((unat w + 4095) div 4096)"
    using pos_split(1) [of "w + BLKSIZE - 1"] w unfolding u by simp
  moreover have "(unat w + 4095) div 4096 < 4294967296" using w by simp
  ultimately show ?thesis by (simp add: blocks_for_def unat_of_nat)
qed

lemma truncate_ok:
  assumes ok: "file_ok f s" and size: "unat (f_size f s) \<le> 1034 * 4096" and w: "unat w < unat (f_size f s)"
  defines "n \<equiv> (unat w + 4095) div 4096" and "k \<equiv> (unat (f_size f s) + 4095) div 4096"
  shows "\<exists>t. file_truncate_blocks f w s = Inr t \<and> file_cut f s t \<and>
     (\<forall>m < 1034. fblk f m t = (if n \<le> m \<and> m < k \<or> n \<le> 10 \<and> 10 \<le> m then 0 else fblk f m s)) \<and>
     freed ((\<lambda>m. fblk f m s) ` {n..<k} \<union> (if n \<le> 10 then {f_indirect f s} else {}) - {0}) s t"
proof -
  have u: "unat (blocks_for w) = n" "unat (blocks_for (f_size f s)) = k" using blocks_for_unat size w by (simp_all add: n_def k_def)
  have k: "k \<le> 1034" using size by (simp add: k_def)
  have n10: "blocks_for w \<le> NDIRECT \<longleftrightarrow> n \<le> 10" by (simp add: word_le_nat_alt u NDIRECT_def)
  obtain t where t: "free_blocks f (map of_nat [n..<k]) s = Inr t" "file_cut f s t" "f_indirect f t = f_indirect f s"
      "\<forall>m < 1034. fblk f m t = (if n \<le> m \<and> m < k then 0 else fblk f m s)" "freed ((\<lambda>m. fblk f m s) ` {n..<k} - {0}) s t"
    using free_blocks_ok [OF ok k, of n] by blast
  note okt = t(2) [unfolded file_cut_def, THEN conjunct1]
  note D = file_okD [OF okt]
  show ?thesis
  proof (cases "n \<le> 10 \<and> f_indirect f s \<noteq> 0")
    case True
    then have i: "f_indirect f t \<noteq> 0" using t(3) by simp
    have so: "slot_ok (f + 176) t" using field_slot_ok [OF D(2), of 176] by simp
    have pg: "unat (f + 176) div 4096 = unat f div 4096" using field_page [OF D(2), of 176] field_unat [OF D(2), of 176] by simp
    obtain v where v: "free_block (f_indirect f t) t = Inr v" "dropped (f + 176) (f_indirect f t) t (put32 (f + 176) 0 v)"
      using drop_ok [OF D(1) so] D(3) [OF i] page_cong(2) [OF pg] by blast
    note I = indirect_drop [OF okt i v(2)]
    have "file_cut f s (put32 (f + 176) 0 v)" by (rule file_cut_trans [OF t(2) I(3)]) (use I(2) in \<open>auto split: if_splits\<close>)
    moreover have "file_truncate_blocks f w s = Inr (put32 (f + 176) 0 v)"
      using True t(1,3) v(1) by (simp add: file_truncate_blocks_def u n10 Let_def)
    moreover have "freed ((\<lambda>m. fblk f m s) ` {n..<k} \<union> {f_indirect f s} - {0}) s (put32 (f + 176) 0 v)"
      using t(3,5) droppedD(4) [OF v(2)] True by (auto simp: freed_def)
    ultimately show ?thesis using I(2) t(4) True by auto
  next
    case False
    have "fblk f m s = 0" if "n \<le> 10" "10 \<le> m" for m using False that by (simp add: fblk_def)
    then show ?thesis using False t by (auto simp: file_truncate_blocks_def u n10 Let_def freed_def)
  qed
qed

end
