(* ===== verification/FileProps.thy ===== *)
theory FileProps
  imports FileIO
begin

text \<open>
  What the file operations promise: exact writing and reading, truncation, and what an offset
  that the code does not expect does. The disk of the witnesses is \<open>demo_fs\<close>.
\<close>

lemma demo_size: "f_size 0x10001008 demo_fs = 16"
  by (simp add: f_size_def get32_def demo_fs_def demo_mem_def)

lemma demo_zero: "unat a = 268439560 + k \<Longrightarrow> 140 \<le> k \<Longrightarrow> k < 252 \<Longrightarrow> get32 (fmem demo_fs) a = 0"
proof (rule get32_zero)
  fix i assume a: "unat a = 268439560 + k" "140 \<le> k" "k < 252" "i < (4 :: nat)"
  then have "unat (a + of_nat i) = 268439560 + k + i" by (simp add: unat_word_ariths unat_of_nat)
  then show "fmem demo_fs (a + of_nat i) = 0"
    using a by (auto simp: demo_fs_def demo_mem_def word_less_nat_alt)
qed

lemma demo_blocks:
  assumes "n < 1034"
  shows "fblk 0x10001008 n demo_fs = (if n = 0 then 4 else 0)"
proof -
  have i: "f_indirect 0x10001008 demo_fs = 0" unfolding f_indirect_def by (rule demo_zero [where k = 176]) simp_all
  have "unat (0x10001008 + 136 + 4 * of_nat n :: u32) = 268439560 + (136 + 4 * n)" if "n < 10"
    using that by (simp add: unat_word_ariths unat_of_nat)
  then have "get32 (fmem demo_fs) (0x10001008 + 136 + 4 * of_nat n) = 0" if "0 < n" "n < 10"
    by (rule demo_zero) (use that in simp_all)
  moreover have "get32 (fmem demo_fs) 0x10001090 = 4" by (simp add: get32_def demo_fs_def demo_mem_def)
  ultimately show ?thesis by (simp add: fblk_def slot_def f_direct_def i)
qed

lemma demo_file_ok: "file_ok 0x10001008 demo_fs"
proof -
  have i: "f_indirect 0x10001008 demo_fs = 0" unfolding f_indirect_def by (rule demo_zero [where k = 176]) simp_all
  have "\<not> in_block c 0x10001008" if "block_is_free c demo_fs" for c
    using first_blocks [OF demo_fs_ok that] by (auto simp: in_block_def)
  then have "file_place 0x10001008 demo_fs" by (simp add: file_place_def bitmap_addr_def)
  moreover have "data_block demo_fs 4" using demo_free by (simp add: data_block_def bitmap_blocks_def demo_nblocks)
  moreover have "\<not> in_block 4 0x10001008" by (simp add: in_block_def)
  ultimately show ?thesis using demo_fs_ok by (simp add: file_ok_def i demo_blocks)
qed

lemma sint_mono:
  fixes a b :: u32
  assumes "unat a \<le> unat b" and "unat b < 2147483648"
  shows "sint a \<le> sint b"
proof -
  have "sint a = int (unat a)" by (rule sint_small) (use assms in simp)
  moreover have "sint b = int (unat b)" by (rule sint_small [OF assms(2)])
  ultimately show ?thesis using assms(1) by (simp only: of_nat_le_iff)
qed

text \<open>
  C10: Writing is exact. On a well-formed file, \<^verbatim>\<open>file_write\<close> returns the count, extends the size if the
  write ends past it, stores exactly the bytes of the buffer at the offset and leaves every other byte of the
  file, and every file that has no block in common with it, as it was. It fails only when no free block is left; then
  what precedes some position of the request is written.
\<close>

theorem file_write_exact:
  assumes ok: "file_ok f s" and size: "unat (f_size f s) \<le> 1034 * 4096"
    and fits: "unat offset + unat count \<le> 1034 * 4096" and buf: "buf_ok buf (unat count)"
  shows "\<exists>r t k. file_write f buf count offset s = Inr (r, t) \<and> file_ok f t \<and>
     unat (f_size f t) = max (unat (f_size f s)) (unat offset + unat count) \<and>
     unat offset \<le> k \<and> k \<le> unat offset + unat count \<and>
     (\<forall>q. q div 4096 < 1034 \<longrightarrow>
        fbyte f q t = (if unat offset \<le> q \<and> q < k then fmem s (buf + of_nat (q - unat offset)) else fbyte f q s)) \<and>
     (\<forall>g. file_ok g s \<and> separate f g s \<longrightarrow> same_file g s t) \<and>
     (r = int (unat count) \<and> k = unat offset + unat count \<or> r = - E_NO_DISK \<and> (\<forall>b. \<not> block_is_free b t))"
proof -
  let ?l = "offset + count"
  have l: "unat ?l = unat offset + unat count" using fits by (simp add: unat_word_ariths)
  have sc: "sint count = int (unat count)" using fits by (intro sint_small) simp
  have "\<exists>s1. (if ?l > f_size f s then file_set_size f ?l s else Inr (0, s)) = Inr (0, s1) \<and> file_step f s s1 \<and>
      unat (f_size f s1) = max (unat (f_size f s)) (unat offset + unat count) \<and> (\<forall>q. q div 4096 < 1034 \<longrightarrow> fbyte f q s1 = fbyte f q s)"
  proof (cases "?l > f_size f s")
    case True
    have "sint (f_size f s) \<le> sint ?l" by (rule sint_mono) (use True l fits in \<open>simp_all add: word_less_nat_alt\<close>)
    from set_size_extends [OF ok this] show ?thesis using True l by (auto simp: word_less_nat_alt)
  next
    case False
    then show ?thesis using file_step_refl [OF ok] l by (auto simp: word_less_nat_alt)
  qed
  then obtain s1 where s1: "(if ?l > f_size f s then file_set_size f ?l s else Inr (0, s)) = Inr (0, s1)" "file_step f s s1"
      "unat (f_size f s1) = max (unat (f_size f s)) (unat offset + unat count)" "\<forall>q. q div 4096 < 1034 \<longrightarrow> fbyte f q s1 = fbyte f q s" by blast
  have le: "offset \<le> ?l" "unat ?l \<le> 1034 * 4096" "buf_ok buf (unat ?l - unat offset)"
    using l fits buf by (simp_all add: word_le_nat_alt)
  obtain r t k where w: "write_loop f buf offset ?l s1 = Inr (r, t)" "wrote f buf (unat offset) k s1 t" "unat offset \<le> k" "k \<le> unat ?l"
      "r = 0 \<and> k = unat ?l \<or> r = - E_NO_DISK \<and> (\<forall>b. \<not> block_is_free b t)"
    using write_loop_ok [OF file_stepD(1) [OF s1(2)] le] by blast
  have st: "file_step f s t" using file_step_trans [OF s1(2)] w(2) by (simp add: wrote_def)
  have b: "fmem s1 (buf + of_nat (q - unat offset)) = fmem s (buf + of_nat (q - unat offset))" if "unat offset \<le> q" "q < k" for q
    by (rule step_buffer [OF ok s1(2) buf]) (use that w(4) l in simp)
  have "file_write f buf count offset s = Inr (if r < 0 then r else int (unat count), t)"
    using s1(1) w(1) sc by (simp add: file_write_def)
  moreover have "fbyte f q t = (if unat offset \<le> q \<and> q < k then fmem s (buf + of_nat (q - unat offset)) else fbyte f q s)"
    if "q div 4096 < 1034" for q
    using w(2) that b s1(4) by (auto simp: wrote_def)
  moreover have "unat (f_size f t) = max (unat (f_size f s)) (unat offset + unat count)" using w(2) s1(3) by (simp add: wrote_def)
  moreover have "\<forall>g. file_ok g s \<and> separate f g s \<longrightarrow> same_file g s t" using step_other [OF _ _ st] by blast
  ultimately show ?thesis
    using file_stepD(1) [OF st] w(3-5) l E_NO_DISK_def by (intro exI [of _ "if r < 0 then r else int (unat count)"] exI [of _ t] exI [of _ k]) auto
qed

theorem file_write_exact_witness:
  "\<exists>r t k. file_write 0x10001008 0x1000 3 5 demo_fs = Inr (r, t) \<and> file_ok 0x10001008 t \<and> k \<le> 8 \<and>
     (\<forall>q. q div 4096 < 1034 \<longrightarrow> fbyte 0x10001008 q t =
        (if 5 \<le> q \<and> q < k then fmem demo_fs (0x1000 + of_nat (q - 5)) else fbyte 0x10001008 q demo_fs)) \<and>
     (r = 3 \<and> k = 8 \<or> r = - E_NO_DISK \<and> (\<forall>b. \<not> block_is_free b t))"
proof -
  have z: "unat (f_size 0x10001008 demo_fs) \<le> 1034 * 4096" by (simp add: demo_size)
  have u: "unat (5 :: u32) = 5" "unat (3 :: u32) = 3" "5 + 3 = (8 :: nat)" "int 3 = 3" by simp_all
  have "unat (5 :: u32) + unat (3 :: u32) \<le> 1034 * 4096" "buf_ok 0x1000 (unat (3 :: u32))" by (simp_all add: buf_ok_def)
  from file_write_exact [OF demo_file_ok z this] show ?thesis unfolding u by blast
qed

text \<open>
  C11: Reading is exact. On a well-formed file, \<^verbatim>\<open>file_read\<close> returns the number of bytes between the
  offset and the end of the file, at most the count, has put exactly these bytes of the file into
  the buffer and leaves the contents of the file, the memory around the buffer and every separate file as they were. It fails
  only when it meets a hole and no free block is left.
\<close>

theorem file_read_exact:
  assumes ok: "file_ok f s" and size: "unat (f_size f s) \<le> 1034 * 4096"
    and off: "unat offset < 2147483648" and buf: "buf_ok buf (unat count)"
  shows "\<exists>r t k. file_read f buf count offset s = Inr (r, t) \<and>
     file_reads f buf (min (unat count) (unat (f_size f s) - unat offset)) s t \<and>
     k \<le> min (unat count) (unat (f_size f s) - unat offset) \<and>
     (\<forall>i < k. fmem t (buf + of_nat i) = fbyte f (unat offset + i) s) \<and>
     (r = int k \<and> k = min (unat count) (unat (f_size f s) - unat offset) \<or>
      r = - E_NO_DISK \<and> (\<forall>b. \<not> block_is_free b t))"
proof -
  have "sint offset = int (unat offset)" "sint (f_size f s) = int (unat (f_size f s))"
    by (rule sint_small, use off in simp, rule sint_small, use size in simp)
  then have e: "sint offset \<ge> sint (f_size f s) \<longleftrightarrow> unat (f_size f s) \<le> unat offset" by (simp only: of_nat_le_iff)
  let ?c = "min count (f_size f s - offset)"
  let ?n = "min (unat count) (unat (f_size f s) - unat offset)"
  show ?thesis
  proof (cases "unat (f_size f s) \<le> unat offset")
    case True
    then show ?thesis
      using keeps_reads [OF file_keeps_refl [OF ok]] by (intro exI [of _ 0] exI [of _ s]) (simp add: file_read_def e)
  next
    case False
    have "unat (f_size f s - offset) = unat (f_size f s) - unat offset"
      using False by (intro unat_sub) (simp add: word_le_nat_alt)
    then have c: "unat ?c = ?n" by (simp add: min_def word_le_nat_alt)
    have small: "?n < 2147483648" using size by linarith
    have l: "unat (offset + ?c) = unat offset + ?n" using c False size by (simp add: unat_word_ariths)
    have sc: "sint ?c = int ?n" using sint_small [of ?c] small unfolding c by blast
    have "buf_ok buf ?n" using buf by (auto simp: buf_ok_def)
    then have "offset \<le> offset + ?c" "unat (offset + ?c) \<le> 1034 * 4096" "buf_ok buf (unat (offset + ?c) - unat offset)"
      using l False size by (simp_all add: word_le_nat_alt)
    from read_loop_ok [OF ok this] obtain r t k where R: "read_loop f buf offset (offset + ?c) s = Inr (r, t)"
        "file_reads f buf ?n s t" "unat offset \<le> k" "k \<le> unat offset + ?n"
        "\<forall>i < k - unat offset. fmem t (buf + of_nat i) = fbyte f (unat offset + i) s"
        "r = 0 \<and> k = unat offset + ?n \<or> r = - E_NO_DISK \<and> (\<forall>b. \<not> block_is_free b t)" unfolding l by auto
    have "file_read f buf count offset s = Inr (if r < 0 then r else int ?n, t)"
      using False R(1) sc by (simp add: file_read_def Let_def e)
    then show ?thesis
      using R(2-6) E_NO_DISK_def
      by (intro exI [of _ "if r < 0 then r else int ?n"] exI [of _ t] exI [of _ "k - unat offset"]) auto
  qed
qed

theorem file_read_exact_witness:
  "\<exists>r t k. file_read 0x10001008 0x1000 100 0 demo_fs = Inr (r, t) \<and> k \<le> 16 \<and>
     (\<forall>i < k. fmem t (0x1000 + of_nat i) = fbyte 0x10001008 (0 + i) demo_fs) \<and>
     (r = int k \<and> k = 16 \<or> r = - E_NO_DISK \<and> (\<forall>b. \<not> block_is_free b t))"
proof -
  have z: "unat (f_size 0x10001008 demo_fs) \<le> 1034 * 4096" by (simp add: demo_size)
  have u: "unat (0 :: u32) = 0" "min (unat (100 :: u32)) (unat (f_size 0x10001008 demo_fs) - 0) = 16" by (simp_all add: demo_size)
  have "unat (0 :: u32) < 2147483648" "buf_ok 0x1000 (unat (100 :: u32))" by (simp_all add: buf_ok_def)
  from file_read_exact [OF demo_file_ok z this] show ?thesis unfolding u by blast
qed

text \<open>
  A negative offset reads another block. The offset of an open file is in a page that the client
  shares, and the client's \<^verbatim>\<open>seek\<close> stores any value there. With an offset between -4095 and -1 the division
  rounds to block 0 and the remainder is negative, so \<^verbatim>\<open>file_read\<close> returns the bytes that
  precede the first block of the file on the disk.
\<close>

theorem file_read_negative_offset:
  assumes ok: "file_ok f s" and size: "unat (f_size f s) \<le> 1034 * 4096" and b: "fblk f 0 s \<noteq> 0"
    and n: "0 < n" "n < k" "k < 4096" and buf: "buf_ok buf n"
  shows "\<exists>t. file_read f buf (of_nat n) (- of_nat k) s = Inr (int n, t) \<and>
     (\<forall>i < n. fmem t (buf + of_nat i) = fmem s (DISKMAP + (fblk f 0 s - 1) * BLKSIZE + of_nat (4096 - k + i)))"
proof -
  define ofs :: u32 where "ofs = - of_nat k"
  let ?a = "DISKMAP + fblk f 0 s * BLKSIZE"
  note D = file_okD [OF ok]
  have so: "sint ofs = - int k" 
  proof -
    have "ofs = word_of_int (- int k)" by (simp add: ofs_def)
    then show ?thesis using n by (simp only:) (rule sint_of_int_small, simp_all)
  qed
  have dv: "c_sdiv ofs BLKSIZE = 0" "c_smod ofs BLKSIZE = ofs"
    using n unfolding c_sdiv_def c_smod_def so by (simp_all add: BLKSIZE_def ofs_def)
  have ge: "sint (f_size f s) = int (unat (f_size f s))" by (rule sint_small) (use size in simp)
  have neg: "\<not> sint (f_size f s) \<le> sint ofs" using n unfolding ge so by linarith
  have "ofs = of_nat (4294967296 - k)" using n by (simp add: ofs_def of_nat_diff)
  then have uo: "unat ofs = 4294967296 - k" using n by (simp only: unat_of_nat) simp
  have ul: "unat (ofs + of_nat n) = 4294967296 - k + n" using n uo by (simp add: unat_word_ariths unat_of_nat)
  have un: "unat (of_nat n :: u32) = n" using n by (simp add: unat_of_nat)
  have "unat (f_size f s - ofs) = unat (f_size f s) + k" using size n by (simp add: ofs_def unat_word_ariths unat_of_nat)
  then have c: "min (of_nat n) (f_size f s - ofs) = of_nat n" using n by (simp add: min_def word_le_nat_alt un)
  have "unat (BLKSIZE - ofs) = 4096 + k" using n by (simp add: ofs_def unat_word_ariths unat_of_nat BLKSIZE_def)
  then have ch: "chunk ofs (ofs + of_nat n) = of_nat n" using n unfolding chunk_def dv by (simp add: min_def word_le_nat_alt un)
  have "\<not> s_nblocks s \<le> fblk f 0 s" using D(4) [OF _ b] by (simp add: data_block_def not_le)
  then have g: "file_get_block f 0 s = Inr (0, Some ?a, s)"
    using b by (simp add: file_get_block_def file_block_walk_def jos_const fblk_def slot_def diskaddr_def) 
  let ?t = "touch buf n (s\<lparr>fmem := memmove buf (?a + ofs) n (fmem s)\<rparr>)"
  have "read_loop f buf ofs (ofs + of_nat n) s = Inr (0, ?t)"
    by (subst read_loop.simps, subst read_loop.simps) (use n uo ul in \<open>simp add: word_less_nat_alt dv g ch un Let_def\<close>)
  moreover have "sint (of_nat n :: u32) = int n" using n sint_small [of "of_nat n"] by (simp add: un)
  ultimately have r: "file_read f buf (of_nat n) ofs s = Inr (int n, ?t)"
    using neg c by (simp add: file_read_def Let_def)
  have "fblk f 0 s < s_nblocks s" using D(4) [OF _ b] by (simp add: data_block_def)
  note A = block_addr [OF D(1) this]
  have uk: "unat (of_nat k :: u32) = k" using n by (simp add: unat_of_nat)
  have "?a + ofs = ?a - of_nat k" by (simp add: ofs_def)
  also have "unat \<dots> = unat ?a - k" using A n uk by (subst unat_sub) (simp_all add: word_le_nat_alt)
  finally have "unat (?a + ofs) = unat ?a - k" .
  then have "unat (?a + ofs) + n < 2 ^ 32"
    using A n fs_okD(4) [OF D(1)] \<open>fblk f 0 s < s_nblocks s\<close> by (simp add: word_less_nat_alt)
  then have m: "fmem ?t = copied buf (?a + ofs) n (fmem s)" using memmove_copied [of buf n "?a + ofs"] buf by (simp add: buf_ok_def)
  have "fmem ?t (buf + of_nat i) = fmem s (DISKMAP + (fblk f 0 s - 1) * BLKSIZE + of_nat (4096 - k + i))" if "i < n" for i
  proof -
    have "in_range buf n (buf + of_nat i)" using buf_unat [OF buf that] that by (simp add: in_range_def)
    then have "fmem ?t (buf + of_nat i) = fmem s (?a + ofs + of_nat i)" unfolding m copied_def by simp
    moreover have "?a + ofs + of_nat i = DISKMAP + (fblk f 0 s - 1) * BLKSIZE + of_nat (4096 - k + i)"
      using n by (simp add: ofs_def of_nat_diff algebra_simps) (simp add: BLKSIZE_def)
    ultimately show ?thesis by (simp only:)
  qed
  then show ?thesis using r unfolding ofs_def by blast
qed

theorem file_read_negative_offset_witness:
  "\<exists>t. file_read 0x10001008 0x1000 1 (- 2) demo_fs = Inr (1, t) \<and> fmem t 0x1000 = fmem demo_fs 0x10003FFE"
proof -
  have z: "unat (f_size 0x10001008 demo_fs) \<le> 1034 * 4096" "fblk 0x10001008 0 demo_fs \<noteq> 0" "buf_ok 0x1000 1"
    by (simp_all add: demo_size demo_blocks buf_ok_def)
  have "\<exists>t. file_read 0x10001008 0x1000 (of_nat 1) (- of_nat 2) demo_fs = Inr (int 1, t) \<and>
     (\<forall>i < 1. fmem t (0x1000 + of_nat i) =
        fmem demo_fs (DISKMAP + (fblk 0x10001008 0 demo_fs - 1) * BLKSIZE + of_nat (4096 - 2 + i)))"
    by (rule file_read_negative_offset [OF demo_file_ok z(1,2) _ _ _ z(3)]) simp_all
  then show ?thesis by (simp add: demo_blocks jos_const)
qed

text \<open>
  C21: Truncation. Setting a smaller size frees exactly the blocks past the new end, and the indirect block when
  no more than the direct blocks are left. The blocks that stay keep all their bytes, also those of the last block past
  the new size. No other file changes.
\<close>

theorem file_set_size_truncates:
  fixes n :: nat
  assumes ok: "file_ok f s" and size: "unat (f_size f s) \<le> 1034 * 4096" and w: "unat w < unat (f_size f s)"
    and tail: "\<forall>m < 1034. unat (f_size f s) \<le> 4096 * m \<longrightarrow> fblk f m s = 0"
  defines "n \<equiv> (unat w + 4095) div 4096"
  shows "\<exists>t. file_set_size f w s = Inr (0, t) \<and> file_ok f t \<and> f_size f t = w \<and>
     (\<forall>m < 1034. n \<le> m \<longrightarrow> fblk f m t = 0) \<and> (\<forall>q < 4096 * n. fbyte f q t = fbyte f q s) \<and>
     freed ((\<lambda>m. fblk f m s) ` {n..<1034} \<union> (if n \<le> 10 then {f_indirect f s} else {}) - {0}) s t \<and>
     (\<forall>g. file_ok g s \<and> separate f g s \<longrightarrow> same_file g s t)"
proof -
  let ?k = "(unat (f_size f s) + 4095) div 4096"
  have nk: "n \<le> ?k" "?k \<le> 1034" using w size by (simp_all add: n_def div_le_mono)
  have zero: "fblk f m s = 0" if "m < 1034" "?k \<le> m" for m
  proof -
    have "unat (f_size f s) \<le> 4096 * ?k" by linarith
    then have "unat (f_size f s) \<le> 4096 * m" using that(2) by (meson le_trans mult_le_mono2)
    then show ?thesis using tail that(1) by blast
  qed
  obtain u where u: "file_truncate_blocks f w s = Inr u" "file_cut f s u"
      "\<forall>m < 1034. fblk f m u = (if n \<le> m \<and> m < ?k \<or> n \<le> 10 \<and> 10 \<le> m then 0 else fblk f m s)"
      "freed ((\<lambda>m. fblk f m s) ` {n..<?k} \<union> (if n \<le> 10 then {f_indirect f s} else {}) - {0}) s u"
    using truncate_ok [OF ok size w] unfolding n_def by blast
  have im: "(\<lambda>m. fblk f m s) ` {n..<?k} - {0} = (\<lambda>m. fblk f m s) ` {n..<1034} - {0}" using nk zero by force
  have oku: "file_ok f u" using u(2) by (simp add: file_cut_def)
  let ?p = "put32 (f + 128) w u"
  obtain d e where fl: "flush_block f ?p = Inr (?p\<lparr>fdisk := d, fdirty := e\<rparr>)"
    using flush_file [OF file_okD(2) [OF oku]] by blast
  let ?t = "?p\<lparr>fdisk := d, fdirty := e\<rparr>"
  have "super ?t = super u" "bitmap ?t = bitmap u" by (simp_all add: put32_def)
  note P = put_size [OF oku _ this, of w, simplified]
  have "sint w < sint (f_size f s)"
  proof -
    have "sint w = int (unat w)" by (rule sint_small) (use size w in simp)
    moreover have "sint (f_size f s) = int (unat (f_size f s))" by (rule sint_small) (use size in simp)
    ultimately show ?thesis using w by (simp only: of_nat_less_iff)
  qed
  then have run: "file_set_size f w s = Inr (0, ?t)" using u(1) fl by (simp add: file_set_size_def)
  have z: "fblk f m ?t = 0" if "m < 1034" "n \<le> m" for m
    using P(4) [OF that(1)] u(3) that zero [OF that(1)] by (auto simp: not_less)
  have kept: "fbyte f q ?t = fbyte f q s" if q: "q < 4096 * n" for q
  proof -
    have m: "q div 4096 < n" "q div 4096 < 1034" using q nk by (auto simp: div_less_iff_less_mult)
    have e: "fblk f (q div 4096) u = fblk f (q div 4096) s" using u(3) m by auto
    show ?thesis using P(5) [OF m(2)] u(2) m(2) e by (cases "fblk f (q div 4096) u = 0") (auto simp: file_cut_def fbyte_def)
  qed
  have "freed ((\<lambda>m. fblk f m s) ` {n..<1034} \<union> (if n \<le> 10 then {f_indirect f s} else {}) - {0}) s ?t"
    using u(4) P(6) im unfolding freed_def by (auto simp: Un_Diff)
  moreover have "same_file g s ?t" if "file_ok g s" "separate f g s" for g
  proof (rule own_same [OF that(1)])
    fix x assume "own g s x"
    then have "\<not> touched f s x" using that(2) own_place [OF that(1)] by (auto simp: touched_def separate_def)
    then have "fmem u x = fmem s x" "\<not> touched f u x" using u(2) by (auto simp: file_cut_def)
    then show "fmem ?t x = fmem s x" using file_stepD(2) [OF P(1)] by simp
  qed
  ultimately show ?thesis using run file_stepD(1) [OF P(1)] P(2) z kept by blast
qed

theorem file_set_size_truncates_witness:
  "\<exists>t. file_set_size 0x10001008 0 demo_fs = Inr (0, t) \<and> f_size 0x10001008 t = 0 \<and> block_is_free 4 t \<and> \<not> block_is_free 4 demo_fs"
proof -
  have h: "unat (f_size 0x10001008 demo_fs) \<le> 1034 * 4096" "unat (0 :: u32) < unat (f_size 0x10001008 demo_fs)"
    "\<forall>m < 1034. unat (f_size 0x10001008 demo_fs) \<le> 4096 * m \<longrightarrow> fblk 0x10001008 m demo_fs = 0"
    by (simp_all add: demo_size demo_blocks)
  have "(\<lambda>m. fblk 0x10001008 m demo_fs) 0 \<in> (\<lambda>m. fblk 0x10001008 m demo_fs) ` {0..<1034}" by (rule imageI) simp
  then have "4 \<in> (\<lambda>m. fblk 0x10001008 m demo_fs) ` {0..<1034}" by (simp add: demo_blocks)
  then show ?thesis using file_set_size_truncates [OF demo_file_ok h] demo_free(4) unfolding freed_def by auto
qed

end
