(* ===== verification/FsServe.thy ===== *)
theory FsServe
  imports FileProps
begin

text \<open>
  The file server's requests (\<^verbatim>\<open>fs/serv.c\<close>): the table of open files and the handler of every request. The
  request page is at \<open>fsreq\<close> and the \<^verbatim>\<open>struct Fd\<close> page of open file \<open>i\<close> at \<open>o_fd\<close>, both in the server's
  memory \<open>fmem\<close>; the client shares these pages. How many environments map an \<^verbatim>\<open>Fd\<close> page is in \<open>fdrefs\<close>,
  by address (\<^verbatim>\<open>pageref\<close>), and \<open>spages\<close> is the number of pages the kernel can still give.
\<close>

section \<open>State\<close>

record openfile =
  o_fileid :: u32
  o_file :: u32
  o_mode :: u32
  o_fd :: u32

record srv =
  sfs :: fs
  opentab :: "nat \<Rightarrow> openfile"
  fdrefs :: "u32 \<Rightarrow> nat"
  spages :: nat

definition MAXOPEN :: nat where "MAXOPEN = 1024"
definition FILEVA :: u32 where "FILEVA = 0xD0000000"
definition fsreq :: u32 where "fsreq = 0x0FFFF000"

definition O_ACCMODE :: u32 where "O_ACCMODE = 3"
definition O_CREAT :: u32 where "O_CREAT = 0x100"
definition O_TRUNC :: u32 where "O_TRUNC = 0x200"
definition O_EXCL :: u32 where "O_EXCL = 0x400"

definition PTE_SHARE :: u32 where "PTE_SHARE = 0x400"

datatype fsreq_code = FSREQ_OPEN | FSREQ_SET_SIZE | FSREQ_READ | FSREQ_WRITE | FSREQ_STAT | FSREQ_FLUSH | FSREQ_REMOVE | FSREQ_SYNC

definition fsreq_of :: "u32 \<Rightarrow> fsreq_code option" where
  "fsreq_of n = map_of [(1, FSREQ_OPEN), (2, FSREQ_SET_SIZE), (3, FSREQ_READ), (4, FSREQ_WRITE), (5, FSREQ_STAT),
     (6, FSREQ_FLUSH), (7, FSREQ_REMOVE), (8, FSREQ_SYNC)] n"

text \<open>Fields of the request page and of a \<^verbatim>\<open>struct Fd\<close>.\<close>

definition field :: "u32 \<Rightarrow> u32 \<Rightarrow> srv \<Rightarrow> u32" where
  "field base ofs s = get32 (fmem (sfs s)) (base + ofs)"

definition set_field :: "u32 \<Rightarrow> u32 \<Rightarrow> u32 \<Rightarrow> srv \<Rightarrow> srv" where
  "set_field base ofs w s = s\<lparr>sfs := put32 (base + ofs) w (sfs s)\<rparr>"

section \<open>Open files\<close>

definition serve_init :: "srv \<Rightarrow> srv" where
  "serve_init s =
     s\<lparr>opentab := (\<lambda>i. if i < MAXOPEN
        then (opentab s i)\<lparr>o_fileid := of_nat i, o_fd := FILEVA + of_nat i * PGSIZE\<rparr> else opentab s i)\<rparr>"

primrec openfile_scan :: "nat list \<Rightarrow> srv \<Rightarrow> int \<times> nat option \<times> srv" where
  "openfile_scan [] s = (- E_MAX_OPEN, None, s)"
| "openfile_scan (i # is) s =
     (let fd = o_fd (opentab s i);
          take = (\<lambda>s. let id = o_fileid (opentab s i) + of_nat MAXOPEN in
             (sint id, Some i,
              s\<lparr>opentab := (opentab s)(i := (opentab s i)\<lparr>o_fileid := id\<rparr>),
                sfs := touch fd 4096 ((sfs s)\<lparr>fmem := memset fd 0 4096 (fmem (sfs s))\<rparr>)\<rparr>)) in
      if fdrefs s fd = 0
      then if spages s = 0 then (- E_NO_MEM, None, s)
           else take (s\<lparr>fdrefs := (fdrefs s)(fd := 1), spages := spages s - 1\<rparr>)
      else if fdrefs s fd = 1 then take s
      else openfile_scan is s)"

definition openfile_alloc :: "srv \<Rightarrow> int \<times> nat option \<times> srv" where
  "openfile_alloc s = openfile_scan [0..<MAXOPEN] s"

definition openfile_lookup :: "u32 \<Rightarrow> srv \<Rightarrow> nat option" where
  "openfile_lookup fileid s =
     (let i = unat fileid mod MAXOPEN; o' = opentab s i in
      if fdrefs s (o_fd o') \<le> 1 \<or> o_fileid o' \<noteq> fileid then None else Some i)"

section \<open>Handlers\<close>

text \<open>
  The path of an open request: at most \<open>MAXPATHLEN - 1\<close> bytes, up to the first zero. The result of
  \<^verbatim>\<open>serve_open\<close> is its code and, on success, the page to share.
\<close>

definition req_path :: "srv \<Rightarrow> u8 list" where
  "req_path s = takeWhile (\<lambda>b. b \<noteq> 0) (map (\<lambda>i. fmem (sfs s) (fsreq + of_nat i)) [0..<MAXPATHLEN - 1])"

definition serve_open :: "srv \<Rightarrow> (int \<times> u32 option \<times> srv) exec" where
  "serve_open s =
     (let path = req_path s; omode = field fsreq 1024 s;
          try_open = (\<lambda>fs. file_open path fs);
          (r, oi, s1) = openfile_alloc s in
      case oi of
        None \<Rightarrow> Inr (r, None, s1)
      | Some i \<Rightarrow>
          if r < 0 then Inr (r, None, s1)
          else
            bindE (if omode AND O_CREAT \<noteq> 0
                   then bindE (file_create path (sfs s1)) (\<lambda>(r, f, fs).
                          case f of
                            None \<Rightarrow> if omode AND O_EXCL = 0 \<and> r = - E_FILE_EXISTS then try_open fs else Inr (r, 0, fs)
                          | Some f \<Rightarrow> Inr (r, f, fs))
                   else try_open (sfs s1)) (\<lambda>(r, f, fs1).
            if r < 0 then Inr (r, None, s1\<lparr>sfs := fs1\<rparr>)
            else bindE (if omode AND O_TRUNC \<noteq> 0 then file_set_size f 0 fs1 else Inr (0, fs1)) (\<lambda>(r, fs2).
              if r < 0 then Inr (r, None, s1\<lparr>sfs := fs2\<rparr>)
              else bindE (file_open path fs2) (\<lambda>(r, f, fs3).
                if r < 0 then Inr (r, None, s1\<lparr>sfs := fs3\<rparr>)
                else
                  let o' = opentab s1 i; fd = o_fd o';
                      s2 = s1\<lparr>sfs := fs3, opentab := (opentab s1)(i := o'\<lparr>o_file := f, o_mode := omode\<rparr>)\<rparr>;
                      s3 = set_field fd 12 (o_fileid o') s2;
                      s4 = set_field fd 8 (omode AND O_ACCMODE) s3;
                      s5 = set_field fd 0 102 s4 in
                  Inr (0, Some fd, s5)))))"

text \<open>The other handlers look the open file up first.\<close>

definition with_file :: "u32 \<Rightarrow> (openfile \<Rightarrow> srv \<Rightarrow> (int \<times> srv) exec) \<Rightarrow> srv \<Rightarrow> (int \<times> srv) exec" where
  "with_file fileid act s =
     (case openfile_lookup fileid s of None \<Rightarrow> Inr (- E_INVAL, s) | Some i \<Rightarrow> act (opentab s i) s)"

definition on_fs :: "(fs \<Rightarrow> (int \<times> fs) exec) \<Rightarrow> srv \<Rightarrow> (int \<times> srv) exec" where
  "on_fs act s = bindE (act (sfs s)) (\<lambda>(r, fs). Inr (r, s\<lparr>sfs := fs\<rparr>))"

definition serve_set_size :: "srv \<Rightarrow> (int \<times> srv) exec" where
  "serve_set_size s =
     with_file (field fsreq 0 s) (\<lambda>o' s. on_fs (file_set_size (o_file o') (field fsreq 4 s)) s) s"

definition serve_read :: "srv \<Rightarrow> (int \<times> srv) exec" where
  "serve_read s =
     with_file (field fsreq 0 s) (\<lambda>o' s.
       bindE (on_fs (file_read (o_file o') fsreq (field fsreq 4 s) (field (o_fd o') 4 s)) s) (\<lambda>(r, s1).
         if r < 0 then Inr (r, s1)
         else Inr (r, set_field (o_fd o') 4 (field (o_fd o') 4 s1 + word_of_int r) s1))) s"

definition serve_write :: "srv \<Rightarrow> (int \<times> srv) exec" where
  "serve_write s =
     with_file (field fsreq 0 s) (\<lambda>o' s.
       bindE (on_fs (file_write (o_file o') (fsreq + 8) (field fsreq 4 s) (field (o_fd o') 4 s)) s) (\<lambda>(r, s1).
         if r < 0 then Inr (r, s1)
         else Inr (r, set_field (o_fd o') 4 (field (o_fd o') 4 s1 + word_of_int r) s1))) s"

text \<open>A name without an end is copied for ever; that outcome is an \<open>Inl\<close> too.\<close>

definition serve_stat :: "srv \<Rightarrow> (int \<times> srv) exec" where
  "serve_stat s =
     with_file (field fsreq 0 s) (\<lambda>o' s.
       case strcpy fsreq (o_file o') (fmem (sfs s)) of
         None \<Rightarrow> Inl (Panic ''strcpy does not end'')
       | Some m \<Rightarrow>
           let s1 = s\<lparr>sfs := touch fsreq 128 ((sfs s)\<lparr>fmem := m\<rparr>)\<rparr>;
               s2 = set_field fsreq 128 (f_size (o_file o') (sfs s1)) s1;
               s3 = set_field fsreq 132 (if f_type (o_file o') (sfs s2) = FTYPE_DIR then 1 else 0) s2 in
           Inr (0, s3)) s"

definition serve_flush :: "srv \<Rightarrow> (int \<times> srv) exec" where
  "serve_flush s =
     with_file (field fsreq 0 s) (\<lambda>o' s. on_fs (\<lambda>fs. bindE (file_flush (o_file o') fs) (\<lambda>fs1. Inr (0, fs1))) s) s"

definition serve_sync :: "srv \<Rightarrow> (int \<times> srv) exec" where
  "serve_sync s = on_fs (\<lambda>fs. bindE (fs_sync fs) (\<lambda>fs1. Inr (0, fs1))) s"

definition handler :: "fsreq_code \<Rightarrow> (srv \<Rightarrow> (int \<times> srv) exec) option" where
  "handler c =
     (case c of
        FSREQ_READ \<Rightarrow> Some serve_read | FSREQ_STAT \<Rightarrow> Some serve_stat | FSREQ_FLUSH \<Rightarrow> Some serve_flush
      | FSREQ_WRITE \<Rightarrow> Some serve_write | FSREQ_SET_SIZE \<Rightarrow> Some serve_set_size | FSREQ_SYNC \<Rightarrow> Some serve_sync
      | FSREQ_OPEN \<Rightarrow> None | FSREQ_REMOVE \<Rightarrow> None)"

text \<open>
  One round of the loop of \<^verbatim>\<open>serve\<close>: a request with its code and the permissions of its page gives the
  answer that \<^verbatim>\<open>ipc_send\<close> sends (the code, the page and its permissions), or none for a request without a
  page.
\<close>

definition serve_one :: "u32 \<Rightarrow> u32 \<Rightarrow> srv \<Rightarrow> ((int \<times> u32 option \<times> u32) option \<times> srv) exec" where
  "serve_one req perm s =
     (if perm AND PTE_P = 0 then Inr (None, s)
      else case fsreq_of req of
        Some FSREQ_OPEN \<Rightarrow>
          bindE (serve_open s) (\<lambda>(r, pg, s1).
            Inr (Some (r, pg, if pg = None then perm else PTE_P OR PTE_U OR PTE_W OR PTE_SHARE), s1))
      | Some c \<Rightarrow>
          (case handler c of
             Some h \<Rightarrow> bindE (h s) (\<lambda>(r, s1). Inr (Some (r, None, perm), s1))
           | None \<Rightarrow> Inr (Some (- E_INVAL, None, perm), s))
      | None \<Rightarrow> Inr (Some (- E_INVAL, None, perm), s))"

section \<open>File ids\<close>

text \<open>Slot \<open>i\<close> has an id that is \<open>i\<close> modulo \<open>MAXOPEN\<close>, and a page of its own.\<close>

definition opentab_ok :: "srv \<Rightarrow> bool" where
  "opentab_ok s \<longleftrightarrow> (\<forall>i < MAXOPEN. unat (o_fileid (opentab s i)) mod MAXOPEN = i \<and>
     o_fd (opentab s i) = FILEVA + of_nat i * PGSIZE)"

lemma serve_init_ok: "opentab_ok (serve_init s)"
  by (auto simp: opentab_ok_def serve_init_def MAXOPEN_def unat_of_nat)

lemma openfile_scan_ok:
  assumes "openfile_scan is s = (r, Some i, t)"
  shows "i \<in> set is \<and> fdrefs s (o_fd (opentab s i)) \<le> 1 \<and> r = sint (o_fileid (opentab s i) + 1024) \<and>
     o_fileid (opentab t i) = o_fileid (opentab s i) + 1024 \<and> o_fd (opentab t i) = o_fd (opentab s i) \<and>
     (\<forall>j. j \<noteq> i \<longrightarrow> opentab t j = opentab s j) \<and> (\<forall>a. a \<noteq> o_fd (opentab s i) \<longrightarrow> fdrefs t a = fdrefs s a)"
  using assms by (induction "is") (auto simp: Let_def MAXOPEN_def split: if_splits)

lemma unat_add_1024: "unat (w + 1024 :: u32) mod 1024 = unat w mod 1024"
proof -
  have "unat (w + 1024) mod 1024 = ((unat w + 1024) mod 4294967296) mod 1024" by (simp add: unat_word_ariths)
  also have "\<dots> = (unat w + 1024) mod 1024" by (rule mod_mod_cancel) simp
  finally show ?thesis by simp
qed


definition demo_srv :: srv where
  "demo_srv = serve_init \<lparr>sfs = demo_fs, opentab = (\<lambda>_. \<lparr>o_fileid = 0, o_file = 0x10001008, o_mode = 0, o_fd = 0\<rparr>),
     fdrefs = (\<lambda>_. 1), spages = 0\<rparr>"



text \<open>The file of the example made two pages long, and the request to read it all.\<close>

definition demo_request :: srv where
  "demo_request = demo_srv\<lparr>sfs := put32 (fsreq + 4) 8192 (put32 (0x10001008 + 128) 8192 demo_fs), fdrefs := (\<lambda>_. 2)\<rparr>"


end
