(* ===== verification/Kdebug.thy ===== *)
theory Kdebug
  imports Syscalls StringLib
begin

text \<open>
  Debugging information (\<^verbatim>\<open>kern/kdebug.c\<close>): the binary search in the table of symbols that the linker leaves in the
  kernel and in every program, and the lookup of an instruction address in it. The table is a function from the
  index; indices are the C \<^verbatim>\<open>int\<close>s of the code and stay between 0 and the size of the table.
\<close>

record stab =
  n_strx :: u32
  n_type :: u8
  n_other :: u8
  n_desc :: u16
  n_value :: u32

definition N_FUN :: u8 where "N_FUN = 0x24"
definition N_SLINE :: u8 where "N_SLINE = 0x44"
definition N_SO :: u8 where "N_SO = 0x64"
definition N_SOL :: u8 where "N_SOL = 0x84"
definition N_PSYM :: u8 where "N_PSYM = 0xA0"

section \<open>Binary search\<close>

text \<open>The inner loop: from \<open>m\<close> down to the last entry of the type, not below \<open>l\<close>.\<close>

function scan_down :: "(int \<Rightarrow> stab) \<Rightarrow> u8 \<Rightarrow> int \<Rightarrow> int \<Rightarrow> int" where
  "scan_down stabs ty l m = (if m \<ge> l \<and> n_type (stabs m) \<noteq> ty then scan_down stabs ty l (m - 1) else m)"
  by pat_completeness auto

termination scan_down
  by (relation "measure (\<lambda>(stabs, ty, l, m). nat (m - l + 1))") auto

declare scan_down.simps [simp del]

lemma scan_down_spec:
  "scan_down stabs ty l m \<le> m \<and> (\<forall>i. scan_down stabs ty l m < i \<and> i \<le> m \<longrightarrow> n_type (stabs i) \<noteq> ty) \<and>
   (l \<le> scan_down stabs ty l m \<longrightarrow> n_type (stabs (scan_down stabs ty l m)) = ty) \<and> min (l - 1) m \<le> scan_down stabs ty l m"
proof (induction stabs ty l m rule: scan_down.induct)
  case (1 stabs ty l m)
  show ?case
  proof (cases "m \<ge> l \<and> n_type (stabs m) \<noteq> ty")
    case True
    then have e: "scan_down stabs ty l m = scan_down stabs ty l (m - 1)" by (subst scan_down.simps) simp
    have "n_type (stabs i) \<noteq> ty" if "scan_down stabs ty l (m - 1) < i" "i \<le> m" for i
      using 1 [OF True] that True by (cases "i = m") auto
    then show ?thesis using 1 [OF True] True unfolding e by auto
  next
    case False
    then have "scan_down stabs ty l m = m" by (subst scan_down.simps) auto
    then show ?thesis using False by auto
  qed
qed

text \<open>The main loop on \<open>l\<close>, \<open>r\<close>, the two ends of the region, whether there was a match, and the address.\<close>

function bin_loop :: "(int \<Rightarrow> stab) \<Rightarrow> u8 \<Rightarrow> int \<Rightarrow> int \<Rightarrow> int \<Rightarrow> int \<Rightarrow> bool \<Rightarrow> u32 \<Rightarrow> int \<times> int \<times> bool" where
  "bin_loop stabs ty l r left right any addr =
     (if l \<le> r then
        let true_m = (l + r) div 2; m = scan_down stabs ty l true_m in
        if m < l then bin_loop stabs ty (true_m + 1) r left right any addr
        else if n_value (stabs m) < addr then bin_loop stabs ty (true_m + 1) r m right True addr
        else if n_value (stabs m) > addr then bin_loop stabs ty l (m - 1) left (m - 1) True addr
        else bin_loop stabs ty m r m right True (addr + 1)
      else (left, right, any))"
  by pat_completeness auto

definition bin_measure :: "(int \<Rightarrow> stab) \<Rightarrow> u8 \<Rightarrow> int \<Rightarrow> int \<Rightarrow> u32 \<Rightarrow> nat" where
  "bin_measure stabs ty l r addr = 2 * nat (r - l + 1) + (if n_type (stabs l) = ty \<and> n_value (stabs l) = addr then 1 else 0)"

lemma bin_measure_less: "l \<le> r \<Longrightarrow> l < l' \<Longrightarrow> r' \<le> r \<Longrightarrow> bin_measure stabs ty l' r' addr' < bin_measure stabs ty l r addr"
  by (auto simp: bin_measure_def)

termination bin_loop
proof (relation "measure (\<lambda>(stabs, ty, l, r, left, right, any, addr). bin_measure stabs ty l r addr)", goal_cases)
  case 1
  then show ?case by simp
next
  case (2 stabs ty l r left right any addr tm m)
  then show ?case by (simp add: bin_measure_less)
next
  case (3 stabs ty l r left right any addr tm m)
  then show ?case by (simp add: bin_measure_less)
next
  case (4 stabs ty l r left right any addr tm m)
  then show ?case using scan_down_spec [of stabs ty l tm] by (auto simp: bin_measure_def)
next
  case (5 stabs ty l r left right any addr tm m)
  then have "n_type (stabs m) = ty" "n_value (stabs m) = addr" using scan_down_spec [of stabs ty l tm] by auto
  then show ?case using 5 by (cases "m = l") (auto simp: bin_measure_def)
qed

declare bin_loop.simps [simp del]

text \<open>The last loop finds the entry of the type nearest below the right end, not below the left end.\<close>

definition stab_binsearch :: "(int \<Rightarrow> stab) \<Rightarrow> int \<Rightarrow> int \<Rightarrow> u8 \<Rightarrow> u32 \<Rightarrow> int \<times> int" where
  "stab_binsearch stabs region_left region_right ty addr =
     (let (left, right, any) = bin_loop stabs ty region_left region_right region_left region_right False addr in
      if \<not> any then (left, left - 1) else (scan_down stabs ty (left + 1) right, right))"

section \<open>Looking an address up\<close>

text \<open>
  The memory \<open>m\<close> is what the kernel's loads see under the current page directory. Strings are addresses;
  \<open>None\<close> is the literal \<^verbatim>\<open><unknown>\<close>. The length is \<open>None\<close> where the search for the colon does not end.
\<close>

record eipdebuginfo =
  eip_file :: "u32 option"
  eip_line :: u16
  eip_fn_name :: "u32 option"
  eip_fn_namelen :: "u32 option"
  eip_fn_addr :: u32
  eip_fn_narg :: nat

record stab_tables =
  t_stabs :: u32
  t_stab_end :: u32
  t_stabstr :: u32
  t_stabstr_end :: u32

definition USTABDATA :: u32 where "USTABDATA = PTSIZE div 2"

definition load16 :: "mem \<Rightarrow> u32 \<Rightarrow> u16" where
  "load16 m a = ucast (m a) OR push_bit 8 (ucast (m (a + 1)))"

definition load32 :: "mem \<Rightarrow> u32 \<Rightarrow> u32" where
  "load32 m a = ucast (m a) OR push_bit 8 (ucast (m (a + 1))) OR push_bit 16 (ucast (m (a + 2))) OR push_bit 24 (ucast (m (a + 3)))"

definition stab_at :: "mem \<Rightarrow> u32 \<Rightarrow> int \<Rightarrow> stab" where
  "stab_at m stabs i =
     (let a = stabs + 12 * word_of_int i in
      \<lparr>n_strx = load32 m a, n_type = m (a + 4), n_other = m (a + 5), n_desc = load16 m (a + 6), n_value = load32 m (a + 8)\<rparr>)"

definition user_tables :: "mem \<Rightarrow> stab_tables" where
  "user_tables m = \<lparr>t_stabs = load32 m USTABDATA, t_stab_end = load32 m (USTABDATA + 4),
     t_stabstr = load32 m (USTABDATA + 8), t_stabstr_end = load32 m (USTABDATA + 12)\<rparr>"

text \<open>The check of user memory that comes before each use of it: \<open>k\<close> is the rest of the function, -1 the early return.\<close>

definition checked :: "u32 \<Rightarrow> u32 \<Rightarrow> kstate \<Rightarrow> (kstate \<Rightarrow> (stab_tables option \<times> kstate) exec) \<Rightarrow> (stab_tables option \<times> kstate) exec" where
  "checked va len s k =
     (case curenv s of
        None \<Rightarrow> Inl null_deref
      | Some e \<Rightarrow> (case env_pgdir (envs s e) of
          None \<Rightarrow> Inl null_deref
        | Some d \<Rightarrow> bindE (user_mem_check d va len PTE_U s) (\<lambda>(r, s1). if r \<noteq> 0 then Inr (None, s1) else k s1)))"

definition find_tables :: "stab_tables \<Rightarrow> mem \<Rightarrow> u32 \<Rightarrow> kstate \<Rightarrow> (stab_tables option \<times> kstate) exec" where
  "find_tables kern m addr s =
     (if addr \<ge> ULIM then Inr (Some kern, s)
      else checked USTABDATA 16 s (\<lambda>s1.
        let t = user_tables m in
        checked (t_stabs t) 12 s1 (\<lambda>s2.
        checked (t_stabstr t) (t_stabstr_end t - t_stabstr t) s2 (\<lambda>s3. Inr (Some t, s3)))))"

function file_scan :: "(int \<Rightarrow> stab) \<Rightarrow> int \<Rightarrow> int \<Rightarrow> int" where
  "file_scan stabs lfile lline =
     (if lline \<ge> lfile \<and> n_type (stabs lline) \<noteq> N_SOL \<and> (n_type (stabs lline) \<noteq> N_SO \<or> n_value (stabs lline) = 0)
      then file_scan stabs lfile (lline - 1) else lline)"
  by pat_completeness auto

termination file_scan
  by (relation "measure (\<lambda>(stabs, lfile, lline). nat (lline - lfile + 1))") auto

declare file_scan.simps [simp del]

definition count_args :: "(int \<Rightarrow> stab) \<Rightarrow> int \<Rightarrow> int \<Rightarrow> nat" where
  "count_args stabs lfun rfun =
     (if lfun < rfun then length (takeWhile (\<lambda>i. n_type (stabs i) = N_PSYM) [lfun + 1..rfun - 1]) else 0)"

definition name_len :: "mem \<Rightarrow> u32 option \<Rightarrow> u32 option" where
  "name_len m name = (case name of None \<Rightarrow> Some 9 | Some a \<Rightarrow> map_option (\<lambda>e. e - a) (strfind m a 58))"

text \<open>The lookup in stab_tables that are in reach: \<open>strs\<close> is \<^verbatim>\<open>stabstr\<close>, \<open>n\<close> the length of the string table.\<close>

definition lookup_eip :: "mem \<Rightarrow> (int \<Rightarrow> stab) \<Rightarrow> int \<Rightarrow> u32 \<Rightarrow> u32 \<Rightarrow> u32 \<Rightarrow> eipdebuginfo \<Rightarrow> int \<times> eipdebuginfo" where
  "lookup_eip m stabs nstabs strs n addr info =
     (let name = (\<lambda>i. if n_strx (stabs i) < n then Some (strs + n_strx (stabs i)) else None);
          (lfile, rfile) = stab_binsearch stabs 0 (nstabs - 1) N_SO addr in
      if lfile = 0 then (- 1, info)
      else
        let (lfun, rfun) = stab_binsearch stabs lfile rfile N_FUN addr;
            fn = (if lfun \<le> rfun then name lfun else None);
            info1 = info\<lparr>eip_fn_name := fn, eip_fn_namelen := name_len m fn,
                         eip_fn_addr := (if lfun \<le> rfun then n_value (stabs lfun) else addr)\<rparr>;
            (lline, rline) =
              (if lfun \<le> rfun then stab_binsearch stabs lfun rfun N_SLINE (addr - n_value (stabs lfun))
               else stab_binsearch stabs lfile rfile N_SLINE addr) in
        if lline \<le> rline then
          let f = file_scan stabs lfile lline in
          (0, info1\<lparr>eip_line := n_desc (stabs lline), eip_file := (if f \<ge> lfile then name f else None),
                    eip_fn_narg := count_args stabs lfun rfun\<rparr>)
        else (- 1, info1))"

definition debuginfo_eip :: "stab_tables \<Rightarrow> mem \<Rightarrow> u32 \<Rightarrow> kstate \<Rightarrow> (int \<times> eipdebuginfo \<times> kstate) exec" where
  "debuginfo_eip kern m addr s =
     (let info = \<lparr>eip_file = None, eip_line = 0, eip_fn_name = None, eip_fn_namelen = Some 9, eip_fn_addr = addr, eip_fn_narg = 0\<rparr> in
      bindE (find_tables kern m addr s) (\<lambda>(t, s1).
        case t of
          None \<Rightarrow> Inr (- 1, info, s1)
        | Some t \<Rightarrow>
            if t_stabstr_end t \<le> t_stabstr t \<or> m (t_stabstr_end t - 1) \<noteq> 0 then Inr (- 1, info, s1)
            else
              let (r, info1) = lookup_eip m (stab_at m (t_stabs t)) (sint (t_stab_end t - t_stabs t) div 12) (t_stabstr t)
                    (t_stabstr_end t - t_stabstr t) addr info in
              Inr (r, info1, s1)))"

section \<open>What the search finds\<close>

definition of_type :: "(int \<Rightarrow> stab) \<Rightarrow> u8 \<Rightarrow> int \<Rightarrow> int \<Rightarrow> int set" where
  "of_type stabs ty L R = {i. L \<le> i \<and> i \<le> R \<and> n_type (stabs i) = ty}"

text \<open>
  The invariant of the search for the address \<open>a0\<close>: left of \<open>l\<close> the entries are not above the
  address and \<open>left\<close> is the last of them, right of \<open>r\<close> they are above it. The address
  searched for moves up by one once an exact match is found.
\<close>

definition bin_inv :: "(int \<Rightarrow> stab) \<Rightarrow> u8 \<Rightarrow> int \<Rightarrow> int \<Rightarrow> u32 \<Rightarrow> int \<Rightarrow> int \<Rightarrow> int \<Rightarrow> int \<Rightarrow> bool \<Rightarrow> u32 \<Rightarrow> bool" where
  "bin_inv stabs ty L R a0 l r left right any a \<longleftrightarrow>
     L \<le> l \<and> r \<le> R \<and> right = r \<and>
     (\<forall>i \<in> of_type stabs ty L R. i < l \<longrightarrow> n_value (stabs i) \<le> a0 \<and> i \<le> left) \<and>
     (left = L \<or> left \<in> of_type stabs ty L R \<and> n_value (stabs left) \<le> a0) \<and>
     (\<forall>i \<in> of_type stabs ty L R. r < i \<longrightarrow> a0 < n_value (stabs i)) \<and>
     (r = R \<or> r + 1 \<in> of_type stabs ty L R) \<and> (\<not> any \<longrightarrow> r = R \<and> left = L \<and> (\<forall>i \<in> of_type stabs ty L R. \<not> i < l)) \<and>
     (a = a0 \<or> a = a0 + 1 \<and> (\<exists>i \<in> of_type stabs ty L R. n_value (stabs i) = a0))"

lemma scan_hit:
  assumes "l \<le> r" "m = scan_down stabs ty l ((l + r) div 2)" "\<not> m < l" "L \<le> l" "r \<le> R"
  shows "m \<in> of_type stabs ty L R" "m \<le> (l + r) div 2" "m \<le> r"
    and "\<And>i. i \<in> of_type stabs ty L R \<Longrightarrow> i \<le> (l + r) div 2 \<Longrightarrow> i \<le> m"
proof -
  note d = scan_down_spec [of stabs ty l "(l + r) div 2", folded assms(2)]
  have tm: "(l + r) div 2 \<le> r" using assms(1) by simp
  show "m \<le> (l + r) div 2" "m \<le> r" using d tm by auto
  show "m \<in> of_type stabs ty L R" using d tm assms by (auto simp: of_type_def)
  show "i \<le> m" if "i \<in> of_type stabs ty L R" "i \<le> (l + r) div 2" for i
    using d that unfolding of_type_def by (metis (mono_tags, lifting) mem_Collect_eq not_le)
qed

lemma scan_miss:
  assumes "m = scan_down stabs ty l tm" "m < l" "i \<in> of_type stabs ty L R" "i < tm + 1"
  shows "i < l"
  using scan_down_spec [of stabs ty l tm] assms unfolding of_type_def
  by (metis (mono_tags, lifting) mem_Collect_eq not_le order_le_less_trans zle_add1_eq_le)

lemma word_less_succ: "(a0 :: u32) < a0 + 1 \<Longrightarrow> v < a0 + 1 \<longleftrightarrow> v \<le> a0"
  by (metis inc_le leD not_le order_le_less_trans)

definition searchable :: "(int \<Rightarrow> stab) \<Rightarrow> u8 \<Rightarrow> int \<Rightarrow> int \<Rightarrow> u32 \<Rightarrow> bool" where
  "searchable stabs ty L R a0 \<longleftrightarrow>
     a0 < a0 + 1 \<and>
     (\<forall>i \<in> of_type stabs ty L R. \<forall>j \<in> of_type stabs ty L R. i \<le> j \<longrightarrow> n_value (stabs i) \<le> n_value (stabs j)) \<and>
     (\<forall>i \<in> of_type stabs ty L R. \<forall>j \<in> of_type stabs ty L R. n_value (stabs i) = a0 \<longrightarrow> n_value (stabs j) \<noteq> a0 + 1)"

lemma bin_inv_miss:
  assumes "bin_inv stabs ty L R a0 l r left right any a" "l \<le> r" "m = scan_down stabs ty l ((l + r) div 2)" "m < l"
  shows "bin_inv stabs ty L R a0 ((l + r) div 2 + 1) r left right any a"
  using assms scan_miss [OF assms(3,4), of _ L R] by (auto simp: bin_inv_def)

lemma bin_inv_below:
  assumes inv: "bin_inv stabs ty L R a0 l r left right any a" and s: "searchable stabs ty L R a0"
    and lr: "l \<le> r" and m: "m = scan_down stabs ty l ((l + r) div 2)" "\<not> m < l" and v: "n_value (stabs m) < a"
  shows "bin_inv stabs ty L R a0 ((l + r) div 2 + 1) r m right True a"
proof -
  have b: "L \<le> l" "r \<le> R" using inv by (auto simp: bin_inv_def)
  note h = scan_hit [OF lr m b]
  have le: "n_value (stabs m) \<le> a0"
    using inv v s word_less_succ [of a0] by (auto simp: bin_inv_def searchable_def)
  have "n_value (stabs i) \<le> a0 \<and> i \<le> m" if "i \<in> of_type stabs ty L R" "i < (l + r) div 2 + 1" for i
    using h(1) h(4) [OF that(1)] that s le unfolding searchable_def by (metis order_trans zle_add1_eq_le)
  then show ?thesis using inv h(1) le lr by (auto simp: bin_inv_def)
qed

lemma bin_inv_above:
  assumes inv: "bin_inv stabs ty L R a0 l r left right any a" and s: "searchable stabs ty L R a0"
    and lr: "l \<le> r" and m: "m = scan_down stabs ty l ((l + r) div 2)" "\<not> m < l" and v: "n_value (stabs m) > a"
  shows "bin_inv stabs ty L R a0 l (m - 1) left (m - 1) True a"
proof -
  have b: "L \<le> l" "r \<le> R" using inv by (auto simp: bin_inv_def)
  note h = scan_hit [OF lr m b]
  have le: "a0 < n_value (stabs m)" using inv v s by (auto simp: bin_inv_def searchable_def)
  have "a0 < n_value (stabs i)" if "i \<in> of_type stabs ty L R" "m - 1 < i" for i
    using h(1) that s le unfolding searchable_def by (meson leI le_less_trans less_le_trans zle_diff1_eq not_le)
  then show ?thesis using inv h(1,3) by (auto simp: bin_inv_def)
qed

lemma bin_inv_exact:
  assumes inv: "bin_inv stabs ty L R a0 l r left right any a" and s: "searchable stabs ty L R a0"
    and lr: "l \<le> r" and m: "m = scan_down stabs ty l ((l + r) div 2)" "\<not> m < l" and v: "n_value (stabs m) = a"
  shows "bin_inv stabs ty L R a0 m r m right True (a + 1)"
proof -
  have b: "L \<le> l" "r \<le> R" using inv by (auto simp: bin_inv_def)
  note h = scan_hit [OF lr m b]
  have a: "a = a0" using inv v s h(1) unfolding bin_inv_def searchable_def by metis
  have "n_value (stabs i) \<le> a0" if "i \<in> of_type stabs ty L R" "i < m" for i
    using h(1) that s v a unfolding searchable_def by (metis less_imp_le)
  then show ?thesis using inv h(1) v a b m(2) by (auto simp: bin_inv_def)
qed

lemma bin_loop_inv:
  assumes "bin_inv stabs ty L R a0 l r left right any a" and s: "searchable stabs ty L R a0"
    and "bin_loop stabs ty l r left right any a = (left', right', any')"
  shows "\<exists>l' r' a'. r' < l' \<and> bin_inv stabs ty L R a0 l' r' left' right' any' a'"
  using assms
proof (induction stabs ty l r left right any a rule: bin_loop.induct)
  case (1 stabs ty l r left right any a)
  note run = 1(7) [unfolded bin_loop.simps [of stabs ty l r] Let_def]
  note inv = 1(5) and s = 1(6) and IH = 1(1-4)
  let ?m = "scan_down stabs ty l ((l + r) div 2)"
  consider "\<not> l \<le> r" | "l \<le> r" "?m < l" | "l \<le> r" "\<not> ?m < l" "n_value (stabs ?m) < a"
    | "l \<le> r" "\<not> ?m < l" "n_value (stabs ?m) > a" | "l \<le> r" "\<not> ?m < l" "n_value (stabs ?m) = a" by fastforce
  then show ?case
  proof cases
    case 1
    then show ?thesis using run inv by (intro exI [of _ l] exI [of _ r] exI [of _ a]) simp
  next
    case 2
    then show ?thesis using IH(1) [OF 2(1) refl refl 2(2) bin_inv_miss [OF inv 2(1) refl 2(2)] s] run by simp
  next
    case 3
    then show ?thesis using IH(2) [OF 3(1) refl refl 3(2,3) bin_inv_below [OF inv s 3(1) refl 3(2,3)] s] run by simp
  next
    case 4
    then have n: "\<not> n_value (stabs ?m) < a" by simp
    then show ?thesis
      using 4 IH(3) [OF 4(1) refl refl 4(2) n 4(3) bin_inv_above [OF inv s 4(1) refl 4(2,3)] s] run by simp
  next
    case 5
    then show ?thesis
      using IH(4) [OF 5(1) refl refl 5(2) _ _ bin_inv_exact [OF inv s 5(1) refl 5(2,3)] s] run by simp
  qed
qed


definition demo_stabs :: "int \<Rightarrow> stab" where
  "demo_stabs i = \<lparr>n_strx = 0, n_type = (if i mod 2 = 0 then N_SO else N_FUN), n_other = 0, n_desc = 0, n_value = word_of_int (16 * i)\<rparr>"

lemma demo_of_type: "of_type demo_stabs N_SO 0 5 = {0, 2, 4}"
  by (auto simp: of_type_def demo_stabs_def N_SO_def N_FUN_def)


text \<open>
  Without the gap the search drifts: for the entries 9, 10, 11 and the address 10, after the exact match
  the incremented address matches the next entry, and the search ends there.
\<close>

lemma stab_binsearch_drifts:
  "stab_binsearch (\<lambda>i. \<lparr>n_strx = 0, n_type = N_SLINE, n_other = 0, n_desc = 0, n_value = word_of_int (9 + i)\<rparr>) 0 2 N_SLINE 10 = (2, 2)"
  by (simp add: stab_binsearch_def bin_loop.simps scan_down.simps)

end
