(* ===== verification/Spec2Isabelle.thy ===== *)
theory Spec2Isabelle
  imports Kernel Fairness UserTraps Spinlock BlockCache FsServe Kdebug
begin

text \<open>
  A verification library for JOS, the exokernel-style operating system under \<^verbatim>\<open>src/lab\<close>: a
  kernel with physical page allocation, page tables, environments, a round-robin scheduler,
  system calls and drivers for the console, the screen, the mouse and an E1000 network
  card, and a C library that the kernel and the user programs share.

  \<^bold>\<open>How C becomes HOL.\<close> Integers keep their width (\<open>u8\<close>, \<open>u16\<close>, \<open>u32\<close>, \<open>u64\<close> are words, so
  additions wrap as in the code; a C \<^verbatim>\<open>int\<close> that only carries small values or error codes is an
  \<open>int\<close>). The global variables of the kernel are the fields of the record \<open>kstate\<close> (theory
  \<open>KState\<close>), those of a driver the fields of the driver's record (\<open>console\<close>, \<open>picker\<close>, \<open>mouse\<close>,
  \<open>e1000\<close>); an operation takes the record and returns it changed. Pointers into \<^verbatim>\<open>pages[]\<close>
  and \<^verbatim>\<open>envs[]\<close> are indices, a null pointer is \<open>None\<close>. Physical memory is \<open>pmem\<close>, from
  frames and word offsets to words, and page tables live in it. A \<^verbatim>\<open>panic\<close>, a failed
  \<^verbatim>\<open>assert\<close> and a null dereference are the left side of \<open>'a exec = panic + 'a\<close>; error returns
  are the negative numbers of \<^verbatim>\<open>inc/error.h\<close>. A function that may give the CPU away instead of
  returning has an \<open>outcome\<close> (\<open>Ret\<close>, \<open>Run\<close>, \<open>Halt\<close>, \<open>Monitor\<close>). Loops with a bound are
  structural recursions or folds over the range; loops without one are
  \<open>partial_function (option)\<close>, where \<open>None\<close> means that the loop never ends. No fuel is used.

  \<^bold>\<open>The theories.\<close>
  \<^item> \<open>Prelude\<close>, \<open>Machine\<close>, \<open>KState\<close>: words and lists; the constants and macros of
    \<^verbatim>\<open>inc/types.h\<close>, \<^verbatim>\<open>inc/mmu.h\<close>, \<^verbatim>\<open>inc/memlayout.h\<close>, \<^verbatim>\<open>inc/error.h\<close> and \<^verbatim>\<open>inc/trap.h\<close>; the
    kernel state.
  \<^item> \<open>Pool\<close>, \<open>PageAlloc\<close>: the locale \<open>resource_pool\<close> of allocators, and the page allocator of
    \<^verbatim>\<open>kern/pmap.c\<close> that interprets it. Allocated pages are distinct, freed ones come back, and
    what \<^verbatim>\<open>page_init\<close> builds satisfies the invariant.
  \<^item> \<open>PageTable\<close>, \<open>AddrSpace\<close>: page directories and tables. \<open>vm_inv\<close> relates the tables, the
    reference counters and the free list; every operation keeps it, and \<^verbatim>\<open>page_insert\<close> and
    \<^verbatim>\<open>page_remove\<close> refine updates and deletions of a map from pages to frames (locale
    \<open>map_store\<close>). \<^verbatim>\<open>user_mem_check\<close> accepts exactly the ranges whose pages carry the permissions,
    except that it accepts every range that wraps around.
  \<^item> \<open>Envs\<close>, \<open>EnvInv\<close>, \<open>Sched\<close>: \<^verbatim>\<open>kern/env.c\<close>, \<^verbatim>\<open>kern/sched.c\<close> and \<^verbatim>\<open>kern/time.c\<close>; the kernel invariant
    \<open>kinv\<close> over environments and address spaces, kept by creation, destruction and scheduling.
  \<^item> \<open>Syscalls\<close>, \<open>SyscallInv\<close>: the calls of \<^verbatim>\<open>kern/syscall.c\<close> on environments, memory and IPC, and
    that each of them keeps \<open>kinv\<close>.
  \<^item> \<open>Fifo\<close>: the locale \<open>fifo\<close> of bounded queues and the circular arrays behind the drivers.
  \<^item> \<open>Console\<close>, \<open>Vga\<close>, \<open>Bitmap\<close>, \<open>Mouse\<close>, \<open>E1000\<close>: the drivers. Input buffers, the click queue and
    the two rings of the network card interpret \<open>fifo\<close>; the drawing routines are exact on the
    screen, and the theories say where they leave it or do not return.
  \<^item> \<open>StringLib\<close>, \<open>Printfmt\<close>: \<^verbatim>\<open>lib/string.c\<close> and \<^verbatim>\<open>lib/printfmt.c\<close>; \<^verbatim>\<open>memmove\<close> and \<^verbatim>\<open>memset\<close> with
    their four and two assembly loops, bounded copies, and the round trips of numbers.

  \<^bold>\<open>Environment of the model.\<close> What the hardware does is a parameter or part of the state: the
  bytes that arrive at a port are a list in the state, the EEPROM contents and the controller's
  answers are arguments, and what the network card does to a ring is \<open>hw_send\<close> and
  \<open>hw_receive\<close>. There is one CPU; the kernel holds its lock from entry to exit.

  \<^bold>\<open>Not modelled.\<close> Boot loader and assembly entry code, start-up of the other CPUs and of the
  interrupt controllers, \<^verbatim>\<open>vga_init\<close> and the other sequences of constant port writes, the
  kernel monitor and its symbol tables, the file server, the user programs and the user library
  besides strings and printing, and the vendored TCP/IP stack.
\<close>

end
